(* ===== verification/Shl_Prelude.thy ===== *)
theory Shl_Prelude
  imports Main "HOL-Library.Word" "HOL-Library.Monad_Syntax"
begin

text \<open>
  Shared vocabulary of the development: the machine integers of the LP64 target, the error
  numbers the library returns, blocks of memory with bounds-checked access, the allocator
  environment, and the lemmas on words, lists and blocks that the component theories use.

  Undefined behaviour of C (an access outside a block, a shift by the width of the type or more,
  \<^verbatim>\<open>__builtin_clzll(0)\<close>, a read through a dangling pointer) is the value \<^const>\<open>None\<close> of an
  \<open>option\<close> result; every operation that touches memory is written in the option monad, so a
  theorem that an operation equals \<open>Some \<dots>\<close> also says that it is free of undefined behaviour.
  A C error return is an \<open>Inl\<close> of the sum type \<open>'a res\<close>.
\<close>

unbundle bit_operations_syntax

named_theorems unat_simps \<comment> \<open>reading word arithmetic as natural numbers\<close>
named_theorems blk_simps \<comment> \<open>bounds-checked block access\<close>

subsection \<open>Machine integers and error numbers\<close>

type_synonym u8 = "8 word"
type_synonym u16 = "16 word"
type_synonym u32 = "32 word"
type_synonym u64 = "64 word"
type_synonym size_t = "64 word"
type_synonym ptr = u64

text \<open>The error numbers the sources return (negated) from their operations.\<close>

datatype errno = EINVAL | ENOMEM | ERANGE | EALREADY | EFAULT | ENODEV | EAGAIN | EEXIST | ENOTDIR | EIO | EINTR | EBADF | OtherErrno nat

type_synonym 'a res = "errno + 'a"

abbreviation ok :: "unit res" where "ok \<equiv> Inr ()"

subsection \<open>Blocks of memory\<close>

text \<open>
  A block is the list of its bytes. \<open>mem_read b off n\<close> reads \<open>n\<close> elements at offset \<open>off\<close> and
  \<open>mem_write b off xs\<close> overwrites the elements at \<open>off\<close>; both are undefined outside the block.
  \<^verbatim>\<open>memcpy(&d[i], &s[j], n)\<close> is a read of \<open>s\<close> followed by a write of \<open>d\<close>.
\<close>

type_synonym block = "u8 list"

definition mem_read :: "'a list \<Rightarrow> nat \<Rightarrow> nat \<Rightarrow> 'a list option" where
  "mem_read b off n = (if off + n \<le> length b then Some (take n (drop off b)) else None)"

definition mem_write :: "'a list \<Rightarrow> nat \<Rightarrow> 'a list \<Rightarrow> 'a list option" where
  "mem_write b off xs =
     (if off + length xs \<le> length b
      then Some (take off b @ xs @ drop (off + length xs) b) else None)"

definition memcpy_at :: "'a list \<Rightarrow> nat \<Rightarrow> 'a list \<Rightarrow> nat \<Rightarrow> nat \<Rightarrow> 'a list option" where
  "memcpy_at dst i src j n = do { xs \<leftarrow> mem_read src j n; mem_write dst i xs }"

text \<open>A possibly null pointer to the start of a block; nothing can be accessed through null.\<close>

definition blk :: "'a list option \<Rightarrow> 'a list" where
  "blk p = (case p of None \<Rightarrow> [] | Some b \<Rightarrow> b)"

lemma blk_simps' [simp]: "blk None = []" "blk (Some b) = b"
  by (simp_all add: blk_def)

definition char_at :: "u8 list \<Rightarrow> nat \<Rightarrow> u8 option" where
  "char_at str i = (if i < length str then Some (str ! i) else None)"

lemma mem_read_Some [blk_simps]:
  "off + n \<le> length b \<Longrightarrow> mem_read b off n = Some (take n (drop off b))"
  by (simp add: mem_read_def)

lemma mem_write_Some [blk_simps]:
  "off + length xs \<le> length b \<Longrightarrow>
   mem_write b off xs = Some (take off b @ xs @ drop (off + length xs) b)"
  by (simp add: mem_write_def)

lemma mem_write_single: "mem_write b i [x] = (if i < length b then Some (b[i := x]) else None)"
  by (simp add: mem_write_def upd_conv_take_nth_drop Suc_le_eq)

lemma length_mem_read: "mem_read b off n = Some xs \<Longrightarrow> length xs = n"
  by (auto simp: mem_read_def split: if_splits)

lemma length_mem_write: "mem_write b off xs = Some b' \<Longrightarrow> length b' = length b"
  by (auto simp: mem_write_def split: if_splits)

lemma memcpy_at_Some [blk_simps]:
  "j + n \<le> length src \<Longrightarrow> i + n \<le> length dst \<Longrightarrow>
   memcpy_at dst i src j n = Some (take i dst @ take n (drop j src) @ drop (i + n) dst)"
  by (simp add: memcpy_at_def mem_read_def mem_write_def)

lemma memcpy_at_0: "i \<le> length dst \<Longrightarrow> j \<le> length src \<Longrightarrow> memcpy_at dst i src j 0 = Some dst"
  by (simp add: memcpy_at_def mem_read_def mem_write_def)

lemma memcpy_at_None: "length src < j + n \<Longrightarrow> memcpy_at dst i src j n = None"
  by (simp add: memcpy_at_def mem_read_def)

lemma length_memcpy_at: "memcpy_at dst i src j n = Some b \<Longrightarrow> length b = length dst"
  by (auto simp: memcpy_at_def split: bind_splits dest: length_mem_write)

subsection \<open>The allocator\<close>

text \<open>
  What an operation sees of the C allocator: whether a request of a given size fails, and the
  indeterminate contents of fresh memory. Both are arbitrary, so every result holds for every
  allocator. \<open>malloc_blk\<close> and \<open>realloc_blk\<close> return null or a block of exactly the requested
  size; \<open>realloc\<close> keeps the common prefix.
\<close>

record alloc_env =
  alloc_fails :: "size_t \<Rightarrow> bool"
  junk :: "nat \<Rightarrow> u8"

definition malloc_blk :: "alloc_env \<Rightarrow> size_t \<Rightarrow> block option" where
  "malloc_blk env n =
     (if alloc_fails env n then None else Some (map (junk env) [0..<unat n]))"

definition realloc_blk :: "alloc_env \<Rightarrow> block option \<Rightarrow> size_t \<Rightarrow> block option" where
  "realloc_blk env p n =
     (if alloc_fails env n then None
      else Some (take (unat n) (blk p) @ map (junk env) [length (blk p)..<unat n]))"

lemma length_malloc_blk: "malloc_blk env n = Some b \<Longrightarrow> length b = unat n"
  by (auto simp: malloc_blk_def split: if_splits)

lemma length_realloc_blk: "realloc_blk env p n = Some b \<Longrightarrow> length b = unat n"
  by (auto simp: realloc_blk_def min_def split: if_splits)

lemma realloc_blk_prefix:
  "realloc_blk env p n = Some b \<Longrightarrow> k \<le> length (blk p) \<Longrightarrow> k \<le> unat n \<Longrightarrow>
   take k b = take k (blk p)"
  by (auto simp: realloc_blk_def split: if_splits)

subsection \<open>Words as natural numbers\<close>

lemma unat_bound: "unat (x :: 'a :: len word) < 2 ^ LENGTH('a)"
  by (rule unsigned_less)

lemma unat_bound_le: "LENGTH('a) \<le> n \<Longrightarrow> unat (x :: 'a :: len word) < 2 ^ n"
  using unat_bound [of x] power_increasing [of "LENGTH('a)" n "2 :: nat"] by linarith

lemma unat_lt_64 [simp]: "unat (x :: u64) < 2 ^ 64"
  using unat_bound [of x] by simp

lemma sint_eq_unat:
  assumes "unat (x :: 'a :: len word) < 2 ^ (LENGTH('a) - 1)"
  shows "sint x = int (unat x)"
proof -
  have "int (unat x) < 2 ^ (LENGTH('a) - 1)" using assms by (metis of_nat_less_iff of_nat_numeral of_nat_power)
  then have "uint x < 2 ^ (LENGTH('a) - 1)" by simp
  moreover have "- (2 ^ (LENGTH('a) - 1)) \<le> uint x" by (rule order_trans [of _ 0]) simp_all
  ultimately have "signed_take_bit (LENGTH('a) - 1) (uint x) = uint x"
    by (intro signed_take_bit_int_eq_self)
  then show ?thesis by (simp add: sint_uint)
qed

lemma unat_minus_one [unat_simps]: "unat (- 1 :: 'a :: len word) = 2 ^ LENGTH('a) - 1"
  by (simp add: unsigned_minus_1_eq_mask mask_eq_exp_minus_1)

lemma unat_ucast_up [unat_simps]:
  "unat (x :: 'a :: len word) < 2 ^ LENGTH('b) \<Longrightarrow> unat (ucast x :: 'b :: len word) = unat x"
  by (simp add: unsigned_ucast_eq take_bit_nat_eq_self)

lemma unat_ucast_mod: "unat (ucast (x :: 'a :: len word) :: 'b :: len word) = unat x mod 2 ^ LENGTH('b)"
  by (simp add: unsigned_ucast_eq take_bit_eq_mod)

lemma ucast_scast_id: "LENGTH('a) \<le> LENGTH('b) \<Longrightarrow> ucast (scast (i :: 'a :: len word) :: 'b :: len word) = i"
proof (rule bit_word_eqI)
  fix n assume le: "LENGTH('a) \<le> LENGTH('b)" and n: "n < LENGTH('a)"
  then have "min (LENGTH('a) - Suc 0) n = n" by auto
  with le n show "bit (ucast (scast i :: 'b word) :: 'a word) n \<longleftrightarrow> bit i n"
    by (simp add: bit_unsigned_iff bit_signed_iff)
qed

lemma unat_eq_one: "unat x = Suc 0 \<longleftrightarrow> x = 1"
  by (metis One_nat_def unat_1 word_unat_eq_iff)

lemma if_greater_min: "(if b < a then b else a) = min a (b :: 'a :: linorder)"
  by (auto simp: min_def)

lemma unat_min [unat_simps]: "unat (min a b) = min (unat a) (unat b)"
  by (simp add: min_def word_le_nat_alt)

lemma less_iff_le_pred: "0 < n \<Longrightarrow> (m :: nat) < n \<longleftrightarrow> m \<le> n - 1"
  by auto

lemma unat_lt_64_num [simp]: "unat (x :: u64) < 18446744073709551616"
  using unat_lt_64 [of x] by simp

lemma unat_add_nowrap [unat_simps]:
  "unat a + unat b < 2 ^ LENGTH('a) \<Longrightarrow> unat (a + b :: 'a :: len word) = unat a + unat b"
  by (simp add: unat_word_ariths)

lemma unat_Suc_less: "i < n \<Longrightarrow> unat (i + 1 :: 'a :: len word) = Suc (unat i)"
  using unat_add_nowrap [of i 1] unat_bound [of n] by (cases "LENGTH('a) = 1") (auto simp: word_less_nat_alt)

lemma unat_sub_nowrap [unat_simps]:
  "b \<le> a \<Longrightarrow> unat (a - b :: 'a :: len word) = unat a - unat b"
  by (simp add: unat_sub_if' word_le_nat_alt)

lemma unat_mult_nowrap:
  "unat (a :: 'a :: len word) * unat b < 2 ^ LENGTH('a) \<Longrightarrow> unat (a * b) = unat a * unat b"
  by (simp add: unat_word_ariths)

lemma unat_exp [unat_simps]: "k < LENGTH('a) \<Longrightarrow> unat (2 ^ k :: 'a :: len word) = 2 ^ k"
  by (simp add: of_nat_inverse)

lemma word_of_unat_eqI: "unat (a :: 'a :: len word) = unat b \<Longrightarrow> a = b"
  by (rule word_unat_eq_iff [THEN iffD2])

text \<open>Masking with a power of two minus one is the remainder: the ring index computation.\<close>

lemma unat_and_exp_minus_1 [unat_simps]:
  assumes "k < LENGTH('a)"
  shows "unat (v AND (2 ^ k - 1) :: 'a :: len word) = unat v mod 2 ^ k"
proof -
  have "v AND (2 ^ k - 1) = take_bit k v"
    by (simp add: take_bit_eq_mask mask_eq_exp_minus_1)
  then have "unat (v AND (2 ^ k - 1)) = take_bit k (unat v)"
    by (simp only: unsigned_take_bit_eq)
  then show ?thesis
    by (simp only: take_bit_eq_mod)
qed

subsection \<open>The most significant bit\<close>

text \<open>
  \<open>top_bit n x\<close> is the index at which the loop \<^verbatim>\<open>for (i = n; i > 0; i--) if (x & (1 << i)) break;\<close>
  stops: the highest set bit among bits \<open>1..n\<close>, or \<open>0\<close>.
\<close>

primrec top_bit :: "nat \<Rightarrow> 'a :: len word \<Rightarrow> nat" where
  "top_bit 0 x = 0"
| "top_bit (Suc n) x = (if bit x (Suc n) then Suc n else top_bit n x)"

lemma top_bit_le: "top_bit n x \<le> n"
  by (induction n) auto

lemma bit_top_bit: "take_bit (Suc n) x \<noteq> 0 \<Longrightarrow> bit x (top_bit n x)"
proof (induction n)
  case 0
  then show ?case
    by (auto simp: take_bit_Suc bit_0 odd_iff_mod_2_eq_one split: if_splits)
next
  case (Suc n)
  have "take_bit (Suc (Suc n)) x = take_bit (Suc n) x" if "\<not> bit x (Suc n)"
    using that by (auto intro!: bit_word_eqI simp: bit_take_bit_iff less_Suc_eq)
  with Suc show ?case by auto
qed

lemma top_bit_above: "top_bit n x < i \<Longrightarrow> i \<le> n \<Longrightarrow> \<not> bit x i"
  by (induction n) (auto split: if_splits simp: le_Suc_eq)

lemma unat_less_top_bit:
  fixes x :: "'a :: len word"
  shows "unat x < 2 ^ Suc (top_bit (LENGTH('a) - 1) x)"
proof -
  let ?t = "top_bit (LENGTH('a) - 1) x"
  have "take_bit (Suc ?t) x = x"
  proof (rule bit_word_eqI)
    fix i assume "i < LENGTH('a)"
    then show "bit (take_bit (Suc ?t) x) i \<longleftrightarrow> bit x i"
      using top_bit_above [of "LENGTH('a) - 1" x i]
      by (cases "i \<le> ?t") (auto simp: bit_take_bit_iff less_Suc_eq_le)
  qed
  then have "unat x = take_bit (Suc ?t) (unat x)"
    by (metis unsigned_take_bit_eq)
  then show ?thesis
    by (metis take_bit_nat_less_exp)
qed

lemma unat_ge_bit:
  fixes x :: "'a :: len word"
  assumes "bit x i"
  shows "2 ^ i \<le> unat x"
proof -
  from assms have "bit (unat x) i" by (simp add: bit_unsigned_iff)
  then have "\<not> unat x < 2 ^ i"
    by (auto simp: bit_iff_odd)
  then show ?thesis by simp
qed

lemma nth_update_if: "j < length t \<Longrightarrow> t[k := e] ! j = (if j = k then e else t ! j)"
  by (cases "j = k") auto

subsection \<open>Counting loops\<close>

text \<open>
  A loop \<^verbatim>\<open>for (i = 0; i < n; ++i)\<close> whose body may fail or be undefined is a fold over the indices in
  the option monad. The rule is the loop rule: an invariant that every iteration keeps holds at the
  end, and the loop is defined.
\<close>

primrec foldM :: "('a \<Rightarrow> 's \<Rightarrow> 's option) \<Rightarrow> 'a list \<Rightarrow> 's \<Rightarrow> 's option" where
  "foldM f [] s = Some s"
| "foldM f (x # xs) s = do { s \<leftarrow> f x s; foldM f xs s }"

lemma foldM_append: "foldM f (xs @ ys) s = do { s \<leftarrow> foldM f xs s; foldM f ys s }"
  by (induction xs arbitrary: s) (auto split: bind_splits)

lemma foldM_upt_inv:
  assumes "P 0 s" "\<And>i s. i < n \<Longrightarrow> P i s \<Longrightarrow> \<exists>s'. f i s = Some s' \<and> P (Suc i) s'"
  shows "\<exists>s'. foldM f [0..<n] s = Some s' \<and> P n s'"
  using assms(2)
proof (induction n)
  case 0
  then show ?case using assms(1) by simp
next
  case (Suc n)
  then obtain s1 where "foldM f [0..<n] s = Some s1" "P n s1" by force
  moreover obtain s2 where "f n s1 = Some s2" "P (Suc n) s2" using Suc.prems calculation by blast
  ultimately show ?case by (simp add: foldM_append)
qed

text \<open>The usual test for the overflow of an addition.\<close>

lemma wrap_add_ge:
  fixes a b :: "'a :: len word"
  shows "a \<le> a + b \<longleftrightarrow> unat a + unat b < 2 ^ LENGTH('a)"
proof (cases "unat a + unat b < 2 ^ LENGTH('a)")
  case True
  then show ?thesis by (simp add: word_le_nat_alt unat_add_nowrap)
next
  case False
  moreover have "unat a + unat b - 2 ^ LENGTH('a) < 2 ^ LENGTH('a)"
    using unat_bound [of a] unat_bound [of b] by linarith
  ultimately have "unat (a + b) = unat a + unat b - 2 ^ LENGTH('a)"
    by (simp add: unat_word_ariths le_mod_geq not_less)
  with False show ?thesis
    using unat_bound [of b] unfolding word_le_nat_alt by linarith
qed

end
