(* ===== verification/Shl_Macro.thy ===== *)
theory Shl_Macro
  imports Shl_Prelude
begin

text \<open>
  The helpers of \<^verbatim>\<open>src/shl_macro.h\<close>: clean-up at the end of a scope, minimum, maximum and clamping,
  alignment to a power of two, zeroing memory, pointer/integer casts, container pointers, and the
  overflow-checked multiplications. The
  preprocessor branches are those of the LP64 target (\<^verbatim>\<open>unsigned long\<close> and \<^verbatim>\<open>uint_fast16_t\<close> to
  \<^verbatim>\<open>uint_fast64_t\<close> have 64 bits, \<^verbatim>\<open>unsigned int\<close> has 32).
\<close>

subsection \<open>Clean-up at the end of a scope\<close>

text \<open>
  A variable with the attribute \<^verbatim>\<open>cleanup\<close>: when its scope is left, the handler is called with the
  address of the variable, whose value is then the one the body left there. The state is passed
  through; \<open>None\<close> is undefined behaviour of the body or of the handler.
\<close>

definition shl_cleanup :: "('v \<Rightarrow> 's \<Rightarrow> 's option) \<Rightarrow> ('v \<Rightarrow> 's \<Rightarrow> ('r \<times> 'v \<times> 's) option) \<Rightarrow> 'v \<Rightarrow> 's \<Rightarrow> ('r \<times> 's) option" where
  "shl_cleanup handler body v st = do {
     (r, v, st) \<leftarrow> body v st;
     st \<leftarrow> handler v st;
     Some (r, st) }"

text \<open>
  \<^verbatim>\<open>free\<close> on the set of live allocations: null is ignored, any other pointer has to be live. The
  handler \<^verbatim>\<open>shl_freep\<close> frees what the variable points to, and \<^verbatim>\<open>_shl_free_\<close> attaches it.
\<close>

definition free_ptr :: "ptr \<Rightarrow> ptr set \<Rightarrow> ptr set option" where
  "free_ptr q live = (if q = 0 then Some live else if q \<in> live then Some (live - {q}) else None)"

definition shl_freep :: "ptr \<Rightarrow> ptr set \<Rightarrow> ptr set option" where
  "shl_freep p live = free_ptr p live"

definition shl_free_scope :: "(ptr \<Rightarrow> ptr set \<Rightarrow> ('r \<times> ptr \<times> ptr set) option) \<Rightarrow> ptr \<Rightarrow> ptr set \<Rightarrow> ('r \<times> ptr set) option" where
  "shl_free_scope = shl_cleanup shl_freep"

text \<open>
  A scope whose body sets the variable to a fresh allocation (or leaves it null) does not leak it and
  does not free it twice; handing the object out by setting the variable to null keeps it.
\<close>

lemma free_scope_no_leak:
  "q \<notin> live \<Longrightarrow> q \<noteq> 0 \<Longrightarrow> shl_free_scope (\<lambda>v live. Some (r, q, insert q live)) v live = Some (r, live)"
  "shl_free_scope (\<lambda>v live. Some (r, 0, insert q live)) v live = Some (r, insert q live)"
  by (auto simp: shl_free_scope_def shl_cleanup_def shl_freep_def free_ptr_def)

lemma free_scope_double_free:
  "q \<notin> live \<Longrightarrow> q \<noteq> 0 \<Longrightarrow> shl_free_scope (\<lambda>v live. Some (r, q, live)) v live = None"
  by (simp add: shl_free_scope_def shl_cleanup_def shl_freep_def free_ptr_def)

text \<open>
  \<^verbatim>\<open>SHL_PROTECT_ERRNO\<close> declares a variable that holds \<^verbatim>\<open>errno\<close> on entry and that nothing else names;
  its handler writes it back. The state here is \<^verbatim>\<open>errno\<close> itself beside the rest of the program's.
\<close>

definition shl_set_errno :: "int \<Rightarrow> int \<times> 's \<Rightarrow> int \<times> 's" where
  "shl_set_errno r st = (r, snd st)"

definition SHL_PROTECT_ERRNO :: "(int \<times> 's \<Rightarrow> ('r \<times> int \<times> 's) option) \<Rightarrow> int \<times> 's \<Rightarrow> ('r \<times> int \<times> 's) option" where
  "SHL_PROTECT_ERRNO body st =
     (let shl__errno = fst st
      in shl_cleanup (\<lambda>v st. Some (shl_set_errno v st))
           (\<lambda>v st. do { (r, st) \<leftarrow> body st; Some (r, v, st) }) shl__errno st)"

lemma protect_errno_eq:
  "SHL_PROTECT_ERRNO body st = map_option (\<lambda>(r, _, s). (r, fst st, s)) (body st)"
  by (cases "body st") (auto simp: SHL_PROTECT_ERRNO_def shl_cleanup_def shl_set_errno_def)

lemma protect_errno_keeps: "SHL_PROTECT_ERRNO body st = Some (r, e, s) \<Longrightarrow> e = fst st"
  by (auto simp: protect_errno_eq)

lemma protect_errno_idem: "SHL_PROTECT_ERRNO (SHL_PROTECT_ERRNO body) = SHL_PROTECT_ERRNO body"
proof
  fix st show "SHL_PROTECT_ERRNO (SHL_PROTECT_ERRNO body) st = SHL_PROTECT_ERRNO body st"
    by (cases "body st") (auto simp: protect_errno_eq)
qed

subsection \<open>Array length and zeroing memory\<close>

definition SHL_ARRAY_LENGTH :: "size_t \<Rightarrow> size_t \<Rightarrow> size_t" where
  "SHL_ARRAY_LENGTH size_array size_elem = size_array div size_elem"

lemma array_length_count:
  "0 < k \<Longrightarrow> n * k < 2 ^ 64 \<Longrightarrow> SHL_ARRAY_LENGTH (of_nat (n * k)) (of_nat k) = of_nat n"
proof -
  assume k: "0 < k" and nk: "n * k < 2 ^ 64"
  have "n \<le> n * k" "n = 0 \<or> k \<le> n * k" using k by auto
  with nk have "n < 2 ^ 64" "n = 0 \<or> k < 2 ^ 64" by linarith+
  with k nk show ?thesis
    by (intro word_of_unat_eqI) (auto simp: SHL_ARRAY_LENGTH_def unat_div unat_of_nat simp del: of_nat_mult)
qed

definition shl_memzero :: "block \<Rightarrow> nat \<Rightarrow> nat \<Rightarrow> block option" where
  "shl_memzero b off n = mem_write b off (replicate n 0)"

definition shl_zero :: "block \<Rightarrow> block option" where
  "shl_zero b = shl_memzero b 0 (length b)"

lemma shl_zero_eq [simp]: "shl_zero b = Some (replicate (length b) 0)"
  by (simp add: shl_zero_def shl_memzero_def mem_write_def)

subsection \<open>Minimum, maximum, clamp\<close>

definition shl_max :: "'a :: linorder \<Rightarrow> 'a \<Rightarrow> 'a" where
  "shl_max a b = (if a > b then a else b)"

definition shl_max_t :: "('a \<Rightarrow> 't) \<Rightarrow> ('b \<Rightarrow> 't) \<Rightarrow> 'a \<Rightarrow> 'b \<Rightarrow> 't :: linorder" where
  "shl_max_t cast_a cast_b a b = (let a' = cast_a a; b' = cast_b b in if a' > b' then a' else b')"

definition shl_min :: "'a :: linorder \<Rightarrow> 'a \<Rightarrow> 'a" where
  "shl_min a b = (if a < b then a else b)"

definition shl_min_t :: "('a \<Rightarrow> 't) \<Rightarrow> ('b \<Rightarrow> 't) \<Rightarrow> 'a \<Rightarrow> 'b \<Rightarrow> 't :: linorder" where
  "shl_min_t cast_a cast_b a b = (let a' = cast_a a; b' = cast_b b in if a' < b' then a' else b')"

definition shl_clamp :: "'a :: linorder \<Rightarrow> 'a \<Rightarrow> 'a \<Rightarrow> 'a" where
  "shl_clamp v low high = (if v > high then high else if v < low then low else v)"

lemma shl_max_eq [simp]: "shl_max a b = max a b"
  by (auto simp: shl_max_def max_def)

lemma shl_min_eq [simp]: "shl_min a b = min a b"
  by (auto simp: shl_min_def min_def)

lemma shl_max_t_eq [simp]: "shl_max_t f g a b = max (f a) (g b)"
  by (auto simp: shl_max_t_def max_def Let_def)

lemma shl_min_t_eq [simp]: "shl_min_t f g a b = min (f a) (g b)"
  by (auto simp: shl_min_t_def min_def Let_def)

lemma shl_clamp_bounds: "low \<le> high \<Longrightarrow> low \<le> shl_clamp v low high \<and> shl_clamp v low high \<le> high"
  by (auto simp: shl_clamp_def)

subsection \<open>Alignment to a power of two\<close>

text \<open>
  \<^verbatim>\<open>__builtin_clzll\<close> is undefined at 0; a shift of a 64-bit value is undefined for a count of 64
  or more.
\<close>

definition clzll :: "u64 \<Rightarrow> nat option" where
  "clzll x = (if x = 0 then None else Some (63 - top_bit 63 x))"

definition shift_left_ull :: "u64 \<Rightarrow> nat \<Rightarrow> u64 option" where
  "shift_left_ull x n = (if n < 64 then Some (push_bit n x) else None)"

definition SHL_ALIGN_POWER2 :: "size_t \<Rightarrow> size_t option" where
  "SHL_ALIGN_POWER2 u = do { z \<leftarrow> clzll (u - 1); shift_left_ull 1 (64 - z) }"

lemma align_power2_unfold:
  "u \<noteq> 1 \<Longrightarrow> SHL_ALIGN_POWER2 u =
     (if top_bit 63 (u - 1) < 63 then Some (2 ^ Suc (top_bit 63 (u - 1))) else None)"
  using top_bit_le [of 63 "u - 1"]
  by (auto simp: SHL_ALIGN_POWER2_def clzll_def shift_left_ull_def push_bit_eq_mult)

lemma align_power2_exp:
  assumes "2 \<le> unat u" and "unat u \<le> 2 ^ 63"
  obtains k where "1 \<le> k" "k \<le> 63" "SHL_ALIGN_POWER2 u = Some (2 ^ k)"
    "unat u \<le> 2 ^ k" "2 ^ (k - 1) < unat u"
proof -
  let ?t = "top_bit 63 (u - 1)"
  have u1: "u \<noteq> 1" and le: "1 \<le> u"
    using assms(1) by (auto simp: word_le_nat_alt)
  have m: "unat (u - 1) = unat u - 1"
    using le by (simp add: unat_sub_nowrap)
  have "unat (u - 1) < 2 ^ Suc ?t"
    using unat_less_top_bit [of "u - 1"] by simp
  then have up: "unat u \<le> 2 ^ Suc ?t"
    using m by linarith
  have "take_bit 64 (u - 1) = u - 1"
    using take_bit_word_eq_self [of 64 "u - 1"] by simp
  then have "bit (u - 1) ?t"
    using bit_top_bit [of 63 "u - 1"] u1 by (simp add: eval_nat_numeral)
  then have lo: "2 ^ ?t < unat u"
    using unat_ge_bit [of "u - 1" ?t] m assms(1) by linarith
  then have "(2::nat) ^ ?t < 2 ^ 63"
    using assms(2) by linarith
  then have "?t < 63"
    by (rule power_less_imp_less_exp [rotated]) simp
  with u1 have "SHL_ALIGN_POWER2 u = Some (2 ^ Suc ?t)"
    by (simp add: align_power2_unfold)
  with \<open>?t < 63\<close> up lo show ?thesis
    by (intro that [of "Suc ?t"]) auto
qed

text \<open>Outside the range \<open>2 .. 2^63\<close> the helper has undefined behaviour.\<close>

lemma align_power2_undefined:
  assumes "unat u < 2 \<or> 2 ^ 63 < unat u"
  shows "SHL_ALIGN_POWER2 u = None"
proof (cases "u = 1")
  case True
  then show ?thesis by (simp add: SHL_ALIGN_POWER2_def clzll_def)
next
  case False
  have "2 ^ 63 \<le> unat (u - 1)"
  proof (cases "u = 0")
    case False
    then have "1 \<le> u" by (simp add: word_le_nat_alt unat_gt_0 Suc_le_eq)
    moreover have "2 ^ 63 < unat u"
      using assms \<open>u \<noteq> 1\<close> False by (auto simp: less_2_cases_iff unat_eq_one unat_0_iff)
    ultimately show ?thesis by (simp add: unat_sub_nowrap)
  qed (simp add: unat_minus_one)
  then have "(2::nat) ^ 63 < 2 ^ Suc (top_bit 63 (u - 1))"
    using unat_less_top_bit [of "u - 1"] by simp
  then have "63 < Suc (top_bit 63 (u - 1))"
    by (rule power_less_imp_less_exp [rotated]) simp
  with False show ?thesis
    by (simp add: align_power2_unfold)
qed

subsection \<open>Pointer and integer casts, containers\<close>

definition SHL_PTR_TO_INT :: "u64 \<Rightarrow> 32 word" where "SHL_PTR_TO_INT p = ucast p"
definition SHL_INT_TO_PTR :: "32 word \<Rightarrow> u64" where "SHL_INT_TO_PTR i = scast i"
definition SHL_PTR_TO_UINT :: "u64 \<Rightarrow> u32" where "SHL_PTR_TO_UINT p = ucast p"
definition SHL_UINT_TO_PTR :: "u32 \<Rightarrow> u64" where "SHL_UINT_TO_PTR i = ucast i"
definition SHL_PTR_TO_LONG :: "u64 \<Rightarrow> 64 word" where "SHL_PTR_TO_LONG p = ucast p"
definition SHL_LONG_TO_PTR :: "64 word \<Rightarrow> u64" where "SHL_LONG_TO_PTR i = scast i"
definition SHL_PTR_TO_ULONG :: "u64 \<Rightarrow> u64" where "SHL_PTR_TO_ULONG p = ucast p"
definition SHL_ULONG_TO_PTR :: "u64 \<Rightarrow> u64" where "SHL_ULONG_TO_PTR i = ucast i"

definition SHL_PTR_TO_S32 :: "u64 \<Rightarrow> 32 word" where "SHL_PTR_TO_S32 p = ucast p"
definition SHL_S32_TO_PTR :: "32 word \<Rightarrow> u64" where "SHL_S32_TO_PTR i = scast i"
definition SHL_PTR_TO_U32 :: "u64 \<Rightarrow> u32" where "SHL_PTR_TO_U32 p = ucast p"
definition SHL_U32_TO_PTR :: "u32 \<Rightarrow> u64" where "SHL_U32_TO_PTR i = ucast i"
definition SHL_PTR_TO_S64 :: "u64 \<Rightarrow> 64 word" where "SHL_PTR_TO_S64 p = ucast p"
definition SHL_S64_TO_PTR :: "64 word \<Rightarrow> u64" where "SHL_S64_TO_PTR i = scast i"
definition SHL_PTR_TO_U64 :: "u64 \<Rightarrow> u64" where "SHL_PTR_TO_U64 p = ucast p"
definition SHL_U64_TO_PTR :: "u64 \<Rightarrow> u64" where "SHL_U64_TO_PTR i = ucast i"

definition shl_container_of :: "u64 \<Rightarrow> u64 \<Rightarrow> u64" where
  "shl_container_of ptr member_offset = ptr - member_offset"

lemmas ptr_int_casts =
  SHL_PTR_TO_INT_def SHL_INT_TO_PTR_def SHL_PTR_TO_UINT_def SHL_UINT_TO_PTR_def
  SHL_PTR_TO_LONG_def SHL_LONG_TO_PTR_def SHL_PTR_TO_ULONG_def SHL_ULONG_TO_PTR_def
  SHL_PTR_TO_S32_def SHL_S32_TO_PTR_def SHL_PTR_TO_U32_def SHL_U32_TO_PTR_def
  SHL_PTR_TO_S64_def SHL_S64_TO_PTR_def SHL_PTR_TO_U64_def SHL_U64_TO_PTR_def

lemma ptr_int_roundtrip:
  "SHL_PTR_TO_INT (SHL_INT_TO_PTR i) = i" "SHL_PTR_TO_UINT (SHL_UINT_TO_PTR u) = u"
  "SHL_PTR_TO_LONG (SHL_LONG_TO_PTR l) = l" "SHL_PTR_TO_ULONG (SHL_ULONG_TO_PTR v) = v"
  "SHL_PTR_TO_S32 (SHL_S32_TO_PTR i) = i" "SHL_PTR_TO_U32 (SHL_U32_TO_PTR u) = u"
  "SHL_PTR_TO_S64 (SHL_S64_TO_PTR l) = l" "SHL_PTR_TO_U64 (SHL_U64_TO_PTR v) = v"
  by (simp_all add: ptr_int_casts ucast_scast_id unsigned_ucast_eq take_bit_word_eq_self)

text \<open>The signed casts keep the sign: a small negative number is a pointer near the top of memory.\<close>

lemma sint_bounds32: "- 9223372036854775808 \<le> sint (i :: 32 word)" "sint (i :: 32 word) < 9223372036854775808"
  using sint_ge [of i] sint_lt [of i] by simp_all

lemma ptr_signed: "sint (SHL_S32_TO_PTR i) = sint i" "sint (SHL_INT_TO_PTR i) = sint i"
  by (simp_all add: ptr_int_casts signed_scast_eq signed_take_bit_int_eq_self_iff signed_take_bit_int_eq_self sint_bounds32)

text \<open>The container of a member is the object the member was taken from.\<close>

lemma container_of_member: "shl_container_of (obj + off) off = obj"
  by (simp add: shl_container_of_def)

subsection \<open>Overflow-checked multiplication\<close>

definition SHL__REAL_MULT :: "'a :: len word \<Rightarrow> 'a word \<Rightarrow> 'a word \<Rightarrow> 'a word \<times> unit res" where
  "SHL__REAL_MULT mx val factor =
     (if factor = 0 \<or> val \<le> mx div factor then (val * factor, ok) else (val, Inl ERANGE))"

definition SHL__UPCAST_MULT :: "'a :: len word \<Rightarrow> 'a word \<Rightarrow> 'a word \<Rightarrow> 'a word \<times> unit res" where
  "SHL__UPCAST_MULT mx val factor =
     (let v = (ucast val :: u64) * ucast factor
      in if v \<le> ucast mx then (ucast v, ok) else (val, Inl ERANGE))"

definition shl_mult_ull :: "u64 \<Rightarrow> u64 \<Rightarrow> u64 \<times> unit res" where
  "shl_mult_ull val factor = SHL__REAL_MULT (- 1) val factor"

definition shl_mult_ul :: "u64 \<Rightarrow> u64 \<Rightarrow> u64 \<times> unit res" where
  "shl_mult_ul val factor = shl_mult_ull val factor"

definition shl_mult_u :: "u32 \<Rightarrow> u32 \<Rightarrow> u32 \<times> unit res" where
  "shl_mult_u val factor = SHL__UPCAST_MULT (- 1) val factor"

definition shl_mult_u64 :: "u64 \<Rightarrow> u64 \<Rightarrow> u64 \<times> unit res" where
  "shl_mult_u64 val factor = SHL__REAL_MULT (- 1) val factor"

definition shl_mult_u32 :: "u32 \<Rightarrow> u32 \<Rightarrow> u32 \<times> unit res" where
  "shl_mult_u32 val factor = SHL__UPCAST_MULT (- 1) val factor"

definition shl_mult_u16 :: "u16 \<Rightarrow> u16 \<Rightarrow> u16 \<times> unit res" where
  "shl_mult_u16 val factor = SHL__UPCAST_MULT (- 1) val factor"

definition shl_mult_u8 :: "u8 \<Rightarrow> u8 \<Rightarrow> u8 \<times> unit res" where
  "shl_mult_u8 val factor = SHL__UPCAST_MULT (- 1) val factor"

text \<open>The specification both strategies implement: the exact product, or \<open>ERANGE\<close> and no change.\<close>

definition checked_mult :: "'a :: len word \<Rightarrow> 'a word \<Rightarrow> 'a word \<times> unit res" where
  "checked_mult val factor =
     (if unat val * unat factor < 2 ^ LENGTH('a) then (val * factor, ok) else (val, Inl ERANGE))"

lemma real_mult_spec: "SHL__REAL_MULT (- 1) val factor = checked_mult val factor"
proof (cases "factor = 0")
  case False
  then have f: "0 < unat factor" by (simp add: unat_gt_0)
  have "val \<le> - 1 div factor \<longleftrightarrow> unat val \<le> (2 ^ LENGTH('a) - 1) div unat factor"
    by (simp add: word_le_nat_alt unat_div unat_minus_one)
  also have "\<dots> \<longleftrightarrow> unat val * unat factor \<le> 2 ^ LENGTH('a) - 1"
    using f by (simp add: less_eq_div_iff_mult_less_eq)
  also have "\<dots> \<longleftrightarrow> unat val * unat factor < 2 ^ LENGTH('a)"
    by (rule less_iff_le_pred [symmetric]) simp
  finally show ?thesis
    using False by (simp add: SHL__REAL_MULT_def checked_mult_def)
qed (simp add: SHL__REAL_MULT_def checked_mult_def)

lemma upcast_mult_spec:
  assumes "LENGTH('a) \<le> 32"
  shows "SHL__UPCAST_MULT (- 1) val factor = checked_mult (val :: 'a :: len word) factor"
proof -
  have lt: "unat val < 2 ^ 32" "unat factor < 2 ^ 32"
    using assms by (intro unat_bound_le; assumption)+
  then have "unat val * unat factor < 2 ^ 32 * 2 ^ 32"
    by (intro mult_strict_mono) auto
  then have p: "unat val * unat factor < 2 ^ 64"
    by simp
  let ?v = "(ucast val :: u64) * ucast factor"
  have v: "unat ?v = unat val * unat factor"
    using p lt by (simp add: unat_word_ariths unat_ucast_up)
  have mx: "unat (ucast (- 1 :: 'a word) :: u64) = 2 ^ LENGTH('a) - 1"
    using unat_bound_le [of 64 "- 1 :: 'a word"] assms by (simp add: unat_ucast_up unat_minus_one)
  have "?v \<le> ucast (- 1 :: 'a word) \<longleftrightarrow> unat val * unat factor < 2 ^ LENGTH('a)"
    unfolding word_le_nat_alt v mx by (rule less_iff_le_pred [symmetric]) simp
  moreover have "ucast ?v = val * factor"
    by (rule word_of_unat_eqI) (simp only: unat_ucast_mod v, simp add: unat_word_ariths)
  ultimately show ?thesis
    by (simp add: SHL__UPCAST_MULT_def checked_mult_def Let_def)
qed

lemma checked_mult_exact:
  "checked_mult val factor = (v, ok) \<Longrightarrow> unat v = unat val * unat factor"
  by (auto simp: checked_mult_def unat_word_ariths split: if_splits)

lemmas mult_specs =
  real_mult_spec [folded shl_mult_ull_def] real_mult_spec [folded shl_mult_u64_def]

lemma shl_mult_u32_spec: "shl_mult_u32 v f = checked_mult v f"
  by (simp add: shl_mult_u32_def upcast_mult_spec)

lemma shl_mult_ull_spec: "shl_mult_ull v f = checked_mult v f"
  by (simp add: shl_mult_ull_def real_mult_spec)

end
