(* ===== verification/Shl_Fifo.thy ===== *)
theory Shl_Fifo
  imports Shl_Prelude
begin

text \<open>
  What the library's byte queues promise, and the arithmetic of circular buffers they share.
  \<open>window b s u\<close> is the \<open>u\<close> bytes of the circular buffer \<open>b\<close> that start at offset \<open>s\<close>. The
  locale \<open>byte_fifo\<close> is the contract between a queue and its users; the ring buffer of
  \<^verbatim>\<open>shl_ring.c\<close>, the dynamic buffer of \<^verbatim>\<open>shl_buf.h\<close> and the output ring of \<^verbatim>\<open>shl_pty.c\<close> are its
  interpretations.
\<close>

subsection \<open>Windows of circular buffers\<close>

definition window :: "'a list \<Rightarrow> nat \<Rightarrow> nat \<Rightarrow> 'a list" where
  "window b s u = take u (drop s b @ take s b)"

lemma length_window [simp]: "s \<le> length b \<Longrightarrow> length (window b s u) = min u (length b)"
  by (simp add: window_def)

lemma window_0 [simp]: "window b s 0 = []"
  by (simp add: window_def)

lemma window_linear: "s + u \<le> length b \<Longrightarrow> window b s u = take u (drop s b)"
  by (simp add: window_def)

lemma window_wrapped:
  "s \<le> length b \<Longrightarrow> length b \<le> s + u \<Longrightarrow> u \<le> length b \<Longrightarrow>
   window b s u = drop s b @ take (u - (length b - s)) b"
  by (auto simp: window_def min_def)

lemma take_window: "n \<le> u \<Longrightarrow> take n (window b s u) = window b s n"
  by (simp add: window_def min_def)

lemma window_append_inside:
  assumes "s + u + length xs \<le> length b"
  shows "window (take (s + u) b @ xs @ drop (s + u + length xs) b) s (u + length xs)
       = window b s u @ xs"
  using assms by (simp add: window_def drop_take)

lemma window_append_split:
  assumes "length b = s + u + l" "l \<le> length xs" "length xs \<le> s + l"
  shows "window (drop l xs @ drop (length xs - l) (take (s + u) b @ take l xs)) s (u + length xs)
       = window b s u @ xs"
proof -
  have "window b s u = take u (drop s b)"
    using assms by (intro window_linear) simp
  then show ?thesis
    using assms by (simp add: window_def drop_take add.commute)
qed

lemma window_append_wrapped:
  assumes "s \<le> length b" "length b \<le> s + u" "u \<le> length b" "s + u - length b + length xs \<le> s"
  shows "window (take (s + u - length b) b @ xs @ drop (s + u - length b + length xs) b)
           s (u + length xs)
       = window b s u @ xs"
proof -
  let ?p = "s + u - length b"
  have w: "window b s u = drop s b @ take ?p b"
    using assms by (subst window_wrapped) (auto simp: add.commute)
  have e: "u + length xs = length (drop s b) + (?p + length xs)"
    using assms by simp
  have "take (length (drop s b) + (?p + length xs))
      (drop s (take ?p b @ xs @ drop (?p + length xs) b) @
       take s (take ?p b @ xs @ drop (?p + length xs) b))
      = drop s b @ take ?p b @ xs"
    using assms by simp
  then show ?thesis
    unfolding w by (simp only: window_def [of "_ @ _"] e append_assoc)
qed

lemma window_drop:
  assumes "s < length b" "u \<le> length b" "n \<le> u"
  shows "window b ((s + n) mod length b) (u - n) = drop n (window b s u)"
proof (cases "s + n < length b")
  case True
  then show ?thesis
    using assms by (simp add: window_def drop_take ac_simps)
next
  case False
  then have "(s + n) mod length b = s + n - length b"
    using assms by (simp add: mod_if [of "s + n"])
  moreover have "window b (s + n - length b) (u - n) = take (u - n) (drop (s + n - length b) b)"
    using assms False by (intro window_linear) simp
  ultimately show ?thesis
    using assms False by (auto simp: window_def drop_take min_def ac_simps)
qed

text \<open>The two-part copy out of a circular buffer that all rings use when they read or resize.\<close>

lemma copy_window:
  assumes "s \<le> length b" "n \<le> length b" "n \<le> length dst"
  shows "(if n \<le> length b - s then memcpy_at dst 0 b s n
          else memcpy_at dst 0 b s (length b - s) \<bind>
                 (\<lambda>buf. memcpy_at buf (length b - s) b 0 (n - (length b - s))))
       = Some (window b s n @ drop n dst)"
  using assms window_linear [of s n b] window_wrapped [of s b n]
  by (auto simp: memcpy_at_Some)

text \<open>
  The two-part copy into a circular buffer: \<open>xs\<close> goes behind the \<open>u\<close> bytes that start at
  \<open>s\<close>, wrapping around the end of the buffer where it has to.
\<close>

lemma write_window:
  assumes "s < length b" "u + n \<le> length b" "0 < n" "n \<le> length src"
    and "pos = (s + u) mod length b"
  obtains b' where
    "(if n \<le> length b - pos then memcpy_at b pos src 0 n
      else memcpy_at b pos src 0 (length b - pos) \<bind>
             (\<lambda>buf. memcpy_at buf 0 src (length b - pos) (n - (length b - pos)))) = Some b'"
    "length b' = length b" "window b' s (u + n) = window b s u @ take n src"
proof (cases "s + u < length b")
  case True
  then have pos: "pos = s + u" using assms(5) by simp
  let ?xs = "take n src"
  show ?thesis
  proof (cases "n \<le> length b - pos")
    case True
    then show ?thesis
      using assms pos window_append_inside [of s u ?xs b]
      by (intro that [of "take pos b @ ?xs @ drop (pos + n) b"]) (auto simp: memcpy_at_Some)
  next
    case False
    let ?l = "length b - pos"
    have "take (n - ?l) (drop ?l src) = drop ?l ?xs" "take ?l src = take ?l ?xs"
      using False by (simp_all add: drop_take)
    then show ?thesis
      using assms pos False \<open>s + u < length b\<close> window_append_split [of b s u ?l ?xs]
      by (intro that [of "drop ?l ?xs @ drop (n - ?l) (take (s + u) b @ take ?l ?xs)"])
        (auto simp: memcpy_at_Some)
  qed
next
  case False
  then have pos: "pos = s + u - length b"
    using assms by (simp add: mod_if [of "s + u"])
  show ?thesis
    using assms(1-4) pos False window_append_wrapped [of s b u "take n src"]
    by (intro that [of "take pos b @ take n src @ drop (pos + n) b"]) (auto simp: memcpy_at_Some)
qed

subsection \<open>The contract of a byte queue\<close>

text \<open>
  A client drives a queue with \<open>push\<close> (which may fail with \<open>ENOMEM\<close>) and \<open>pull\<close>, and sees the
  queued bytes with \<open>peek\<close>. \<open>fifo_run\<close> is such a client: it collects the bytes it consumed and
  the bytes the queue accepted.
\<close>

datatype fifo_op = Push alloc_env "u8 list" | Pull size_t

fun fifo_run ::
  "(alloc_env \<Rightarrow> 'q \<Rightarrow> u8 list \<Rightarrow> ('q \<times> unit res) option) \<Rightarrow> ('q \<Rightarrow> size_t \<Rightarrow> 'q option) \<Rightarrow>
   ('q \<Rightarrow> u8 list option) \<Rightarrow> fifo_op list \<Rightarrow> 'q \<Rightarrow> ('q \<times> u8 list \<times> u8 list) option" where
  "fifo_run push pull peek [] q = Some (q, [], [])"
| "fifo_run push pull peek (Push env xs # ops) q = do {
     (q', r) \<leftarrow> push env q xs;
     (q'', out, acc) \<leftarrow> fifo_run push pull peek ops q';
     Some (q'', out, (if r = ok then xs else []) @ acc) }"
| "fifo_run push pull peek (Pull n # ops) q = do {
     seen \<leftarrow> peek q;
     q' \<leftarrow> pull q n;
     (q'', out, acc) \<leftarrow> fifo_run push pull peek ops q';
     Some (q'', take (unat n) seen @ out, acc) }"

primrec op_bytes :: "fifo_op \<Rightarrow> nat" where
  "op_bytes (Push env xs) = length xs"
| "op_bytes (Pull n) = 0"

text \<open>
  Queues are used below half of the address space, like every C object; the bound keeps the size
  arithmetic of the implementations away from \<open>2^63\<close>, where \<^verbatim>\<open>SHL_ALIGN_POWER2\<close> is undefined.
\<close>

abbreviation fifo_limit :: nat where "fifo_limit \<equiv> 2 ^ 62"

locale byte_fifo =
  fixes invar :: "'q \<Rightarrow> bool"
    and data :: "'q \<Rightarrow> u8 list"
    and push :: "alloc_env \<Rightarrow> 'q \<Rightarrow> u8 list \<Rightarrow> ('q \<times> unit res) option"
    and pull :: "'q \<Rightarrow> size_t \<Rightarrow> 'q option"
    and peek :: "'q \<Rightarrow> u8 list option"
  assumes push_defined:
      "invar q \<Longrightarrow> length (data q) + length xs < fifo_limit \<Longrightarrow>
       \<exists>q' r. push env q xs = Some (q', r) \<and> invar q' \<and>
         (r = ok \<and> data q' = data q @ xs \<or> r = Inl ENOMEM \<and> data q' = data q)"
    and pull_defined:
      "invar q \<Longrightarrow> \<exists>q'. pull q n = Some q' \<and> invar q' \<and> data q' = drop (unat n) (data q)"
    and peek_defined: "invar q \<Longrightarrow> peek q = Some (data q)"
begin

lemma pull_push_empty:
  assumes "invar q" "data q = []" "length xs < fifo_limit" "push env q xs = Some (q', ok)"
  shows "\<exists>q''. pull q' (of_nat (length xs)) = Some q'' \<and> data q'' = []"
proof -
  from assms(4) push_defined [of q xs env] assms(1-3)
  have q': "invar q'" "data q' = xs" by auto
  have "unat (of_nat (length xs) :: size_t) = length xs"
    using assms(3) by (simp add: unat_of_nat)
  with pull_defined [OF q'(1), of "of_nat (length xs)"] q'(2) show ?thesis by auto
qed

theorem run_fifo:
  assumes "invar q" "length (data q) + sum_list (map op_bytes ops) < fifo_limit"
  shows "\<exists>q' out acc. fifo_run push pull peek ops q = Some (q', out, acc) \<and> invar q' \<and>
           data q @ acc = out @ data q'"
  using assms
proof (induction ops arbitrary: q)
  case (Cons op ops)
  show ?case
  proof (cases op)
    case (Push env xs)
    have "length (data q) + length xs < fifo_limit"
      using Cons.prems(2) Push by simp
    from push_defined [OF Cons.prems(1) this, of env]
    obtain q1 r where q1: "push env q xs = Some (q1, r)" "invar q1"
      "data q1 = data q @ (if r = ok then xs else [])" by fastforce
    moreover from q1(3) have "length (data q1) + sum_list (map op_bytes ops) < fifo_limit"
      using Cons.prems(2) Push by (auto split: if_splits)
    ultimately show ?thesis
      using Cons.IH [of q1] Push by fastforce
  next
    case (Pull n)
    from pull_defined [OF Cons.prems(1), of n]
    obtain q1 where q1: "pull q n = Some q1" "invar q1" "data q1 = drop (unat n) (data q)"
      by blast
    moreover have "length (data q1) + sum_list (map op_bytes ops) < fifo_limit"
      using Cons.prems(2) q1(3) Pull by simp
    ultimately obtain q2 out acc where q2: "fifo_run push pull peek ops q1 = Some (q2, out, acc)"
      "invar q2" "data q1 @ acc = out @ data q2"
      using Cons.IH [of q1] by blast
    have "data q @ acc = take (unat n) (data q) @ data q1 @ acc"
      by (simp only: q1(3) append_take_drop_id append_assoc [symmetric])
    then show ?thesis
      using q1(1) q2 Cons.prems(1) Pull by (simp add: peek_defined)
  qed
qed simp

end

end
