(* ===== verification/Shl_Ring.thy ===== *)
theory Shl_Ring
  imports Shl_Macro Shl_Fifo
begin

text \<open>
  The ring buffer of \<^verbatim>\<open>src/shl_ring.c\<close> and \<^verbatim>\<open>src/shl_ring.h\<close>. The record has the fields of
  \<^verbatim>\<open>struct shl_ring\<close>; a null \<^verbatim>\<open>buf\<close> is \<^const>\<open>None\<close>. Every access to the buffer is bounds-checked,
  so an operation that returns \<open>Some\<close> stayed inside its blocks. The invariant \<open>ring_inv\<close> and the
  abstraction \<open>ring_data\<close> (the queued bytes, oldest first) make the ring an instance of
  \<open>byte_fifo\<close>.
\<close>

record shl_ring =
  r_buf :: "block option"
  r_size :: size_t
  r_start :: size_t
  r_used :: size_t

record iovec =
  iov_base :: nat
  iov_len :: size_t

definition ring_zero :: shl_ring where
  "ring_zero = \<lparr>r_buf = None, r_size = 0, r_start = 0, r_used = 0\<rparr>"

definition RING_MASK :: "shl_ring \<Rightarrow> size_t \<Rightarrow> size_t" where
  "RING_MASK r v = v AND (r_size r - 1)"

definition shl_ring_flush :: "shl_ring \<Rightarrow> shl_ring" where
  "shl_ring_flush r = r\<lparr>r_start := 0, r_used := 0\<rparr>"

definition shl_ring_clear :: "shl_ring \<Rightarrow> shl_ring" where
  "shl_ring_clear r = ring_zero"

text \<open>
  \<^verbatim>\<open>iov_base\<close> is the offset into \<^verbatim>\<open>r->buf\<close>; the result is the return value and the filled
  vectors (none when \<^verbatim>\<open>vec\<close> is null).
\<close>

definition shl_ring_peek :: "shl_ring \<Rightarrow> bool \<Rightarrow> nat \<times> iovec list" where
  "shl_ring_peek r vec =
     (if r_used r = 0 then (0, [])
      else if r_start r + r_used r \<le> r_size r then
        (1, if vec then [\<lparr>iov_base = unat (r_start r), iov_len = r_used r\<rparr>] else [])
      else
        (2, if vec then [\<lparr>iov_base = unat (r_start r), iov_len = r_size r - r_start r\<rparr>,
                         \<lparr>iov_base = 0, iov_len = r_used r - (r_size r - r_start r)\<rparr>] else []))"

definition shl_ring_copy :: "shl_ring \<Rightarrow> block \<Rightarrow> size_t \<Rightarrow> (block \<times> size_t) option" where
  "shl_ring_copy r buf sz =
     (let sz = (if sz > r_used r then r_used r else sz) in
      if sz > 0 then
        let l = r_size r - r_start r in
        if sz \<le> l then do {
          buf \<leftarrow> memcpy_at buf 0 (blk (r_buf r)) (unat (r_start r)) (unat sz);
          Some (buf, sz) }
        else do {
          buf \<leftarrow> memcpy_at buf 0 (blk (r_buf r)) (unat (r_start r)) (unat l);
          buf \<leftarrow> memcpy_at buf (unat l) (blk (r_buf r)) 0 (unat (sz - l));
          Some (buf, sz) }
      else Some (buf, sz))"

definition ring_resize :: "alloc_env \<Rightarrow> shl_ring \<Rightarrow> size_t \<Rightarrow> (shl_ring \<times> unit res) option" where
  "ring_resize env r nsize =
     (case malloc_blk env nsize of
        None \<Rightarrow> Some (r, Inl ENOMEM)
      | Some buf \<Rightarrow> do {
          buf \<leftarrow> (if r_used r > 0 then
                   let l = r_size r - r_start r in
                   if r_used r \<le> l then
                     memcpy_at buf 0 (blk (r_buf r)) (unat (r_start r)) (unat (r_used r))
                   else do {
                     buf \<leftarrow> memcpy_at buf 0 (blk (r_buf r)) (unat (r_start r)) (unat l);
                     memcpy_at buf (unat l) (blk (r_buf r)) 0 (unat (r_used r - l)) }
                 else Some buf);
          Some (r\<lparr>r_buf := Some buf, r_size := nsize, r_start := 0\<rparr>, ok) })"

definition ring_grow :: "alloc_env \<Rightarrow> shl_ring \<Rightarrow> size_t \<Rightarrow> (shl_ring \<times> unit res) option" where
  "ring_grow env r add =
     (if r_size r - r_used r \<ge> add then Some (r, ok)
      else
        let need = r_used r + add in
        if need \<le> r_used r then Some (r, Inl ENOMEM)
        else
          let need = (if need < 4096 then 4096 else need) in do {
            need \<leftarrow> SHL_ALIGN_POWER2 need;
            if need = 0 then Some (r, Inl ENOMEM) else ring_resize env r need })"

definition shl_ring_push ::
  "alloc_env \<Rightarrow> shl_ring \<Rightarrow> block \<Rightarrow> size_t \<Rightarrow> (shl_ring \<times> unit res) option" where
  "shl_ring_push env r u8 sz =
     (if sz = 0 then Some (r, ok)
      else do {
        (r, err) \<leftarrow> ring_grow env r sz;
        case err of
          Inl e \<Rightarrow> Some (r, Inl e)
        | Inr _ \<Rightarrow>
            let pos = RING_MASK r (r_start r + r_used r); l = r_size r - pos in do {
              buf \<leftarrow> (if l \<ge> sz then memcpy_at (blk (r_buf r)) (unat pos) u8 0 (unat sz)
                     else do {
                       buf \<leftarrow> memcpy_at (blk (r_buf r)) (unat pos) u8 0 (unat l);
                       memcpy_at buf 0 u8 (unat l) (unat (sz - l)) });
              Some (r\<lparr>r_buf := Some buf, r_used := r_used r + sz\<rparr>, ok) } })"

definition shl_ring_pull :: "shl_ring \<Rightarrow> size_t \<Rightarrow> shl_ring" where
  "shl_ring_pull r sz =
     (let sz = (if sz > r_used r then r_used r else sz) in
      r\<lparr>r_start := RING_MASK r (r_start r + sz), r_used := r_used r - sz\<rparr>)"

definition shl_ring_get_size :: "shl_ring \<Rightarrow> size_t" where
  "shl_ring_get_size r = r_used r"

subsection \<open>Invariant and abstraction\<close>

definition ring_inv :: "shl_ring \<Rightarrow> bool" where
  "ring_inv r \<longleftrightarrow>
     length (blk (r_buf r)) = unat (r_size r) \<and> r_used r \<le> r_size r \<and>
     (r_size r = 0 \<and> r_start r = 0 \<or>
      (\<exists>k \<in> {12..63}. r_size r = 2 ^ k) \<and> r_start r < r_size r)"

definition ring_data :: "shl_ring \<Rightarrow> u8 list" where
  "ring_data r = window (blk (r_buf r)) (unat (r_start r)) (unat (r_used r))"

lemma ring_inv_nat:
  assumes "ring_inv r"
  shows "length (blk (r_buf r)) = unat (r_size r)" "unat (r_used r) \<le> unat (r_size r)"
    "unat (r_start r) \<le> unat (r_size r)" "unat (r_size r) \<le> 2 ^ 63"
    "unat (r_start r) = unat (r_size r) \<Longrightarrow> r_size r = 0"
    "unat (r_start r + r_used r) = unat (r_start r) + unat (r_used r)"
proof -
  from assms show A: "length (blk (r_buf r)) = unat (r_size r)"
    "unat (r_used r) \<le> unat (r_size r)" "unat (r_start r) \<le> unat (r_size r)"
    "unat (r_start r) = unat (r_size r) \<Longrightarrow> r_size r = 0"
    by (auto simp: ring_inv_def word_le_nat_alt word_less_nat_alt)
  from assms consider "r_size r = 0" | k where "k \<in> {12..63}" "r_size r = 2 ^ k"
    by (auto simp: ring_inv_def)
  then show B: "unat (r_size r) \<le> 2 ^ 63"
  proof cases
    case (2 k)
    then have "(2::nat) ^ k \<le> 2 ^ 63" by (intro power_increasing) auto
    with 2 show ?thesis by (simp add: unat_exp)
  qed simp
  have "unat (r_start r) + unat (r_used r) < 2 ^ 64"
    using A B by (cases "r_size r = 0") (auto simp: order_le_less)
  then show "unat (r_start r + r_used r) = unat (r_start r) + unat (r_used r)"
    by (simp add: unat_add_nowrap)
qed

lemma length_ring_data [simp]: "ring_inv r \<Longrightarrow> length (ring_data r) = unat (r_used r)"
  using ring_inv_nat [of r] by (simp add: ring_data_def)

lemma unat_RING_MASK:
  assumes "ring_inv r" "0 < unat (r_size r)"
  shows "unat (RING_MASK r v) = unat v mod unat (r_size r)"
proof -
  from assms obtain k where "k \<in> {12..63}" "r_size r = 2 ^ k"
    by (auto simp: ring_inv_def)
  then have "k < LENGTH(64)" "r_size r = 2 ^ k" by auto
  then show ?thesis
    by (simp only: RING_MASK_def unat_and_exp_minus_1 unat_exp)
qed

lemma ring_inv_zero [simp]: "ring_inv ring_zero" "ring_data ring_zero = []"
  by (simp_all add: ring_inv_def ring_data_def ring_zero_def)

lemma ring_flush_correct:
  "ring_inv r \<Longrightarrow> ring_inv (shl_ring_flush r) \<and> ring_data (shl_ring_flush r) = []"
  by (auto simp: shl_ring_flush_def ring_inv_def ring_data_def dest: order_le_less_trans [OF word_zero_le])

subsection \<open>Reading\<close>

text \<open>The bytes the vectors of \<open>shl_ring_peek\<close> denote.\<close>

definition iov_bytes :: "block \<Rightarrow> iovec list \<Rightarrow> u8 list option" where
  "iov_bytes b vs = those (map (\<lambda>v. mem_read b (iov_base v) (unat (iov_len v))) vs)
     \<bind> (\<lambda>xs. Some (concat xs))"

definition ring_peek_bytes :: "shl_ring \<Rightarrow> u8 list option" where
  "ring_peek_bytes r = iov_bytes (blk (r_buf r)) (snd (shl_ring_peek r True))"

lemma ring_split_len:
  assumes "ring_inv r" "\<not> r_start r + r_used r \<le> r_size r"
  shows "unat (r_size r - r_start r) = unat (r_size r) - unat (r_start r)"
    "unat (r_used r - (r_size r - r_start r))
      = unat (r_used r) - (unat (r_size r) - unat (r_start r))"
proof -
  show 1: "unat (r_size r - r_start r) = unat (r_size r) - unat (r_start r)"
    using ring_inv_nat [OF assms(1)] by (simp add: unat_sub_nowrap word_le_nat_alt)
  have "r_size r - r_start r \<le> r_used r"
    using assms(2) ring_inv_nat [OF assms(1)] by (simp add: word_le_nat_alt 1)
  then show "unat (r_used r - (r_size r - r_start r))
      = unat (r_used r) - (unat (r_size r) - unat (r_start r))"
    by (simp add: unat_sub_nowrap 1)
qed

lemma ring_peek_correct:
  assumes "ring_inv r"
  shows "ring_peek_bytes r = Some (ring_data r)"
    and "length (snd (shl_ring_peek r True)) = fst (shl_ring_peek r True)"
proof -
  note n = ring_inv_nat [OF assms]
  show "ring_peek_bytes r = Some (ring_data r)"
  proof (cases "r_start r + r_used r \<le> r_size r")
    case True
    then show ?thesis
      using n by (auto simp: ring_peek_bytes_def shl_ring_peek_def iov_bytes_def ring_data_def
          mem_read_def window_linear word_le_nat_alt)
  next
    case False
    then show ?thesis
      using n ring_split_len [OF assms False] window_wrapped [of "unat (r_start r)" "blk (r_buf r)"]
      by (auto simp: ring_peek_bytes_def shl_ring_peek_def iov_bytes_def ring_data_def
          mem_read_def word_le_nat_alt)
  qed
qed (simp add: shl_ring_peek_def)

lemma ring_copy_correct:
  assumes "ring_inv r" "min (unat sz) (unat (r_used r)) \<le> length dst"
  shows "shl_ring_copy r dst sz =
    Some (take (unat sz) (ring_data r) @ drop (min (unat sz) (unat (r_used r))) dst,
          min sz (r_used r))"
proof -
  note n = ring_inv_nat [OF assms(1)]
  let ?m = "min sz (r_used r)" and ?b = "blk (r_buf r)"
  note m = unat_min [of sz "r_used r"]
  have t: "take (unat sz) (ring_data r) = window ?b (unat (r_start r)) (unat ?m)"
    using n unfolding m by (auto simp: ring_data_def min_def take_window)
  have l: "unat (r_size r - r_start r) = length ?b - unat (r_start r)"
    using n by (simp add: unat_sub_nowrap word_le_nat_alt)
  have d: "unat (?m - (r_size r - r_start r)) = unat ?m - (length ?b - unat (r_start r))"
    if "\<not> unat ?m \<le> length ?b - unat (r_start r)"
    using that by (simp add: unat_sub_nowrap l word_le_nat_alt)
  have "shl_ring_copy r dst sz = (if 0 < ?m then
      (if unat ?m \<le> length ?b - unat (r_start r) then memcpy_at dst 0 ?b (unat (r_start r)) (unat ?m)
       else memcpy_at dst 0 ?b (unat (r_start r)) (length ?b - unat (r_start r)) \<bind>
              (\<lambda>buf. memcpy_at buf (length ?b - unat (r_start r)) ?b 0
                      (unat ?m - (length ?b - unat (r_start r)))))
        \<bind> (\<lambda>buf. Some (buf, ?m))
      else Some (dst, ?m))"
    using d unfolding shl_ring_copy_def if_greater_min Let_def word_le_nat_alt [of _ "_ - _"] l
    by (simp del: unat_min)
  also have "\<dots> = Some (window ?b (unat (r_start r)) (unat ?m) @ drop (unat ?m) dst, ?m)"
    using n assms(2) m by (subst copy_window) (auto simp: word_gt_0)
  finally show ?thesis
    by (simp only: t m)
qed

subsection \<open>Resizing\<close>

lemma ring_resize_correct:
  assumes "ring_inv r" "nsize = 2 ^ k" "k \<in> {12..63}" "r_used r \<le> nsize"
  shows "\<exists>r' res. ring_resize env r nsize = Some (r', res) \<and> ring_inv r' \<and>
           ring_data r' = ring_data r \<and> r_used r' = r_used r \<and>
           (res = ok \<and> r_size r' = nsize \<or> res = Inl ENOMEM \<and> r' = r)"
proof (cases "malloc_blk env nsize")
  case None
  with assms(1) show ?thesis by (simp add: ring_resize_def)
next
  case (Some buf)
  note n = ring_inv_nat [OF assms(1)]
  let ?b = "blk (r_buf r)" and ?s = "unat (r_start r)" and ?u = "unat (r_used r)"
  have buf: "?u \<le> length buf"
    using assms(4) length_malloc_blk [OF Some] by (simp add: word_le_nat_alt)
  have l: "unat (r_size r - r_start r) = length ?b - ?s"
    using n by (simp add: unat_sub_nowrap word_le_nat_alt)
  have d: "unat (r_used r - (r_size r - r_start r)) = ?u - (length ?b - ?s)"
    if "\<not> ?u \<le> length ?b - ?s"
    using that by (simp add: unat_sub_nowrap l word_le_nat_alt)
  let ?new = "r\<lparr>r_buf := Some (ring_data r @ drop ?u buf), r_size := nsize, r_start := 0\<rparr>"
  have "ring_resize env r nsize = Some (?new, ok)"
  proof (cases "r_used r > 0")
    case True
    have "ring_resize env r nsize =
      (if ?u \<le> length ?b - ?s then memcpy_at buf 0 ?b ?s ?u
       else memcpy_at buf 0 ?b ?s (length ?b - ?s) \<bind>
              (\<lambda>buf. memcpy_at buf (length ?b - ?s) ?b 0 (?u - (length ?b - ?s))))
      \<bind> (\<lambda>buf. Some (r\<lparr>r_buf := Some buf, r_size := nsize, r_start := 0\<rparr>, ok))"
      using d True unfolding ring_resize_def Let_def word_le_nat_alt [of _ "_ - _"] l
      by (simp add: Some)
    then show ?thesis
      using n buf by (subst (asm) copy_window) (auto simp: ring_data_def)
  next
    case False
    then show ?thesis
      by (simp add: ring_resize_def Some ring_data_def word_gt_0)
  qed
  moreover have "ring_inv ?new"
    using n buf length_malloc_blk [OF Some] assms length_ring_data [OF assms(1)]
    by (auto simp: ring_inv_def word_gt_0 word_le_nat_alt)
  moreover have "ring_data ?new = ring_data r"
    using n buf length_ring_data [OF assms(1)] by (simp add: ring_data_def [of ?new] window_def)
  ultimately show ?thesis by auto
qed

lemma ring_grow_correct:
  assumes "ring_inv r" "0 < sz" "unat (r_used r) + unat sz \<le> 2 ^ 63"
  shows "\<exists>r' res. ring_grow env r sz = Some (r', res) \<and> ring_inv r' \<and>
           ring_data r' = ring_data r \<and> r_used r' = r_used r \<and>
           (res = ok \<and> unat (r_used r) + unat sz \<le> unat (r_size r') \<or> res = Inl ENOMEM \<and> r' = r)"
proof (cases "r_size r - r_used r \<ge> sz")
  case True
  then have "unat (r_used r) + unat sz \<le> unat (r_size r)"
    using ring_inv_nat [OF assms(1)] by (simp add: word_le_nat_alt unat_sub_nowrap)
  with True assms(1) show ?thesis by (simp add: ring_grow_def)
next
  case False
  let ?n = "r_used r + sz" and ?m = "if r_used r + sz < 4096 then 4096 else r_used r + sz"
  have n: "unat ?n = unat (r_used r) + unat sz"
    using assms(3) by (simp add: unat_add_nowrap)
  have gt: "\<not> ?n \<le> r_used r"
    using assms(2) by (simp add: word_le_nat_alt n word_less_nat_alt)
  have m: "unat ?m = max 4096 (unat ?n)"
    by (simp add: max_def word_less_nat_alt)
  have "2 \<le> unat ?m" "unat ?m \<le> 2 ^ 63"
    using assms(3) n m by auto
  from align_power2_exp [OF this] obtain k where
    k: "k \<le> 63" "SHL_ALIGN_POWER2 ?m = Some (2 ^ k)" "unat ?m \<le> 2 ^ k" by blast
  have "(2::nat) ^ 12 \<le> 2 ^ k"
    using k(3) m by simp
  then have k': "k \<in> {12..63}"
    using k(1) power_le_imp_le_exp [of 2 12 k] by simp
  have nz: "(2::size_t) ^ k \<noteq> 0" and u: "unat ((2::size_t) ^ k) = 2 ^ k"
    using k(1) by (auto simp: unat_exp)
  then have "r_used r \<le> 2 ^ k"
    using k(3) m n by (simp add: word_le_nat_alt)
  from ring_resize_correct [OF assms(1) refl k' this, of env]
  show ?thesis
    using False gt k(2,3) nz u m n by (auto simp: ring_grow_def Let_def)
qed

subsection \<open>Pushing and pulling\<close>

lemma ring_push_correct:
  assumes "ring_inv r" "unat sz \<le> length src" "unat (r_used r) + unat sz \<le> 2 ^ 63"
  shows "\<exists>r' res. shl_ring_push env r src sz = Some (r', res) \<and> ring_inv r' \<and>
           (res = ok \<and> ring_data r' = ring_data r @ take (unat sz) src \<or>
            res = Inl ENOMEM \<and> r' = r)"
proof (cases "sz = 0")
  case True
  with assms(1) show ?thesis by (simp add: shl_ring_push_def)
next
  case False
  then have sz: "0 < sz" "0 < unat sz" by (simp_all add: word_gt_0 unat_gt_0)
  from ring_grow_correct [OF assms(1) sz(1) assms(3), of env] obtain r1 res where
    g: "ring_grow env r sz = Some (r1, res)" "ring_inv r1" "ring_data r1 = ring_data r"
      "r_used r1 = r_used r"
    and "res = ok \<and> unat (r_used r) + unat sz \<le> unat (r_size r1) \<or> res = Inl ENOMEM \<and> r1 = r"
    by blast
  then consider "res = Inl ENOMEM" "r1 = r"
    | "res = ok" "unat (r_used r) + unat sz \<le> unat (r_size r1)" by blast
  then show ?thesis
  proof cases
    case 1
    with g False show ?thesis by (simp add: shl_ring_push_def)
  next
    case 2
    note n = ring_inv_nat [OF g(2)]
    let ?b = "blk (r_buf r1)" and ?s = "unat (r_start r1)" and ?u = "unat (r_used r)"
    let ?pos = "RING_MASK r1 (r_start r1 + r_used r1)"
    have pos: "unat ?pos = (?s + ?u) mod length ?b"
      using unat_RING_MASK [OF g(2)] n g(4) 2 sz by simp
    then have "unat ?pos < length ?b"
      using n 2 sz by simp
    then have l: "unat (r_size r1 - ?pos) = length ?b - unat ?pos"
      using n by (simp add: unat_sub_nowrap word_le_nat_alt)
    have d: "unat (sz - (r_size r1 - ?pos)) = unat sz - (length ?b - unat ?pos)"
      if "\<not> unat sz \<le> length ?b - unat ?pos"
      using that by (simp add: unat_sub_nowrap l word_le_nat_alt)
    have "?s < length ?b" "?u + unat sz \<le> length ?b"
      using n g(4) 2 sz by (auto simp: order_le_less)
    from write_window [OF this sz(2) assms(2) pos] obtain b' where
      b': "(if unat sz \<le> length ?b - unat ?pos then memcpy_at ?b (unat ?pos) src 0 (unat sz)
        else memcpy_at ?b (unat ?pos) src 0 (length ?b - unat ?pos) \<bind>
             (\<lambda>buf. memcpy_at buf 0 src (length ?b - unat ?pos) (unat sz - (length ?b - unat ?pos))))
        = Some b'"
      and len: "length b' = length ?b"
      and w: "window b' ?s (?u + unat sz) = window ?b ?s ?u @ take (unat sz) src" .
    let ?new = "r1\<lparr>r_buf := Some b', r_used := r_used r1 + sz\<rparr>"
    have "shl_ring_push env r src sz = Some (?new, ok)"
      using False g(1) 2(1) b' by (cases "unat sz \<le> length ?b - unat ?pos")
        (simp_all add: shl_ring_push_def Let_def word_le_nat_alt [of _ "_ - _"] l d
          bind_assoc [symmetric])
    moreover have used: "unat (r_used r1 + sz) = ?u + unat sz"
      using assms(3) g(4) by (simp add: unat_add_nowrap)
    moreover have "ring_inv ?new"
      using g(2) len used 2(2) by (simp add: ring_inv_def word_le_nat_alt)
    moreover have "ring_data ?new = ring_data r @ take (unat sz) src"
      using w used g(3,4) by (simp add: ring_data_def)
    ultimately show ?thesis by blast
  qed
qed

lemma ring_pull_correct:
  assumes "ring_inv r"
  shows "ring_inv (shl_ring_pull r sz) \<and> ring_data (shl_ring_pull r sz) = drop (unat sz) (ring_data r)"
proof (cases "r_size r = 0")
  case True
  with assms show ?thesis
    by (auto simp: ring_inv_def shl_ring_pull_def ring_data_def RING_MASK_def Let_def word_gt_0)
next
  case False
  note n = ring_inv_nat [OF assms]
  let ?m = "min sz (r_used r)" and ?b = "blk (r_buf r)"
  have e: "shl_ring_pull r sz = r\<lparr>r_start := RING_MASK r (r_start r + ?m), r_used := r_used r - ?m\<rparr>"
    unfolding shl_ring_pull_def if_greater_min Let_def ..
  have z: "0 < unat (r_size r)" using False by (simp add: unat_gt_0)
  have "unat (r_start r) + unat ?m < 2 ^ LENGTH(64)"
    using n(2,3,4,6) unat_bound [of "r_start r + r_used r"] by (simp add: unat_min)
  then have "unat (r_start r + ?m) = unat (r_start r) + unat ?m"
    by (rule unat_add_nowrap)
  then have s: "unat (RING_MASK r (r_start r + ?m)) = (unat (r_start r) + unat ?m) mod length ?b"
    using unat_RING_MASK [OF assms z] n by simp
  have u: "unat (r_used r - ?m) = unat (r_used r) - unat ?m"
    by (rule unat_sub_nowrap) simp
  have lt: "unat (r_start r) < length ?b"
    using n False by (auto simp: order_le_less)
  have "drop (unat sz) (ring_data r) = drop (unat ?m) (ring_data r)"
    using length_ring_data [OF assms] unfolding unat_min by (simp add: min_def)
  also have "\<dots> = window ?b ((unat (r_start r) + unat ?m) mod length ?b) (unat (r_used r) - unat ?m)"
    unfolding ring_data_def using n lt by (subst window_drop) (auto simp: unat_min)
  finally have "ring_data (shl_ring_pull r sz) = drop (unat sz) (ring_data r)"
    by (simp add: e ring_data_def [of "_\<lparr>r_used := _\<rparr>"] s u)
  moreover have "ring_inv (shl_ring_pull r sz)"
    using assms False z s u n by (auto simp: e ring_inv_def word_less_nat_alt word_le_nat_alt)
  ultimately show ?thesis by blast
qed

subsection \<open>The ring is a byte queue\<close>

definition ring_fifo_push :: "alloc_env \<Rightarrow> shl_ring \<Rightarrow> u8 list \<Rightarrow> (shl_ring \<times> unit res) option" where
  "ring_fifo_push env r xs = shl_ring_push env r xs (of_nat (length xs))"

definition ring_fifo_pull :: "shl_ring \<Rightarrow> size_t \<Rightarrow> shl_ring option" where
  "ring_fifo_pull r n = Some (shl_ring_pull r n)"

interpretation ring_fifo: byte_fifo ring_inv ring_data ring_fifo_push ring_fifo_pull ring_peek_bytes
proof
  fix q :: shl_ring and xs :: "u8 list" and env
  assume inv: "ring_inv q" and lim: "length (ring_data q) + length xs < fifo_limit"
  then have "unat (of_nat (length xs) :: size_t) = length xs"
    by (simp add: unat_of_nat)
  with inv lim ring_push_correct [of q "of_nat (length xs)" xs env]
  show "\<exists>q' r. ring_fifo_push env q xs = Some (q', r) \<and> ring_inv q' \<and>
      (r = ok \<and> ring_data q' = ring_data q @ xs \<or> r = Inl ENOMEM \<and> ring_data q' = ring_data q)"
    by (auto simp: ring_fifo_push_def)
qed (auto simp: ring_fifo_pull_def ring_pull_correct ring_peek_correct(1))

subsection \<open>Properties\<close>

definition demo_env :: alloc_env where
  "demo_env = \<lparr>alloc_fails = (\<lambda>_. False), junk = (\<lambda>_. 0)\<rparr>"

text \<open>
  C1. Any sequence of pushes and pulls on a fresh ring, with any allocator behaviour and fewer than
  \<open>2^62\<close> bytes in all, runs without undefined behaviour, keeps the invariant, and is first-in
  first-out: the bytes of the successful pushes are the bytes read before each pull followed by
  the bytes still queued.
\<close>

theorem ring_is_fifo:
  assumes "sum_list (map op_bytes ops) < fifo_limit"
  shows "\<exists>r out acc. fifo_run ring_fifo_push ring_fifo_pull ring_peek_bytes ops ring_zero
           = Some (r, out, acc) \<and> ring_inv r \<and> acc = out @ ring_data r"
  using ring_fifo.run_fifo [of ring_zero ops] assms by auto

theorem ring_is_fifo_witness:
  "\<exists>r out acc. fifo_run ring_fifo_push ring_fifo_pull ring_peek_bytes
     [Push demo_env [1, 2, 3], Pull 2, Push demo_env [4]] ring_zero
     = Some (r, out, acc) \<and> ring_inv r \<and> acc = out @ ring_data r"
  using ring_is_fifo [of "[Push demo_env [1, 2, 3], Pull 2, Push demo_env [4]]"] by simp

text \<open>
  C2. A push of \<open>sz\<close> readable bytes onto a well-formed ring, with the queued bytes staying within
  \<open>2^63\<close>, never accesses memory outside the ring or the source: it either appends exactly the
  first \<open>sz\<close> source bytes, or reports \<open>ENOMEM\<close> and leaves the ring as it was.
\<close>

theorem ring_push_appends:
  assumes "ring_inv r" "unat sz \<le> length src" "unat (r_used r) + unat sz \<le> 2 ^ 63"
  shows "\<exists>r' res. shl_ring_push env r src sz = Some (r', res) \<and> ring_inv r' \<and>
           (res = ok \<and> ring_data r' = ring_data r @ take (unat sz) src \<or>
            res = Inl ENOMEM \<and> r' = r)"
  using assms by (rule ring_push_correct)

theorem ring_push_appends_witness:
  "\<exists>r' res. shl_ring_push demo_env ring_zero [7, 8, 9] 2 = Some (r', res) \<and> ring_inv r' \<and>
     (res = ok \<and> ring_data r' = ring_data ring_zero @ take (unat (2::size_t)) [7, 8, 9] \<or>
      res = Inl ENOMEM \<and> r' = ring_zero)"
  by (rule ring_push_appends) (simp, simp, simp add: ring_zero_def)

text \<open>
  Pulling removes exactly the first \<open>min sz used\<close> bytes (asking for more than is queued is
  safe), and copying hands out the same bytes in order, stays inside the destination, and returns
  their number.
\<close>

theorem ring_pull_and_copy:
  assumes "ring_inv r" "min (unat sz) (unat (r_used r)) \<le> length dst"
  shows "ring_inv (shl_ring_pull r sz) \<and>
    ring_data (shl_ring_pull r sz) = drop (unat sz) (ring_data r) \<and>
    shl_ring_copy r dst sz =
      Some (take (unat sz) (ring_data r) @ drop (min (unat sz) (unat (r_used r))) dst,
            min sz (r_used r))"
  using ring_pull_correct [OF assms(1), of sz] ring_copy_correct [OF assms] by blast

definition demo_ring :: shl_ring where
  "demo_ring = \<lparr>r_buf = Some (5 # replicate 4094 0 @ [4]), r_size = 4096, r_start = 4095, r_used = 2\<rparr>"

lemma demo_ring_inv: "ring_inv demo_ring"
  unfolding ring_inv_def demo_ring_def by (auto intro!: bexI [of _ 12])

theorem ring_pull_and_copy_witness:
  "ring_inv (shl_ring_pull demo_ring 1) \<and>
   ring_data (shl_ring_pull demo_ring 1) = drop (unat (1::size_t)) (ring_data demo_ring) \<and>
   shl_ring_copy demo_ring [0, 0, 0] 1 =
     Some (take (unat (1::size_t)) (ring_data demo_ring) @
           drop (min (unat (1::size_t)) (unat (r_used demo_ring))) [0, 0, 0],
           min 1 (r_used demo_ring))"
  by (rule ring_pull_and_copy [OF demo_ring_inv]) (simp add: demo_ring_def)

subsection \<open>Reachable rings\<close>

text \<open>
  The states a client can bring a ring into with the operations of the header, starting from zeroed
  memory; a push of more than the address space can hold is left out.
\<close>

inductive ring_reach :: "shl_ring \<Rightarrow> bool" where
  reach_zero: "ring_reach ring_zero"
| reach_push: "ring_reach r \<Longrightarrow> unat sz \<le> length src \<Longrightarrow> unat (r_used r) + unat sz \<le> 2 ^ 63 \<Longrightarrow>
    shl_ring_push env r src sz = Some (r', res) \<Longrightarrow> ring_reach r'"
| reach_pull: "ring_reach r \<Longrightarrow> ring_reach (shl_ring_pull r sz)"
| reach_flush: "ring_reach r \<Longrightarrow> ring_reach (shl_ring_flush r)"
| reach_clear: "ring_reach r \<Longrightarrow> ring_reach (shl_ring_clear r)"

lemma ring_reach_inv: "ring_reach r \<Longrightarrow> ring_inv r"
proof (induction rule: ring_reach.induct)
  case (reach_push r sz src env r' res)
  from ring_push_correct [OF reach_push.IH reach_push.hyps(2,3), of env] reach_push.hyps(4) show ?case by auto
next
  case (reach_flush r)
  then show ?case by (simp add: ring_flush_correct)
qed (simp_all add: ring_pull_correct shl_ring_clear_def)

text \<open>
  C3. The type of rings: in every state that clients can reach, the buffer has exactly the recorded size,
  the size is 0 or a power of two from 4096 on, the start lies inside the buffer and no more bytes are
  used than there are. So no operation can fail for reasons of the state: peeking stays inside the buffer
  and shows the queued bytes, copying hands out the oldest ones into the destination, the size is
  their number, and a push of readable bytes is defined.
\<close>

theorem ring_well_typed:
  assumes "ring_reach r"
  shows "length (blk (r_buf r)) = unat (r_size r) \<and>
    (r_size r = 0 \<and> r_start r = 0 \<and> r_used r = 0 \<or>
     (\<exists>k \<in> {12..63}. r_size r = 2 ^ k) \<and> r_start r < r_size r \<and> r_used r \<le> r_size r) \<and>
    ring_peek_bytes r = Some (ring_data r) \<and> unat (shl_ring_get_size r) = length (ring_data r) \<and>
    (\<forall>sz dst. min (unat sz) (unat (r_used r)) \<le> length dst \<longrightarrow>
       shl_ring_copy r dst sz =
         Some (take (unat sz) (ring_data r) @ drop (min (unat sz) (unat (r_used r))) dst, min sz (r_used r))) \<and>
    (\<forall>sz src. unat sz \<le> length src \<longrightarrow> unat (r_used r) + unat sz \<le> 2 ^ 63 \<longrightarrow> shl_ring_push env r src sz \<noteq> None)"
proof -
  have inv: "ring_inv r" by (rule ring_reach_inv [OF assms])
  then have "r_size r = 0 \<and> r_start r = 0 \<and> r_used r = 0 \<or>
     (\<exists>k \<in> {12..63}. r_size r = 2 ^ k) \<and> r_start r < r_size r \<and> r_used r \<le> r_size r"
    by (auto simp: ring_inv_def)
  moreover have "shl_ring_push env r src sz \<noteq> None" if "unat sz \<le> length src" "unat (r_used r) + unat sz \<le> 2 ^ 63" for sz src
    using ring_push_correct [OF inv that, of env] by auto
  ultimately show ?thesis
    using inv ring_inv_nat(1) [OF inv] ring_peek_correct [OF inv] ring_copy_correct [OF inv]
    by (auto simp: shl_ring_get_size_def)
qed

theorem ring_well_typed_witness:
  "\<exists>r res. shl_ring_push demo_env ring_zero [7, 8, 9] 3 = Some (r, res) \<and>
     length (blk (r_buf (shl_ring_pull r 1))) = unat (r_size (shl_ring_pull r 1)) \<and>
     ring_peek_bytes (shl_ring_pull r 1) = Some (ring_data (shl_ring_pull r 1))"
proof -
  have push: "unat (3::size_t) \<le> length [7, 8, 9 :: u8]" "unat (r_used ring_zero) + unat (3::size_t) \<le> 2 ^ 63"
    by (simp_all add: ring_zero_def)
  from ring_push_correct [OF ring_inv_zero(1) this, of demo_env] obtain r res where
    r: "shl_ring_push demo_env ring_zero [7, 8, 9] 3 = Some (r, res)" by blast
  have "ring_reach (shl_ring_pull r 1)"
    by (rule reach_pull [OF reach_push [OF reach_zero push r]])
  from ring_well_typed [OF this] r show ?thesis by blast
qed

end
