(* ===== verification/Shl_Alloc.thy ===== *)
theory Shl_Alloc
  imports Shl_Macro
begin

text \<open>
  The greedy allocation helpers of \<^verbatim>\<open>src/shl_util.c\<close>. The in/out parameters \<^verbatim>\<open>*mem\<close> and
  \<^verbatim>\<open>*size\<close> (\<^verbatim>\<open>*arr\<close>, \<^verbatim>\<open>*cnt\<close>) are passed and returned; the third component is the returned
  pointer, null (\<^const>\<open>None\<close>) on failure. The array variants take the element size \<^verbatim>\<open>ts\<close> and
  multiply it with the element count at 64 bits, as the code does.
\<close>

type_synonym grown = "block option \<times> size_t \<times> block option"

definition shl_greedy_realloc ::
  "alloc_env \<Rightarrow> block option \<Rightarrow> size_t \<Rightarrow> size_t \<Rightarrow> grown option" where
  "shl_greedy_realloc env mem sz need =
     (if sz \<ge> need then Some (mem, sz, mem)
      else do {
        nsize \<leftarrow> SHL_ALIGN_POWER2 (shl_max_t (\<lambda>x :: u32. ucast x) (\<lambda>x. x) 64 need);
        if nsize = 0 then Some (mem, sz, None)
        else case realloc_blk env mem nsize of
               None \<Rightarrow> Some (mem, sz, None)
             | Some p \<Rightarrow> Some (Some p, nsize, Some p) })"

definition shl_greedy_realloc0 ::
  "alloc_env \<Rightarrow> block option \<Rightarrow> size_t \<Rightarrow> size_t \<Rightarrow> grown option" where
  "shl_greedy_realloc0 env mem sz need =
     (let prev = sz in do {
        (mem, sz, p) \<leftarrow> shl_greedy_realloc env mem sz need;
        case p of
          None \<Rightarrow> Some (mem, sz, None)
        | Some p \<Rightarrow>
            if sz > prev then do {
              p \<leftarrow> shl_memzero p (unat prev) (unat (sz - prev));
              Some (Some p, sz, Some p) }
            else Some (mem, sz, Some p) })"

definition shl_greedy_realloc_t ::
  "alloc_env \<Rightarrow> block option \<Rightarrow> size_t \<Rightarrow> size_t \<Rightarrow> size_t \<Rightarrow> grown option" where
  "shl_greedy_realloc_t env arr cnt need ts =
     (if cnt \<ge> need then Some (arr, cnt, arr)
      else if ts = 0 then Some (arr, cnt, None)
      else do {
        ncnt \<leftarrow> SHL_ALIGN_POWER2 (shl_max_t (\<lambda>x :: u32. ucast x) (\<lambda>x. x) 64 need);
        if ncnt = 0 then Some (arr, cnt, None)
        else case realloc_blk env arr (ncnt * ts) of
               None \<Rightarrow> Some (arr, cnt, None)
             | Some p \<Rightarrow> Some (Some p, ncnt, Some p) })"

definition shl_greedy_realloc0_t ::
  "alloc_env \<Rightarrow> block option \<Rightarrow> size_t \<Rightarrow> size_t \<Rightarrow> size_t \<Rightarrow> grown option" where
  "shl_greedy_realloc0_t env arr cnt need ts =
     (let prev = cnt in do {
        (arr, cnt, p) \<leftarrow> shl_greedy_realloc_t env arr cnt need ts;
        case p of
          None \<Rightarrow> Some (arr, cnt, None)
        | Some p \<Rightarrow>
            if cnt > prev then do {
              p \<leftarrow> shl_memzero p (unat (prev * ts)) (unat ((cnt - prev) * ts));
              Some (Some p, cnt, Some p) }
            else Some (arr, cnt, Some p) })"

text \<open>The macros take the element size from the type of the array.\<close>

definition SHL_GREEDY_REALLOC_T ::
  "alloc_env \<Rightarrow> size_t \<Rightarrow> block option \<Rightarrow> size_t \<Rightarrow> size_t \<Rightarrow> grown option" where
  "SHL_GREEDY_REALLOC_T env sizeof_elem arr count need = shl_greedy_realloc_t env arr count need sizeof_elem"

definition SHL_GREEDY_REALLOC0_T ::
  "alloc_env \<Rightarrow> size_t \<Rightarrow> block option \<Rightarrow> size_t \<Rightarrow> size_t \<Rightarrow> grown option" where
  "SHL_GREEDY_REALLOC0_T env sizeof_elem arr count need = shl_greedy_realloc0_t env arr count need sizeof_elem"

subsection \<open>Growing a block\<close>

lemma align_max_64:
  assumes "unat need \<le> 2 ^ 63"
  obtains k where "k \<in> {6..63}" "SHL_ALIGN_POWER2 (max 64 need) = Some (2 ^ k)"
    "unat need \<le> 2 ^ k" "k = 6 \<or> 2 ^ k < 2 * unat need"
proof -
  have m: "unat (max 64 need) = max 64 (unat need)"
    by (simp add: max_def word_le_nat_alt)
  have "2 \<le> unat (max 64 need)" "unat (max 64 need) \<le> 2 ^ 63"
    unfolding m using assms by auto
  from align_power2_exp [OF this] obtain k where
    k: "1 \<le> k" "k \<le> 63" "SHL_ALIGN_POWER2 (max 64 need) = Some (2 ^ k)"
       "max 64 (unat need) \<le> 2 ^ k" "2 ^ (k - 1) < max 64 (unat need)"
    unfolding m .
  have "(2::nat) ^ 6 \<le> 2 ^ k" using k(4) by simp
  then have "6 \<le> k" by (rule power_le_imp_le_exp [rotated]) simp
  moreover have "k = 6 \<or> 2 ^ k < 2 * unat need"
  proof (cases "unat need \<le> 64")
    case True
    then have "(2::nat) ^ (k - 1) < 2 ^ 6" using k(5) by simp
    then have "k - 1 < 6" by (rule power_less_imp_less_exp [rotated]) simp
    with \<open>6 \<le> k\<close> have "k = 6" by linarith
    then show ?thesis ..
  next
    case False
    then have "2 * 2 ^ (k - 1) < 2 * unat need" using k(5) by simp
    then show ?thesis using k(1) by (simp flip: power_Suc)
  qed
  ultimately show ?thesis using k by (intro that [of k]) auto
qed

text \<open>The byte variants are the element-count variants for elements of one byte.\<close>

lemma greedy_realloc_t_one: "shl_greedy_realloc_t env mem sz need 1 = shl_greedy_realloc env mem sz need"
  by (simp only: shl_greedy_realloc_t_def shl_greedy_realloc_def mult_1_right one_neq_zero if_False)

lemma greedy_realloc0_t_one: "shl_greedy_realloc0_t env mem sz need 1 = shl_greedy_realloc0 env mem sz need"
  by (simp only: shl_greedy_realloc0_t_def shl_greedy_realloc0_def greedy_realloc_t_one mult_1_right)

text \<open>The product of the new element count and the element size fits 64 bits.\<close>

definition fits :: "size_t \<Rightarrow> size_t \<Rightarrow> bool" where
  "fits need ts \<longleftrightarrow> 0 < unat ts \<and> max 64 (2 * unat need - 1) * unat ts < 2 ^ 64"

lemma fits_one [simp]: "unat need \<le> 2 ^ 63 \<Longrightarrow> fits need 1"
  by (simp add: fits_def)

lemma fits_need: "fits need ts \<Longrightarrow> unat need \<le> 2 ^ 63"
proof -
  assume f: "fits need ts"
  then have "(2 * unat need - 1) * 1 \<le> max 64 (2 * unat need - 1) * unat ts"
    by (intro mult_le_mono) (auto simp: fits_def)
  with f have "2 * unat need - 1 < 2 ^ 64" by (simp add: fits_def)
  then show ?thesis by simp
qed

lemma greedy_realloc_t_cases:
  assumes "fits need ts"
  obtains (enough) "need \<le> cnt" "shl_greedy_realloc_t env arr cnt need ts = Some (arr, cnt, arr)"
  | (fail) "cnt < need" "shl_greedy_realloc_t env arr cnt need ts = Some (arr, cnt, None)" "\<exists>z. alloc_fails env z"
  | (grown) p k where "cnt < need" "k \<in> {6..63}" "unat need \<le> 2 ^ k" "2 ^ k \<le> max 64 (2 * unat need)"
      "unat (2 ^ k * ts) = 2 ^ k * unat ts"
      "realloc_blk env arr (2 ^ k * ts) = Some p"
      "shl_greedy_realloc_t env arr cnt need ts = Some (Some p, 2 ^ k, Some p)"
proof (cases "need \<le> cnt")
  case False
  from align_max_64 [OF fits_need [OF assms]] obtain k where
    k: "k \<in> {6..63}" "SHL_ALIGN_POWER2 (max 64 need) = Some (2 ^ k)" "unat need \<le> 2 ^ k"
      "k = 6 \<or> 2 ^ k < 2 * unat need" .
  then have nz: "(2::size_t) ^ k \<noteq> 0" "unat ((2::size_t) ^ k) = 2 ^ k" by (auto simp: unat_exp)
  have ts: "ts \<noteq> 0" using assms by (auto simp: fits_def)
  from k(4) have "2 ^ k * unat ts \<le> max 64 (2 * unat need - 1) * unat ts"
    by (intro mult_le_mono1) auto
  also have "\<dots> < 2 ^ LENGTH(64)" using assms by (simp add: fits_def)
  finally have sz: "unat (2 ^ k * ts) = 2 ^ k * unat ts"
    using unat_mult_nowrap [of "2 ^ k" ts] nz(2) by simp
  have "shl_greedy_realloc_t env arr cnt need ts =
      (case realloc_blk env arr (2 ^ k * ts) of None \<Rightarrow> Some (arr, cnt, None)
       | Some p \<Rightarrow> Some (Some p, 2 ^ k, Some p))"
    using False k(2) nz ts by (simp add: shl_greedy_realloc_t_def)
  moreover have "alloc_fails env (2 ^ k * ts)" if "realloc_blk env arr (2 ^ k * ts) = None"
    using that by (simp add: realloc_blk_def split: if_splits)
  moreover have "2 ^ k \<le> max 64 (2 * unat need)" using k(4) by auto
  ultimately show ?thesis
    using False k(1,3) sz fail grown [of k] by (cases "realloc_blk env arr (2 ^ k * ts)") (auto simp: not_le)
qed (auto simp: shl_greedy_realloc_t_def enough)

text \<open>What the new block is: as long as asked for, with the old contents in front.\<close>

lemma greedy_grown_block:
  assumes "realloc_blk env arr (2 ^ k * ts) = Some p" "length (blk arr) = unat (cnt :: size_t) * unat ts"
    "cnt < need" "unat need \<le> 2 ^ k" "k \<le> 63" "unat (2 ^ k * ts) = 2 ^ k * unat ts"
  shows "cnt < 2 ^ k" "length p = 2 ^ k * unat ts" "take (unat cnt * unat ts) p = blk arr"
proof -
  have k: "unat ((2::size_t) ^ k) = 2 ^ k" using assms(5) by (simp add: unat_exp)
  show "cnt < 2 ^ k" using assms(3,4) by (simp add: word_less_nat_alt k)
  then have "unat cnt * unat ts \<le> 2 ^ k * unat ts"
    by (intro mult_le_mono1) (simp add: word_less_nat_alt k)
  then show "length p = 2 ^ k * unat ts" "take (unat cnt * unat ts) p = blk arr"
    using length_realloc_blk [OF assms(1)] realloc_blk_prefix [OF assms(1), of "unat cnt * unat ts"] assms(2,6)
    by simp_all
qed

lemma greedy_realloc_t_result:
  assumes "length (blk arr) = unat cnt * unat ts" "fits need ts"
  shows "\<exists>arr' cnt' p. shl_greedy_realloc_t env arr cnt need ts = Some (arr', cnt', p) \<and>
           length (blk arr') = unat cnt' * unat ts \<and> cnt \<le> cnt' \<and> take (unat cnt * unat ts) (blk arr') = blk arr \<and>
           (need \<le> cnt' \<and> p = arr' \<or> cnt < need \<and> p = None \<and> arr' = arr \<and> cnt' = cnt)"
proof (cases rule: greedy_realloc_t_cases [OF assms(2), of cnt env arr, case_names enough fail grown])
  case (grown p k)
  from greedy_grown_block [OF grown(6) assms(1) grown(1,3) _ grown(5)] grown(2)
  have "cnt < 2 ^ k" "length p = 2 ^ k * unat ts" "take (unat cnt * unat ts) p = blk arr" by simp_all
  then show ?thesis
    using grown(2,3,7) by (simp add: word_le_nat_alt word_less_nat_alt unat_exp)
qed (use assms in auto)

lemma greedy_realloc0_t_result:
  assumes "length (blk arr) = unat cnt * unat ts" "fits need ts"
  shows "\<exists>arr' cnt' p. shl_greedy_realloc0_t env arr cnt need ts = Some (arr', cnt', p) \<and>
           length (blk arr') = unat cnt' * unat ts \<and> cnt \<le> cnt' \<and> unat cnt' \<le> max (unat cnt) (max 64 (2 * unat need)) \<and>
           (need \<le> cnt' \<and> p = arr' \<and> blk arr' = blk arr @ replicate ((unat cnt' - unat cnt) * unat ts) 0 \<or>
            cnt < need \<and> p = None \<and> arr' = arr \<and> cnt' = cnt \<and> (\<exists>z. alloc_fails env z))"
proof (cases rule: greedy_realloc_t_cases [OF assms(2), of cnt env arr, case_names enough fail grown])
  case enough
  then show ?thesis
    using assms by (cases arr) (auto simp: shl_greedy_realloc0_t_def)
next
  case fail
  then show ?thesis using assms by (auto simp: shl_greedy_realloc0_t_def)
next
  case (grown p k)
  have k: "unat ((2::size_t) ^ k) = 2 ^ k" using grown(2) by (simp add: unat_exp)
  from greedy_grown_block [OF grown(6) assms(1) grown(1,3) _ grown(5)] grown(2)
  have p: "cnt < 2 ^ k" "length p = 2 ^ k * unat ts" "take (unat cnt * unat ts) p = blk arr" by simp_all
  have c: "unat cnt \<le> 2 ^ k" using p(1) k by (simp add: word_less_nat_alt)
  then have le: "unat cnt * unat ts \<le> 2 ^ k * unat ts" by (rule mult_le_mono1)
  have big: "2 ^ k * unat ts < 2 ^ 64" using grown(5) unsigned_less [of "2 ^ k * ts", where ?'a = nat] by simp
  have d: "unat ((2 ^ k - cnt) * ts) = (2 ^ k - unat cnt) * unat ts"
  proof -
    have "unat (2 ^ k - cnt) = 2 ^ k - unat cnt"
      using p(1) k by (simp add: unat_sub_nowrap word_less_nat_alt word_le_nat_alt)
    moreover have "(2 ^ k - unat cnt) * unat ts < 2 ^ 64" using big by (simp add: diff_mult_distrib)
    ultimately show ?thesis by (simp add: unat_word_ariths)
  qed
  have "unat (cnt * ts) = unat cnt * unat ts" using le_less_trans [OF le big] by (intro unat_mult_nowrap) simp
  with p(2,3) le d have "shl_memzero p (unat (cnt * ts)) (unat ((2 ^ k - cnt) * ts))
      = Some (blk arr @ replicate ((2 ^ k - unat cnt) * unat ts) 0)"
    by (simp add: shl_memzero_def mem_write_def diff_mult_distrib)
  with grown p(1) k c assms(1) show ?thesis
    by (simp add: shl_greedy_realloc0_t_def word_le_nat_alt word_less_nat_alt add_mult_distrib [symmetric])
qed

lemma greedy_realloc_cases:
  assumes "unat need \<le> 2 ^ 63"
  obtains (enough) "need \<le> sz" "shl_greedy_realloc env mem sz need = Some (mem, sz, mem)"
  | (fail) "sz < need" "shl_greedy_realloc env mem sz need = Some (mem, sz, None)" "\<exists>z. alloc_fails env z"
  | (grown) p k where "sz < need" "k \<in> {6..63}" "unat need \<le> 2 ^ k" "2 ^ k \<le> max 64 (2 * unat need)"
      "realloc_blk env mem (2 ^ k) = Some p"
      "shl_greedy_realloc env mem sz need = Some (Some p, 2 ^ k, Some p)"
  by (rule greedy_realloc_t_cases [OF fits_one [OF assms], of sz env mem]) (use that in \<open>auto simp: greedy_realloc_t_one\<close>)

lemma greedy_realloc_correct:
  assumes "length (blk mem) = unat sz" and "unat need \<le> 2 ^ 63"
  shows "\<exists>mem' sz' p. shl_greedy_realloc env mem sz need = Some (mem', sz', p) \<and>
           length (blk mem') = unat sz' \<and> sz \<le> sz' \<and> take (unat sz) (blk mem') = blk mem \<and>
           (need \<le> sz' \<and> p = mem' \<or> sz < need \<and> p = None \<and> mem' = mem \<and> sz' = sz)"
  using greedy_realloc_t_result [of mem sz 1 need env] assms by (simp add: greedy_realloc_t_one [symmetric])

lemma greedy_realloc0_correct:
  assumes "length (blk mem) = unat sz" and "unat need \<le> 2 ^ 63"
  shows "\<exists>mem' sz' p. shl_greedy_realloc0 env mem sz need = Some (mem', sz', p) \<and>
           length (blk mem') = unat sz' \<and> sz \<le> sz' \<and>
           (need \<le> sz' \<and> p = mem' \<and> blk mem' = blk mem @ replicate (unat sz' - unat sz) 0 \<or>
            sz < need \<and> p = None \<and> mem' = mem \<and> sz' = sz)"
  using greedy_realloc0_t_result [of mem sz 1 need env] assms by (auto simp: greedy_realloc0_t_one [symmetric])

lemma greedy_realloc0_fails:
  assumes "length (blk mem) = unat sz" "unat need \<le> 2 ^ 63" "mem \<noteq> None"
    "shl_greedy_realloc0 env mem sz need = Some (mem', sz', None)"
  shows "\<exists>z. alloc_fails env z"
proof (cases "need \<le> sz")
  case True
  with assms(3,4) show ?thesis by (auto simp: shl_greedy_realloc0_def shl_greedy_realloc_def)
next
  case False
  have f: "fits need 1" "length (blk mem) = unat sz * unat (1 :: size_t)" using assms by simp_all
  show ?thesis
  proof (rule ccontr)
    assume "\<nexists>z. alloc_fails env z"
    with greedy_realloc0_t_result [OF f(2,1), of env] assms(4)
    have "need \<le> sz'" "mem' = None" "length (blk mem') = unat sz'" by (auto simp: greedy_realloc0_t_one [symmetric])
    then have "need = 0" by (simp add: unat_eq_zero)
    with False show False by simp
  qed
qed

text \<open>
  C5. Greedy growth of an array of elements of \<open>ts\<close> bytes, under the condition that the byte size
  \<open>max 64 (2 * need - 1) * ts\<close> fits 64 bits: the call is defined and either grows the array to at least
  the elements asked for, keeping the old bytes, zeroing every byte behind them and reporting the new
  count, or reports failure and changes nothing, which only happens when the allocator refuses. The
  count never shrinks and is at most the old count, 64 or twice the request, whichever is largest. An
  array that is large enough is left alone. Without the condition the code reports success for too
  small a block (\<open>greedy_realloc_t_overflow\<close>).
\<close>

theorem greedy_realloc0_t_grows:
  assumes "length (blk arr) = unat cnt * unat ts" "0 < unat ts" "max 64 (2 * unat need - 1) * unat ts < 2 ^ 64"
  shows "\<exists>arr' cnt' p. shl_greedy_realloc0_t env arr cnt need ts = Some (arr', cnt', p) \<and>
           length (blk arr') = unat cnt' * unat ts \<and> cnt \<le> cnt' \<and> unat cnt' \<le> max (unat cnt) (max 64 (2 * unat need)) \<and>
           (need \<le> cnt \<longrightarrow> arr' = arr \<and> cnt' = cnt) \<and>
           (need \<le> cnt' \<and> p = arr' \<and> blk arr' = blk arr @ replicate ((unat cnt' - unat cnt) * unat ts) 0 \<or>
            cnt < need \<and> p = None \<and> arr' = arr \<and> cnt' = cnt \<and> (\<exists>z. alloc_fails env z))"
proof -
  have "arr' = arr \<and> cnt' = cnt" if "need \<le> cnt" "shl_greedy_realloc0_t env arr cnt need ts = Some (arr', cnt', p)" for arr' cnt' p
    using that by (auto simp: shl_greedy_realloc0_t_def shl_greedy_realloc_t_def split: option.splits)
  moreover have "fits need ts" using assms by (simp add: fits_def)
  ultimately show ?thesis using greedy_realloc0_t_result [OF assms(1), of need env] by blast
qed

theorem greedy_realloc0_t_grows_witness:
  "\<exists>arr' cnt' p. shl_greedy_realloc0_t \<lparr>alloc_fails = (\<lambda>_. False), junk = (\<lambda>_. 7)\<rparr> (Some [1, 2]) 1 65 2 = Some (arr', cnt', p) \<and>
     65 \<le> cnt' \<and> unat cnt' \<le> 130 \<and> blk p = [1, 2] @ replicate ((unat cnt' - 1) * 2) 0"
  using greedy_realloc0_t_grows [of "Some [1, 2]" 1 2 65 "\<lparr>alloc_fails = (\<lambda>_. False), junk = (\<lambda>_. 7)\<rparr>"] by auto

text \<open>
  The element-count variant does not check the product: a request whose byte size exceeds 64 bits
  reports success for a block that is far too small.
\<close>

lemma greedy_realloc_t_overflow:
  assumes "\<not> alloc_fails env 0"
  shows "shl_greedy_realloc_t env None 0 (2 ^ 61) 8 = Some (Some [], 2 ^ 61, Some [])"
proof -
  have "max 64 ((2::size_t) ^ 61) = 2 ^ 61" by simp
  moreover have "SHL_ALIGN_POWER2 (2 ^ 61) = Some (2 ^ 61)"
    by code_simp
  moreover have z: "(18446744073709551616 :: size_t) = 0" by simp
  ultimately show ?thesis
    using assms by (simp add: shl_greedy_realloc_t_def realloc_blk_def) (simp only: z not_False_eq_True)
qed

end
