(* ===== verification/Shl_Buf.thy ===== *)
theory Shl_Buf
  imports Shl_Alloc Shl_Fifo
begin

text \<open>
  The dynamic buffer of \<^verbatim>\<open>src/shl_buf.h\<close>, on top of the greedy allocator. Its bytes are the first
  \<^verbatim>\<open>used\<close> bytes of its block; it is an instance of \<open>byte_fifo\<close> that can also drop bytes at its end.
\<close>

record shl_buf =
  b_buf :: "block option"
  b_size :: size_t
  b_used :: size_t

definition buf_zero :: shl_buf where
  "buf_zero = \<lparr>b_buf = None, b_size = 0, b_used = 0\<rparr>"

definition shl_buf_flush :: "shl_buf \<Rightarrow> shl_buf" where
  "shl_buf_flush b = b\<lparr>b_used := 0\<rparr>"

definition shl_buf_clear :: "shl_buf \<Rightarrow> shl_buf" where
  "shl_buf_clear b = buf_zero"

definition shl_buf_get_data :: "shl_buf \<Rightarrow> block option" where
  "shl_buf_get_data b = b_buf b"

definition shl_buf_get_size :: "shl_buf \<Rightarrow> size_t" where
  "shl_buf_get_size b = b_used b"

definition shl_buf_push :: "alloc_env \<Rightarrow> shl_buf \<Rightarrow> block \<Rightarrow> size_t \<Rightarrow> (shl_buf \<times> unit res) option" where
  "shl_buf_push env b d l =
     (if l = 0 then Some (b, ok)
      else let nlen = b_used b + l in
        if nlen \<le> b_used b then Some (b, Inl ENOMEM)
        else do {
          (mem, sz, p) \<leftarrow> shl_greedy_realloc env (b_buf b) (b_size b) nlen;
          let b = b\<lparr>b_buf := mem, b_size := sz\<rparr>;
          case p of
            None \<Rightarrow> Some (b, Inl ENOMEM)
          | Some _ \<Rightarrow> do {
              buf \<leftarrow> memcpy_at (blk (b_buf b)) (unat (b_used b)) d 0 (unat l);
              Some (b\<lparr>b_buf := Some buf, b_used := b_used b + l\<rparr>, ok) } })"

definition shl_buf_pop :: "shl_buf \<Rightarrow> size_t \<Rightarrow> shl_buf" where
  "shl_buf_pop b l = b\<lparr>b_used := b_used b - shl_min (b_used b) l\<rparr>"

text \<open>
  \<^verbatim>\<open>memmove\<close> takes no null pointer, not even for zero bytes: pulling from a buffer that never had
  memory is undefined.
\<close>

definition shl_buf_pull :: "shl_buf \<Rightarrow> size_t \<Rightarrow> shl_buf option" where
  "shl_buf_pull b l =
     (let l = shl_min (b_used b) l in do {
        mem \<leftarrow> b_buf b;
        buf \<leftarrow> memcpy_at mem 0 mem (unat l) (unat (b_used b - l));
        Some (b\<lparr>b_buf := Some buf, b_used := b_used b - l\<rparr>) })"

subsection \<open>Invariant and abstraction\<close>

definition buf_inv :: "shl_buf \<Rightarrow> bool" where
  "buf_inv b \<longleftrightarrow> length (blk (b_buf b)) = unat (b_size b) \<and> b_used b \<le> b_size b"

definition buf_data :: "shl_buf \<Rightarrow> u8 list" where
  "buf_data b = take (unat (b_used b)) (blk (b_buf b))"

text \<open>What a client reads: \<^verbatim>\<open>shl_buf_get_size\<close> bytes at \<^verbatim>\<open>shl_buf_get_data\<close>.\<close>

definition buf_peek :: "shl_buf \<Rightarrow> u8 list option" where
  "buf_peek b = mem_read (blk (shl_buf_get_data b)) 0 (unat (shl_buf_get_size b))"

lemma length_buf_data [simp]: "buf_inv b \<Longrightarrow> length (buf_data b) = unat (b_used b)"
  by (simp add: buf_inv_def buf_data_def word_le_nat_alt)

lemma buf_inv_zero [simp]: "buf_inv buf_zero" "buf_data buf_zero = []" "b_used buf_zero = 0"
  by (simp_all add: buf_inv_def buf_data_def buf_zero_def)

lemma buf_flush_correct: "buf_inv b \<Longrightarrow> buf_inv (shl_buf_flush b) \<and> buf_data (shl_buf_flush b) = []"
  by (simp add: buf_inv_def buf_data_def shl_buf_flush_def)

lemma buf_push_correct:
  assumes inv: "buf_inv b" and d: "unat l \<le> length d" and lim: "unat (b_used b) + unat l \<le> 2 ^ 63"
  shows "\<exists>b' res. shl_buf_push env b d l = Some (b', res) \<and> buf_inv b' \<and>
           (res = ok \<and> buf_data b' = buf_data b @ take (unat l) d \<and> (l \<noteq> 0 \<or> b_buf b \<noteq> None \<longrightarrow> b_buf b' \<noteq> None) \<or>
            res = Inl ENOMEM \<and> b' = b)"
proof (cases "l = 0")
  case True
  with inv show ?thesis by (simp add: shl_buf_push_def)
next
  case False
  have n: "unat (b_used b + l) = unat (b_used b) + unat l"
    using lim by (simp add: unat_add_nowrap)
  have gt: "\<not> b_used b + l \<le> b_used b"
    using False by (simp add: word_le_nat_alt n unat_0_iff)
  from inv have len: "length (blk (b_buf b)) = unat (b_size b)" and us: "unat (b_used b) \<le> unat (b_size b)"
    by (simp_all add: buf_inv_def word_le_nat_alt)
  from greedy_realloc_correct [OF len, of "b_used b + l" env] lim n obtain mem sz p where
    g: "shl_greedy_realloc env (b_buf b) (b_size b) (b_used b + l) = Some (mem, sz, p)"
       "length (blk mem) = unat sz" "take (unat (b_size b)) (blk mem) = blk (b_buf b)"
    and c: "b_used b + l \<le> sz \<and> p = mem \<or> b_size b < b_used b + l \<and> p = None \<and> mem = b_buf b \<and> sz = b_size b"
    by auto
  from c consider "p = None" "mem = b_buf b" "sz = b_size b" | "p = mem" "b_used b + l \<le> sz" by blast
  then show ?thesis
  proof cases
    case 1
    then show ?thesis using False gt g(1) inv by (simp add: shl_buf_push_def)
  next
    case 2
    then have le: "unat (b_used b) + unat l \<le> length (blk mem)"
      using n g(2) by (simp add: word_le_nat_alt)
    then obtain m where m: "mem = Some m"
      using False by (cases mem) (auto simp: unat_0_iff)
    have "take (unat (b_used b)) (take (unat (b_size b)) m) = take (unat (b_used b)) m"
      using us by (simp add: min_def)
    then have pre: "take (unat (b_used b)) m = buf_data b"
      using g(3) m by (simp add: buf_data_def del: take_take)
    then show ?thesis
      using False gt g(1,2) 2 le m n d us inv
      by (auto simp: shl_buf_push_def memcpy_at_Some buf_inv_def buf_data_def word_le_nat_alt)
  qed
qed

lemma buf_pop_correct:
  assumes "buf_inv b"
  shows "buf_inv (shl_buf_pop b l) \<and>
         buf_data (shl_buf_pop b l) = take (unat (b_used b) - unat l) (buf_data b)"
proof -
  have u: "unat (b_used b - min (b_used b) l) = unat (b_used b) - unat l"
    by (simp add: unat_sub_nowrap unat_min)
  with assms show ?thesis
    by (auto simp: shl_buf_pop_def buf_inv_def buf_data_def word_le_nat_alt min_def)
qed

lemma buf_pull_correct:
  assumes "buf_inv b" and mem: "b_buf b = Some mem"
  shows "\<exists>b'. shl_buf_pull b l = Some b' \<and> buf_inv b' \<and> b_buf b' \<noteq> None \<and> buf_data b' = drop (unat l) (buf_data b)"
proof -
  let ?l = "min (b_used b) l"
  have u: "unat (b_used b - ?l) = unat (b_used b) - unat ?l"
    by (simp add: unat_sub_nowrap)
  have l: "unat ?l = min (unat (b_used b)) (unat l)"
    by (rule unat_min)
  have le: "unat (b_used b) \<le> length mem" "length mem = unat (b_size b)"
    using assms by (simp_all add: buf_inv_def word_le_nat_alt)
  let ?new = "take (unat (b_used b) - unat ?l) (drop (unat ?l) mem) @ drop (unat (b_used b) - unat ?l) mem"
  have "memcpy_at mem 0 mem (unat ?l) (unat (b_used b) - unat ?l) = Some ?new"
    using le l by (subst memcpy_at_Some) auto
  then show ?thesis
    using le u l mem
    by (auto simp: shl_buf_pull_def Let_def buf_inv_def buf_data_def word_le_nat_alt drop_take min_def)
qed

text \<open>
  On a buffer that was never filled (or was cleared) \<^verbatim>\<open>shl_buf_pull\<close> hands \<^verbatim>\<open>memmove\<close> the null
  pointer, whatever length it is called with.
\<close>

lemma buf_pull_null_undefined: "shl_buf_pull buf_zero l = None" "shl_buf_pull (shl_buf_clear b) l = None"
  by (simp_all add: shl_buf_pull_def shl_buf_clear_def buf_zero_def)

subsection \<open>The buffer is a byte queue\<close>

text \<open>A buffer that has memory.\<close>

definition buf_alloc :: "shl_buf \<Rightarrow> bool" where
  "buf_alloc b \<longleftrightarrow> buf_inv b \<and> b_buf b \<noteq> None"

definition buf_fifo_push :: "alloc_env \<Rightarrow> shl_buf \<Rightarrow> u8 list \<Rightarrow> (shl_buf \<times> unit res) option" where
  "buf_fifo_push env b xs = shl_buf_push env b xs (of_nat (length xs))"

interpretation buf_fifo: byte_fifo buf_alloc buf_data buf_fifo_push shl_buf_pull buf_peek
proof
  fix q :: shl_buf and xs :: "u8 list" and env
  assume inv: "buf_alloc q" and lim: "length (buf_data q) + length xs < fifo_limit"
  then have "unat (of_nat (length xs) :: size_t) = length xs"
    by (simp add: unat_of_nat)
  with inv lim buf_push_correct [of q "of_nat (length xs)" xs env]
  show "\<exists>q' r. buf_fifo_push env q xs = Some (q', r) \<and> buf_alloc q' \<and>
      (r = ok \<and> buf_data q' = buf_data q @ xs \<or> r = Inl ENOMEM \<and> buf_data q' = buf_data q)"
    by (auto simp: buf_fifo_push_def buf_alloc_def)
next
  fix q :: shl_buf and n assume "buf_alloc q"
  then show "\<exists>q'. shl_buf_pull q n = Some q' \<and> buf_alloc q' \<and> buf_data q' = drop (unat n) (buf_data q)"
    using buf_pull_correct [of q _ n] by (auto simp: buf_alloc_def)
next
  fix q assume "buf_alloc q"
  then show "buf_peek q = Some (buf_data q)"
    by (simp add: buf_peek_def shl_buf_get_data_def shl_buf_get_size_def mem_read_def buf_data_def
        buf_alloc_def buf_inv_def word_le_nat_alt)
qed

text \<open>
  C4. Once a first push of at least one byte has succeeded on a fresh buffer, any sequence of pushes
  and pulls, with any allocator behaviour and less than the size limit of bytes in total, runs without
  undefined behaviour and is first-in first-out: the bytes of the successful pushes, the first one
  included, are the bytes read before each pull followed by the bytes still stored. The first push is
  needed: a pull on a buffer without memory is undefined (\<open>buf_pull_null_undefined\<close>).
\<close>

theorem buf_is_fifo:
  assumes first: "shl_buf_push env buf_zero d l = Some (b0, ok)" "l \<noteq> 0" "unat l \<le> length d"
    and lim: "unat l + sum_list (map op_bytes ops) < fifo_limit"
  shows "\<exists>b out acc. fifo_run buf_fifo_push shl_buf_pull buf_peek ops b0 = Some (b, out, acc) \<and>
    buf_inv b \<and> take (unat l) d @ acc = out @ buf_data b"
proof -
  have "buf_alloc b0 \<and> buf_data b0 = take (unat l) d"
    using buf_push_correct [OF buf_inv_zero(1) first(3), of env] first lim
    by (auto simp: buf_alloc_def)
  with buf_fifo.run_fifo [of b0 ops] lim first(3) show ?thesis
    by (auto simp: buf_alloc_def)
qed

theorem buf_is_fifo_witness:
  "\<exists>b out acc. fifo_run buf_fifo_push shl_buf_pull buf_peek
      [Pull 2, Push \<lparr>alloc_fails = (\<lambda>_. False), junk = (\<lambda>_. 9)\<rparr> [4, 5], Pull 9, Pull 1]
      \<lparr>b_buf = Some ([1, 2, 3] @ replicate 61 9), b_size = 64, b_used = 3\<rparr> = Some (b, out, acc) \<and>
    buf_inv b \<and> take (unat (3 :: size_t)) [1, 2, 3] @ acc = out @ buf_data b"
proof (rule buf_is_fifo)
  show "shl_buf_push \<lparr>alloc_fails = (\<lambda>_. False), junk = (\<lambda>_. 9)\<rparr> buf_zero [1, 2, 3] 3 =
      Some (\<lparr>b_buf = Some ([1, 2, 3] @ replicate 61 9), b_size = 64, b_used = 3\<rparr>, ok)"
    by code_simp
qed simp_all

end
