(* ===== verification/Shl_Trie.thy ===== *)
theory Shl_Trie
  imports Shl_Prelude
begin

text \<open>
  The crit-bit trie of \<^verbatim>\<open>src/shl_trie.c\<close> and \<^verbatim>\<open>src/shl_trie.h\<close> over an explicit heap. A trie is a
  root pointer; \<open>heap\<close> maps the (untagged) address of an allocated \<^verbatim>\<open>struct shl_trie_node\<close> to its
  contents, and \<open>keys\<close> maps the address of a user object (the \<^verbatim>\<open>uint8_t **rkey\<close> a client inserts) to
  the bytes of its NUL-terminated key, without the NUL. Pointers are 64-bit words, with the node
  marker in bit 0 and the visited marker in bit 1 exactly as the code keeps them. A step through a
  pointer that is not allocated is undefined, and a loop that never ends has no result: both are
  \<^const>\<open>None\<close>.
\<close>

record trie_node =
  childs0 :: ptr
  childs1 :: ptr
  n_byte :: size_t
  n_otherbits :: u8

type_synonym heap = "ptr \<rightharpoonup> trie_node"
type_synonym keys = "ptr \<rightharpoonup> u8 list"

definition childs :: "trie_node \<Rightarrow> u16 \<Rightarrow> ptr" where
  "childs n d = (if d = 0 then childs0 n else childs1 n)"

definition set_childs :: "trie_node \<Rightarrow> u16 \<Rightarrow> ptr \<Rightarrow> trie_node" where
  "set_childs n d v = (if d = 0 then n\<lparr>childs0 := v\<rparr> else n\<lparr>childs1 := v\<rparr>)"

text \<open>Reading a C string at an index: its bytes, then the terminating 0, then nothing.\<close>

definition str_at :: "u8 list \<Rightarrow> nat \<Rightarrow> u8 option" where
  "str_at s i = (if i < length s then Some (s ! i) else if i = length s then Some 0 else None)"

subsection \<open>Pointer tags\<close>

definition shl_check_alignment :: "ptr \<Rightarrow> unit res" where
  "shl_check_alignment p = (if p AND 3 \<noteq> 0 then Inl EFAULT else ok)"

definition shl_trie_is_node :: "ptr \<Rightarrow> bool" where
  "shl_trie_is_node p \<longleftrightarrow> p AND 1 \<noteq> 0"

definition shl_trie_get_node :: "ptr \<Rightarrow> ptr" where
  "shl_trie_get_node p = p AND NOT 3"

definition shl_trie_get_entry :: "ptr \<Rightarrow> ptr" where
  "shl_trie_get_entry p = p AND NOT 2"

definition shl_trie_make_node :: "ptr \<Rightarrow> ptr" where
  "shl_trie_make_node p = p OR 1"

definition shl_trie_make_entry :: "ptr \<Rightarrow> ptr" where
  "shl_trie_make_entry p = p"

definition shl_trie_is_visited :: "ptr \<Rightarrow> bool" where
  "shl_trie_is_visited p \<longleftrightarrow> p AND 2 \<noteq> 0"

definition shl_trie_clear_visited :: "ptr \<Rightarrow> ptr" where
  "shl_trie_clear_visited p = p AND NOT 2"

definition shl_trie_mark_visited :: "ptr \<Rightarrow> ptr" where
  "shl_trie_mark_visited p = p OR 2"

text \<open>
  \<^verbatim>\<open>posix_memalign\<close> either fails or returns the address of a fresh object, a multiple of the alignment
  it is asked for; \<open>mem\<close> is its answer for \<^verbatim>\<open>SHL_TRIE_ALIGNMENT\<close>.
\<close>

definition SHL_TRIE_ALIGNMENT :: size_t where
  "SHL_TRIE_ALIGNMENT = (let sizeof_ptr = 8 in if sizeof_ptr > 4 then sizeof_ptr else 4)"

definition shl_trie_alloc :: "ptr option \<Rightarrow> errno + ptr" where
  "shl_trie_alloc mem = (case mem of None \<Rightarrow> Inl ENOMEM | Some a \<Rightarrow> Inr a)"

definition shl_trie_alloc_node :: "ptr option \<Rightarrow> errno + ptr" where
  "shl_trie_alloc_node mem = shl_trie_alloc mem"

text \<open>The object around an entry, from the offset of the entry in it.\<close>

definition shl_trie_entry :: "ptr \<Rightarrow> u64 \<Rightarrow> ptr" where
  "shl_trie_entry pointer member_offset = pointer - member_offset"

subsection \<open>Descent and lookup\<close>

definition trie_direction :: "u8 \<Rightarrow> u8 \<Rightarrow> u16" where
  "trie_direction otherbits c = drop_bit 8 (1 + ucast (otherbits OR c))"

definition node_char :: "u8 list \<Rightarrow> size_t \<Rightarrow> trie_node \<Rightarrow> u8 option" where
  "node_char key keylen node =
     (if n_byte node < keylen then str_at key (unat (n_byte node)) else Some 0)"

partial_function (option) trie_walk :: "heap \<Rightarrow> u8 list \<Rightarrow> size_t \<Rightarrow> ptr \<Rightarrow> ptr option" where
  "trie_walk h key keylen iter =
     (if shl_trie_is_node iter then do {
        node \<leftarrow> h (shl_trie_get_node iter);
        c \<leftarrow> node_char key keylen node;
        trie_walk h key keylen (childs node (trie_direction (n_otherbits node) c)) }
      else Some iter)"

text \<open>The result is \<^const>\<open>None\<close> for \<^verbatim>\<open>false\<close> and the found entry (\<^verbatim>\<open>*out\<close>) for \<^verbatim>\<open>true\<close>.\<close>

definition shl_trie_lookup ::
  "keys \<Rightarrow> heap \<Rightarrow> ptr \<Rightarrow> u8 list \<Rightarrow> size_t \<Rightarrow> ptr option option" where
  "shl_trie_lookup K h root key keylen =
     (if root = 0 then Some None
      else do {
        iter \<leftarrow> trie_walk h key keylen root;
        ekey \<leftarrow> K (shl_trie_get_entry iter);
        Some (if key \<noteq> ekey then None else Some (shl_trie_get_entry iter)) })"

subsection \<open>Insertion\<close>

text \<open>
  The comparison of the new key with the closest entry's key: the first differing byte and the
  XOR there; at \<^verbatim>\<open>newbyte == keylen\<close> the entry's own byte, which is 0 exactly when the keys are
  equal.
\<close>

function trie_diff :: "u8 list \<Rightarrow> u8 list \<Rightarrow> nat \<Rightarrow> nat \<Rightarrow> (nat \<times> u8) option" where
  "trie_diff ekey key keylen newbyte =
     (if newbyte < keylen then do {
        a \<leftarrow> str_at ekey newbyte;
        b \<leftarrow> str_at key newbyte;
        if a \<noteq> b then Some (newbyte, a XOR b) else trie_diff ekey key keylen (Suc newbyte) }
      else do { a \<leftarrow> str_at ekey newbyte; Some (newbyte, a) })"
  by pat_completeness auto
termination
  by (relation "measure (\<lambda>(ekey, key, keylen, newbyte). keylen - newbyte)") auto

declare trie_diff.simps [simp del]

definition trie_otherbits :: "u8 \<Rightarrow> u8" where
  "trie_otherbits x =
     (let x = x OR drop_bit 1 x; x = x OR drop_bit 2 x; x = x OR drop_bit 4 x
      in (x AND NOT (drop_bit 1 x)) XOR 0xff)"

text \<open>A \<^verbatim>\<open>void **\<close> into the trie: the root pointer or one child pointer of a node.\<close>

datatype trie_slot = Root | Child ptr u16

fun read_slot :: "heap \<Rightarrow> ptr \<Rightarrow> trie_slot \<Rightarrow> ptr option" where
  "read_slot h root Root = Some root"
| "read_slot h root (Child a d) = do { node \<leftarrow> h a; Some (childs node d) }"

fun write_slot :: "heap \<Rightarrow> ptr \<Rightarrow> trie_slot \<Rightarrow> ptr \<Rightarrow> (heap \<times> ptr) option" where
  "write_slot h root Root v = Some (h, v)"
| "write_slot h root (Child a d) v =
     do { node \<leftarrow> h a; Some (h(a \<mapsto> set_childs node d v), root) }"

partial_function (option) trie_place ::
  "heap \<Rightarrow> ptr \<Rightarrow> u8 list \<Rightarrow> size_t \<Rightarrow> size_t \<Rightarrow> u8 \<Rightarrow> trie_slot \<Rightarrow> trie_slot option" where
  "trie_place h root key keylen newbyte newotherbits where' = do {
     p \<leftarrow> read_slot h root where';
     if shl_trie_is_node p then do {
       node \<leftarrow> h (shl_trie_get_node p);
       if n_byte node > newbyte then Some where'
       else if n_byte node = newbyte \<and> n_otherbits node > newotherbits then Some where'
       else do {
         c \<leftarrow> node_char key keylen node;
         trie_place h root key keylen newbyte newotherbits
           (Child (shl_trie_get_node p) (trie_direction (n_otherbits node) c)) } }
     else Some where' }"

text \<open>
  The result holds the heap, the root, the return value and \<^verbatim>\<open>*out\<close> (\<^const>\<open>None\<close> when it is not
  written).
\<close>

definition shl_trie_insert ::
  "keys \<Rightarrow> ptr option \<Rightarrow> heap \<Rightarrow> ptr \<Rightarrow> ptr \<Rightarrow> size_t \<Rightarrow> (heap \<times> ptr \<times> unit res \<times> ptr option) option"
where
  "shl_trie_insert K mem h root rkey keylen = do {
     key \<leftarrow> K rkey;
     case shl_check_alignment rkey of
       Inl e \<Rightarrow> Some (h, root, Inl e, None)
     | Inr _ \<Rightarrow>
         if root = 0 then Some (h, shl_trie_make_entry rkey, ok, None)
         else do {
           iter \<leftarrow> trie_walk h key keylen root;
           let entry = shl_trie_get_entry iter;
           ekey \<leftarrow> K entry;
           (newbyte, newotherbits) \<leftarrow> trie_diff ekey key (unat keylen) 0;
           if newotherbits = 0 then Some (h, root, Inl EALREADY, Some entry)
           else do {
             let newotherbits = trie_otherbits newotherbits;
             c \<leftarrow> str_at ekey newbyte;
             let newdirection = trie_direction newotherbits c;
             case shl_trie_alloc_node mem of
               Inl e \<Rightarrow> Some (h, root, Inl e, None)
             | Inr new \<Rightarrow> do {
                 let entry = shl_trie_make_entry rkey;
                 let node = set_childs
                       \<lparr>childs0 = 0, childs1 = 0, n_byte = of_nat newbyte, n_otherbits = newotherbits\<rparr>
                       (newdirection XOR 1) (shl_trie_make_entry entry);
                 where' \<leftarrow> trie_place h root key keylen (of_nat newbyte) newotherbits Root;
                 old \<leftarrow> read_slot h root where';
                 (h, root) \<leftarrow> write_slot (h(new \<mapsto> set_childs node newdirection old)) root where'
                                (shl_trie_make_node new);
                 Some (h, root, ok, Some entry) } } } }"

subsection \<open>Removal\<close>

text \<open>
  The descent of \<^verbatim>\<open>shl_trie_remove\<close>: the slot of the entry and, unless the root is an entry, the
  last values of \<^verbatim>\<open>grandparent\<close>, \<^verbatim>\<open>node\<close> and \<^verbatim>\<open>direction\<close>.
\<close>

partial_function (option) trie_find ::
  "heap \<Rightarrow> ptr \<Rightarrow> u8 list \<Rightarrow> size_t \<Rightarrow> (trie_slot \<times> ptr \<times> u16) option \<Rightarrow> trie_slot \<Rightarrow>
   ((trie_slot \<times> ptr \<times> u16) option \<times> trie_slot) option" where
  "trie_find h root key keylen up where' = do {
     p \<leftarrow> read_slot h root where';
     if shl_trie_is_node p then do {
       node \<leftarrow> h (shl_trie_get_node p);
       c \<leftarrow> node_char key keylen node;
       let direction = trie_direction (n_otherbits node) c;
       trie_find h root key keylen (Some (where', shl_trie_get_node p, direction))
         (Child (shl_trie_get_node p) direction) }
     else Some (up, where') }"

definition shl_trie_remove ::
  "keys \<Rightarrow> heap \<Rightarrow> ptr \<Rightarrow> u8 list \<Rightarrow> size_t \<Rightarrow> (heap \<times> ptr \<times> ptr option) option" where
  "shl_trie_remove K h root key keylen =
     (if root = 0 then Some (h, root, None)
      else do {
        (up, where') \<leftarrow> trie_find h root key keylen None Root;
        p \<leftarrow> read_slot h root where';
        let entry = shl_trie_get_entry p;
        ekey \<leftarrow> K entry;
        if key \<noteq> ekey then Some (h, root, None)
        else case up of
            None \<Rightarrow> Some (h, 0, Some entry)
          | Some (grandparent, node, direction) \<Rightarrow> do {
              nd \<leftarrow> h node;
              (h, root) \<leftarrow> write_slot h root grandparent (childs nd (direction XOR 1));
              Some (h(node := None), root, Some entry) } })"

subsection \<open>Traversal\<close>

text \<open>
  The traversal without a stack: each node's child pointers temporarily hold the way back, marked
  as visited. \<open>free\<close> is the flag \<^verbatim>\<open>SHL_TRIE_FREE\<close>, \<open>cb\<close> tells whether a callback is given, and
  \<open>out\<close> collects the entries it was called on.
\<close>

partial_function (option) trie_traverse_loop ::
  "bool \<Rightarrow> bool \<Rightarrow> heap \<Rightarrow> ptr \<Rightarrow> ptr \<Rightarrow> ptr list \<Rightarrow> (heap \<times> ptr list) option" where
  "trie_traverse_loop free cb h iter parent out =
     (if iter = 0 then Some (h, out)
      else if \<not> shl_trie_is_node iter then
        let entry = shl_trie_get_entry iter in
        trie_traverse_loop free cb h parent (shl_trie_make_entry entry)
          (if cb then out @ [entry] else out)
      else do {
        node \<leftarrow> h (shl_trie_get_node iter);
        if shl_trie_is_visited (childs1 node) then
          trie_traverse_loop free cb
            (if free then h(shl_trie_get_node iter := None)
             else h(shl_trie_get_node iter \<mapsto> node\<lparr>childs1 := shl_trie_clear_visited parent\<rparr>))
            (shl_trie_clear_visited (childs1 node))
            (shl_trie_make_node (shl_trie_get_node iter)) out
        else if shl_trie_is_visited (childs0 node) then
          trie_traverse_loop free cb
            (h(shl_trie_get_node iter \<mapsto>
                 node\<lparr>childs1 := childs0 node, childs0 := shl_trie_clear_visited parent\<rparr>))
            (childs1 node) (shl_trie_make_node (shl_trie_get_node iter)) out
        else
          trie_traverse_loop free cb
            (h(shl_trie_get_node iter \<mapsto> node\<lparr>childs0 := shl_trie_mark_visited parent\<rparr>))
            (childs0 node) (shl_trie_make_node (shl_trie_get_node iter)) out })"

definition shl_trie_traverse ::
  "heap \<Rightarrow> ptr \<Rightarrow> bool \<Rightarrow> bool \<Rightarrow> (heap \<times> ptr list) option" where
  "shl_trie_traverse h sub_trie cb free = trie_traverse_loop free cb h sub_trie 0 []"

definition shl_trie_clear :: "heap \<Rightarrow> ptr \<Rightarrow> bool \<Rightarrow> (heap \<times> ptr \<times> ptr list) option" where
  "shl_trie_clear h root cb =
     do { (h, out) \<leftarrow> shl_trie_traverse h root cb True; Some (h, 0, out) }"

text \<open>The head of a trie holds the root pointer only.\<close>

type_synonym shl_trie = ptr

definition shl_trie_zero :: shl_trie where
  "shl_trie_zero = 0"

partial_function (option) trie_top ::
  "heap \<Rightarrow> u8 list \<Rightarrow> size_t \<Rightarrow> ptr \<Rightarrow> ptr \<Rightarrow> (ptr \<times> ptr) option" where
  "trie_top h pre plen iter best =
     (if shl_trie_is_node iter then do {
        node \<leftarrow> h (shl_trie_get_node iter);
        c \<leftarrow> node_char pre plen node;
        let iter = childs node (trie_direction (n_otherbits node) c);
        trie_top h pre plen iter (if n_byte node < plen then iter else best) }
      else Some (iter, best))"

text \<open>
  \<open>best\<close> is the code's \<^verbatim>\<open>top\<close>: the subtree below the last node inside the prefix. The final check is that
  the first \<open>plen\<close> bytes of the prefix are those of the entry's key.
\<close>

function prefix_eq :: "u8 list \<Rightarrow> u8 list \<Rightarrow> nat \<Rightarrow> nat \<Rightarrow> bool option" where
  "prefix_eq pre ekey plen i =
     (if i < plen then do {
        a \<leftarrow> str_at pre i;
        b \<leftarrow> str_at ekey i;
        if a \<noteq> b then Some False else prefix_eq pre ekey plen (Suc i) }
      else Some True)"
  by pat_completeness auto
termination
  by (relation "measure (\<lambda>(pre, ekey, plen, i). plen - i)") auto

declare prefix_eq.simps [simp del]

text \<open>\<open>trie\<close> is the address of the \<^verbatim>\<open>struct shl_trie\<close>, which the code passes on without a prefix.\<close>

definition shl_trie_visit ::
  "keys \<Rightarrow> heap \<Rightarrow> ptr \<Rightarrow> ptr \<Rightarrow> u8 list option \<Rightarrow> size_t \<Rightarrow> bool \<Rightarrow> (heap \<times> ptr list) option" where
  "shl_trie_visit K h trie root pre plen cb =
     (if root = 0 then Some (h, [])
      else case pre of
          None \<Rightarrow> shl_trie_traverse h trie cb False
        | Some pre \<Rightarrow>
            if plen = 0 then shl_trie_traverse h trie cb False
            else do {
              (iter, best) \<leftarrow> trie_top h pre plen root root;
              ekey \<leftarrow> K (shl_trie_get_entry iter);
              eq \<leftarrow> prefix_eq pre ekey (unat plen) 0;
              if eq then shl_trie_traverse h best cb False else Some (h, []) })"

text \<open>The string wrappers of the header compute the length themselves.\<close>

definition shl_trie_lookup_str :: "keys \<Rightarrow> heap \<Rightarrow> ptr \<Rightarrow> u8 list \<Rightarrow> ptr option option" where
  "shl_trie_lookup_str K h root str = shl_trie_lookup K h root str (of_nat (length str))"

definition shl_trie_insert_str ::
  "keys \<Rightarrow> ptr option \<Rightarrow> heap \<Rightarrow> ptr \<Rightarrow> ptr \<Rightarrow> (heap \<times> ptr \<times> unit res \<times> ptr option) option" where
  "shl_trie_insert_str K mem h root str =
     do { key \<leftarrow> K str; shl_trie_insert K mem h root str (of_nat (length key)) }"

definition shl_trie_remove_str ::
  "keys \<Rightarrow> heap \<Rightarrow> ptr \<Rightarrow> u8 list \<Rightarrow> (heap \<times> ptr \<times> ptr option) option" where
  "shl_trie_remove_str K h root str = shl_trie_remove K h root str (of_nat (length str))"

definition shl_trie_visit_str ::
  "keys \<Rightarrow> heap \<Rightarrow> ptr \<Rightarrow> ptr \<Rightarrow> u8 list option \<Rightarrow> bool \<Rightarrow> (heap \<times> ptr list) option" where
  "shl_trie_visit_str K h trie root pre cb =
     shl_trie_visit K h trie root pre
       (case pre of None \<Rightarrow> 0 | Some p \<Rightarrow> of_nat (length p)) cb"

definition shl_trie_clear_str :: "heap \<Rightarrow> ptr \<Rightarrow> bool \<Rightarrow> (heap \<times> ptr \<times> ptr list) option" where
  "shl_trie_clear_str h root cb = shl_trie_clear h root cb"

declare trie_walk.simps [code] trie_place.simps [code] trie_find.simps [code] trie_traverse_loop.simps [code] trie_top.simps [code]

end
