(* ===== verification/Shl_Trie_Tree.thy ===== *)
theory Shl_Trie_Tree
  imports Shl_Trie
begin

text \<open>
  The mathematical side of the crit-bit trie: the bit arithmetic of directions and masks, and
  crit-bit trees as a datatype with their well-formedness and the operations the heap code
  implements. A key is read as an infinite bit string (its bytes, most significant bit first, then
  zeros); \<open>kbit k q\<close> is bit \<open>q\<close> of it.
\<close>

subsection \<open>Tags\<close>

definition aligned :: "ptr \<Rightarrow> bool" where
  "aligned a \<longleftrightarrow> a AND 3 = 0"

lemma bit_3_ptr: "bit (3 :: ptr) n \<longleftrightarrow> n < 2"
proof -
  have "(3 :: ptr) = mask 2" by (simp add: mask_eq_exp_minus_1)
  then have "bit (3 :: ptr) n \<longleftrightarrow> bit (mask 2 :: ptr) n" by (simp only:)
  also have "\<dots> \<longleftrightarrow> n < 2" by (auto simp: bit_mask_iff)
  finally show ?thesis .
qed

lemma ptr_eq_iff: "a = b \<longleftrightarrow> (\<forall>n<64. bit (a :: ptr) n = bit b n)"
  by (auto intro!: bit_word_eqI)

lemma and_1_ptr: "(p :: ptr) AND 1 = of_bool (bit p 0)"
  by (rule bit_word_eqI) (auto simp: bit_simps)

lemma and_2_ptr: "(p :: ptr) AND 2 = 0 \<longleftrightarrow> \<not> bit p (Suc 0)"
proof -
  have "p AND 2 = 0 \<longleftrightarrow> (\<forall>n<64. \<not> (bit p n \<and> n = Suc 0))"
    by (simp add: ptr_eq_iff bit_and_iff bit_2_iff del: bit_numeral_word_iff)
  also have "\<dots> \<longleftrightarrow> \<not> bit p (Suc 0)"
    by (metis one_less_numeral_iff One_nat_def semiring_norm(76))
  finally show ?thesis .
qed

lemma aligned_bits: "aligned a \<longleftrightarrow> \<not> bit a 0 \<and> \<not> bit a (Suc 0)"
proof -
  have "aligned a \<longleftrightarrow> (\<forall>n<64. bit a n \<longrightarrow> \<not> (n = 0 \<or> n = Suc 0))"
    by (simp add: aligned_def ptr_eq_iff bit_and_iff bit_3_ptr less_2_cases_iff
        del: bit_numeral_word_iff)
  also have "\<dots> \<longleftrightarrow> \<not> bit a 0 \<and> \<not> bit a (Suc 0)"
    by (metis zero_less_numeral one_less_numeral_iff One_nat_def semiring_norm(76))
  finally show ?thesis .
qed

text \<open>What \<^verbatim>\<open>posix_memalign\<close> returns for the alignment of the trie leaves both marker bits free.\<close>

lemma memalign_aligned:
  assumes "unat n mod unat SHL_TRIE_ALIGNMENT = 0"
  shows "aligned n"
proof -
  have "unat n mod 8 = 0" using assms by (simp add: SHL_TRIE_ALIGNMENT_def)
  then have "take_bit 3 (unat n) = 0" by (simp add: take_bit_eq_mod)
  then have "\<not> bit (take_bit 3 (unat n)) i" for i by simp
  from this [of 0] this [of "Suc 0"] show ?thesis
    by (simp add: aligned_bits bit_take_bit_iff bit_unsigned_iff)
qed

lemma is_node_bit: "shl_trie_is_node p \<longleftrightarrow> bit p 0"
  by (simp add: shl_trie_is_node_def and_1_ptr)

lemma is_visited_bit: "shl_trie_is_visited p \<longleftrightarrow> bit p (Suc 0)"
  by (simp add: shl_trie_is_visited_def and_2_ptr)

lemma bit_0_tags [simp]:
  "bit (shl_trie_make_node p) 0" "bit (shl_trie_mark_visited p) 0 = bit p 0"
  "bit (shl_trie_clear_visited p) 0 = bit p 0"
  by (auto simp: shl_trie_make_node_def shl_trie_mark_visited_def shl_trie_clear_visited_def bit_simps
      simp del: bit_numeral_word_iff)

lemma bit_1_tags [simp]:
  "bit (shl_trie_make_node p) (Suc 0) = bit p (Suc 0)" "bit (shl_trie_mark_visited p) (Suc 0)"
  "\<not> bit (shl_trie_clear_visited p) (Suc 0)"
  by (auto simp: shl_trie_make_node_def shl_trie_mark_visited_def shl_trie_clear_visited_def bit_simps
      simp del: bit_numeral_word_iff)

lemma aligned_tags [simp]:
  assumes "aligned a"
  shows "shl_trie_is_node (shl_trie_make_node a)" "\<not> shl_trie_is_node a"
    "\<not> shl_trie_is_visited (shl_trie_make_node a)" "\<not> shl_trie_is_visited a"
    "shl_trie_get_node (shl_trie_make_node a) = a" "shl_trie_get_entry a = a"
    "shl_trie_make_node a \<noteq> 0"
proof -
  show "shl_trie_get_node (shl_trie_make_node a) = a" "shl_trie_get_entry a = a"
    using assms unfolding aligned_bits shl_trie_get_node_def shl_trie_make_node_def
      shl_trie_get_entry_def
    by (auto intro!: bit_word_eqI gr0I simp: bit_simps bit_3_ptr less_2_cases_iff
        simp del: bit_numeral_word_iff)
  show "shl_trie_make_node a \<noteq> 0"
    using bit_0_tags(1) [of a] by fastforce
qed (use assms in \<open>auto simp: is_node_bit is_visited_bit aligned_bits\<close>)

lemma clear_visited_id [simp]: "\<not> shl_trie_is_visited p \<Longrightarrow> shl_trie_clear_visited p = p"
  by (auto intro!: bit_word_eqI simp: shl_trie_clear_visited_def is_visited_bit bit_simps
      simp del: bit_numeral_word_iff)

lemma clear_mark_visited [simp]:
  "\<not> shl_trie_is_visited p \<Longrightarrow> shl_trie_clear_visited (shl_trie_mark_visited p) = p"
  by (auto intro!: bit_word_eqI
      simp: shl_trie_clear_visited_def shl_trie_mark_visited_def is_visited_bit bit_simps
      simp del: bit_numeral_word_iff)

lemma mark_visited [simp]: "shl_trie_is_visited (shl_trie_mark_visited p)"
  by (simp add: is_visited_bit)

lemma childs_simps [simp]:
  "childs n 0 = childs0 n" "childs n 1 = childs1 n"
  "set_childs n 0 v = n\<lparr>childs0 := v\<rparr>" "set_childs n 1 v = n\<lparr>childs1 := v\<rparr>"
  by (simp_all add: childs_def set_childs_def)

subsection \<open>Masks and directions\<close>

text \<open>
  \<open>ob_ok o\<close>: the mask has exactly one bit cleared, the critical one; \<open>ob_idx o\<close> is its index.
\<close>

definition ob_idx :: "u8 \<Rightarrow> nat" where
  "ob_idx ob = top_bit 7 (NOT ob)"

definition ob_ok :: "u8 \<Rightarrow> bool" where
  "ob_ok ob \<longleftrightarrow> ob = NOT (push_bit (ob_idx ob) 1)"

lemma ob_idx_less [simp]: "ob_idx ob < 8"
  using top_bit_le [of 7 "NOT ob"] by (simp add: ob_idx_def)

text \<open>The three shifts smear the highest set bit downwards; the rest isolates it again.\<close>

lemma smear_bits:
  defines "s1 x \<equiv> x OR drop_bit 1 (x :: u8)" and "s2 x \<equiv> x OR drop_bit 2 (x :: u8)"
    and "s4 x \<equiv> x OR drop_bit 4 (x :: u8)"
  shows "bit (s4 (s2 (s1 x))) j \<longleftrightarrow> (\<exists>i\<in>{j..j + 7}. bit x i)"
proof -
  have "{j..j + 7} = {j, j + 1, j + 2, j + 3, j + 4, j + 5, j + 6, j + 7}"
    by auto
  then show ?thesis
    by (auto simp: s1_def s2_def s4_def bit_or_iff bit_drop_bit_eq eval_nat_numeral)
qed

lemma trie_otherbits_mask:
  assumes "x \<noteq> 0"
  shows "trie_otherbits x = NOT (push_bit (top_bit 7 x) 1)"
proof (rule bit_word_eqI)
  fix n assume "n < LENGTH(8)"
  then have n: "n < 8" by simp
  let ?t = "top_bit 7 x"
  have "take_bit (Suc 7) x = x" using take_bit_word_eq_self [of 8 x] by simp
  then have t: "bit x ?t" using bit_top_bit [of 7 x] assms by simp
  have t8: "?t \<le> 7" by (rule top_bit_le)
  have above: "\<not> bit x i" if "?t < i" for i
    using that top_bit_above [of 7 x i] bit_imp_le_length [of x i] by (cases "i \<le> 7") auto
  have ex: "(\<exists>i\<in>{j..j + 7}. bit x i) \<longleftrightarrow> j \<le> ?t" for j
  proof
    assume "\<exists>i\<in>{j..j + 7}. bit x i"
    then obtain i where i: "j \<le> i" "bit x i" by auto
    then have "i \<le> ?t" using above [of i] by (cases "?t < i") auto
    with i show "j \<le> ?t" by simp
  next
    assume "j \<le> ?t"
    with t8 have "?t \<in> {j..j + 7}" by simp
    with t show "\<exists>i\<in>{j..j + 7}. bit x i" by blast
  qed
  obtain s where s: "trie_otherbits x = (s AND NOT (drop_bit 1 s)) XOR 0xff" "\<And>j. bit s j \<longleftrightarrow> j \<le> ?t"
    unfolding trie_otherbits_def Let_def using smear_bits [of x] ex by blast
  have "bit (0xff :: u8) n" using n by (auto simp: less_Suc_eq numeral_eq_Suc)
  then show "bit (trie_otherbits x) n \<longleftrightarrow> bit (NOT (push_bit ?t 1) :: u8) n"
    unfolding s(1)
    using n t8 by (auto simp: bit_xor_iff bit_and_iff bit_not_iff bit_drop_bit_eq s(2)
        bit_push_bit_iff bit_1_iff simp del: bit_numeral_word_iff push_bit_of_1)
qed

lemma ob_idx_mask [simp]: "i < 8 \<Longrightarrow> ob_idx (NOT (push_bit i 1)) = i"
proof -
  assume "i < 8"
  then have "i \<in> {0, 1, 2, 3, 4, 5, 6, 7}" by auto
  then show ?thesis
    unfolding ob_idx_def by (auto simp: eval_nat_numeral bit_simps)
qed

lemma trie_otherbits_correct:
  assumes "x \<noteq> 0"
  shows "ob_ok (trie_otherbits x)" "ob_idx (trie_otherbits x) = top_bit 7 x"
  using trie_otherbits_mask [of x] assms top_bit_le [of 7 x] ob_idx_mask [of "top_bit 7 x"]
  by (simp_all add: ob_ok_def)

lemma trie_direction_all:
  assumes "i < 8"
  shows "trie_direction (NOT (push_bit i 1)) c = of_bool (bit c i)"
proof -
  have "NOT (push_bit i 1) OR c = (if bit c i then - 1 else NOT (push_bit i 1))"
    by (rule bit_word_eqI) (auto simp: bit_simps)
  moreover have "list_all (\<lambda>i. drop_bit 8 (1 + ucast (NOT (push_bit i 1) :: u8)) = (0 :: u16)) [0..<8]"
    by code_simp
  then have "drop_bit 8 (1 + ucast (NOT (push_bit i 1) :: u8)) = (0 :: u16)"
    using assms by (simp add: list_all_iff)
  moreover have "drop_bit 8 (1 + ucast (- 1 :: u8)) = (1 :: u16)"
    by code_simp
  ultimately show ?thesis
    by (simp add: trie_direction_def)
qed

lemma trie_direction_correct: "ob_ok ob \<Longrightarrow> trie_direction ob c = of_bool (bit c (ob_idx ob))"
  using trie_direction_all [OF ob_idx_less, of ob c] by (simp add: ob_ok_def)

lemma ob_less_iff:
  assumes "ob_ok x" "ob_ok y"
  shows "x < y \<longleftrightarrow> ob_idx y < ob_idx x"
proof -
  have "list_all (\<lambda>i. list_all (\<lambda>j. (NOT (push_bit i 1) < (NOT (push_bit j 1) :: u8)) = (j < i)) [0..<8]) [0..<8]"
    by code_simp
  then have "NOT (push_bit (ob_idx x) 1) < (NOT (push_bit (ob_idx y) 1) :: u8) \<longleftrightarrow> ob_idx y < ob_idx x"
    by (auto simp: list_all_iff)
  then show ?thesis using assms unfolding ob_ok_def by (metis (no_types))
qed

subsection \<open>Keys as bit strings\<close>

definition kbyte :: "u8 list \<Rightarrow> nat \<Rightarrow> u8" where
  "kbyte k i = (if i < length k then k ! i else 0)"

definition kbit :: "u8 list \<Rightarrow> nat \<Rightarrow> bool" where
  "kbit k q \<longleftrightarrow> bit (kbyte k (q div 8)) (7 - q mod 8)"

definition cpos :: "size_t \<Rightarrow> u8 \<Rightarrow> nat" where
  "cpos b ob = 8 * unat b + (7 - ob_idx ob)"

lemma str_at_kbyte: "i \<le> length s \<Longrightarrow> str_at s i = Some (kbyte s i)"
  by (auto simp: str_at_def kbyte_def)

lemma kbit_at:
  assumes "j < 8"
  shows "kbit k (8 * i + (7 - j)) = bit (kbyte k i) j"
proof -
  define m where "m = 7 - j"
  have "m < 8" "7 - m = j" using assms by (auto simp: m_def)
  then have "(8 * i + m) div 8 = i" "7 - (8 * i + m) mod 8 = j" by auto
  then show ?thesis by (simp only: kbit_def flip: m_def)
qed

lemma kbit_cpos: "kbit k (cpos b ob) = bit (kbyte k (unat b)) (ob_idx ob)"
  using kbit_at [of "ob_idx ob" k "unat b"] by (simp add: cpos_def)

lemma kbyte_eqI:
  assumes "\<And>q. 8 * i \<le> q \<Longrightarrow> q < 8 * Suc i \<Longrightarrow> kbit k q = kbit k' q"
  shows "kbyte k i = kbyte k' i"
proof (rule bit_word_eqI)
  fix j assume "j < LENGTH(8)"
  then have "j < 8" "8 * i \<le> 8 * i + (7 - j)" "8 * i + (7 - j) < 8 * Suc i" by auto
  then show "bit (kbyte k i) j = bit (kbyte k' i) j"
    using assms [of "8 * i + (7 - j)"] kbit_at [of j k i] kbit_at [of j k' i] by blast
qed

lemma kbyte_inject:
  assumes "0 \<notin> set k" "0 \<notin> set k'" "\<And>i. i \<le> length k \<Longrightarrow> kbyte k i = kbyte k' i"
  shows "k = k'"
proof -
  have nz: "kbyte s i \<noteq> 0 \<longleftrightarrow> i < length s" if "0 \<notin> set s" for s i
    using that by (auto simp: kbyte_def in_set_conv_nth)
  have "length k' \<le> length k"
    using nz [OF assms(1), of "length k"] nz [OF assms(2), of "length k"] assms(3) [of "length k"] by simp
  moreover have "length k \<le> length k'"
    using nz [OF assms(1), of "length k'"] nz [OF assms(2), of "length k'"] assms(3) [of "length k'"]
    by (cases "length k' \<le> length k") auto
  ultimately have len: "length k = length k'" by simp
  have "k ! i = k' ! i" if "i < length k" for i
    using assms(3) [of i] that len by (simp add: kbyte_def)
  with len show ?thesis by (intro nth_equalityI) auto
qed

lemma kbit_inject:
  assumes "0 \<notin> set k" "0 \<notin> set k'" "\<And>q. kbit k q = kbit k' q"
  shows "k = k'"
  using assms(3) by (intro kbyte_inject [OF assms(1,2)] kbyte_eqI)

text \<open>The step of every descent: the child the code chooses is given by the key's bit at the node.\<close>

lemma descend_step:
  assumes "ob_ok ob" "unat kl = length k" "n_byte node = b"
  obtains c where "node_char k kl node = Some c" "trie_direction ob c = of_bool (kbit k (cpos b ob))"
proof -
  have "node_char k kl node = Some (kbyte k (unat b))"
    using assms(2,3) by (auto simp: node_char_def str_at_kbyte word_less_nat_alt kbyte_def)
  with that show ?thesis
    using assms(1) by (simp add: trie_direction_correct kbit_cpos)
qed

subsection \<open>The first difference of two keys\<close>

lemma xor_zero_iff: "(a :: 'a :: len word) XOR b = 0 \<longleftrightarrow> a = b"
proof
  assume "a XOR b = 0"
  then have "bit a n = bit b n" for n
    using bit_xor_iff [of a b n] by simp
  then show "a = b" by (intro bit_word_eqI) blast
qed simp

lemma trie_diff_step:
  assumes "newbyte \<le> length ekey" "newbyte \<le> length key"
  shows "trie_diff ekey key (length key) newbyte =
    (if newbyte < length key \<and> kbyte ekey newbyte = kbyte key newbyte
     then trie_diff ekey key (length key) (Suc newbyte)
     else Some (newbyte, kbyte ekey newbyte XOR kbyte key newbyte))"
  using assms by (subst trie_diff.simps) (auto simp: str_at_kbyte kbyte_def)

lemma trie_diff_correct:
  assumes "0 \<notin> set ekey" "0 \<notin> set key" "n \<le> length ekey" "n \<le> length key"
    and "\<And>j. j < n \<Longrightarrow> kbyte ekey j = kbyte key j"
  shows "\<exists>i x. trie_diff ekey key (length key) n = Some (i, x) \<and> i \<le> length key \<and> i \<le> length ekey \<and>
           x = kbyte ekey i XOR kbyte key i \<and> (\<forall>j<i. kbyte ekey j = kbyte key j) \<and>
           (x = 0 \<longrightarrow> ekey = key)"
  using assms(3-)
proof (induction "length key - n" arbitrary: n rule: less_induct)
  case less
  show ?case
  proof (cases "n < length key \<and> kbyte ekey n = kbyte key n")
    case True
    have "key ! n \<noteq> 0" using assms(2) True by (auto simp: in_set_conv_nth)
    then have "n < length ekey"
      using True by (auto simp: kbyte_def split: if_splits)
    then have "\<exists>i x. trie_diff ekey key (length key) (Suc n) = Some (i, x) \<and> i \<le> length key \<and>
        i \<le> length ekey \<and> x = kbyte ekey i XOR kbyte key i \<and>
        (\<forall>j<i. kbyte ekey j = kbyte key j) \<and> (x = 0 \<longrightarrow> ekey = key)"
      using True less.prems by (intro less.hyps) (auto simp: less_Suc_eq)
    with True less.prems show ?thesis by (simp add: trie_diff_step [of n])
  next
    case False
    have "ekey = key" if "kbyte ekey n = kbyte key n"
    proof -
      have "n = length key" using that False less.prems(2) by auto
      with that less.prems(3) show ?thesis
        by (intro kbyte_inject [symmetric] assms) (auto simp: le_less)
    qed
    with False less.prems show ?thesis
      by (auto simp: trie_diff_step xor_zero_iff)
  qed
qed

lemma first_diff_bit:
  assumes "x = kbyte k i XOR kbyte k' i" "x \<noteq> 0" "\<And>j. j < i \<Longrightarrow> kbyte k j = kbyte k' j"
    and "unat b = i"
  defines "d \<equiv> cpos b (trie_otherbits x)"
  shows "kbit k d \<noteq> kbit k' d" "\<And>q. q < d \<Longrightarrow> kbit k q = kbit k' q"
proof -
  let ?t = "top_bit 7 x"
  have t: "?t < 8" using top_bit_le [of 7 x] by simp
  have idx: "ob_idx (trie_otherbits x) = ?t"
    using assms(2) by (simp add: trie_otherbits_correct)
  have "take_bit (Suc 7) x = x" using take_bit_word_eq_self [of 8 x] by simp
  then have "bit x ?t" using bit_top_bit [of 7 x] assms(2) by simp
  then show "kbit k d \<noteq> kbit k' d"
    unfolding d_def kbit_cpos idx using assms(1,4) by (simp add: bit_xor_iff)
  fix q assume q: "q < d"
  show "kbit k q = kbit k' q"
  proof (cases "q div 8 < i")
    case True
    then show ?thesis using assms(3) by (simp add: kbit_def)
  next
    case False
    have "q < 8 * i + (7 - ?t)" using q assms(4) by (simp add: d_def cpos_def idx)
    moreover have "q = 8 * (q div 8) + q mod 8" by simp
    ultimately have "q div 8 = i" "q mod 8 < 7 - ?t" using False by linarith+
    then have "\<not> bit x (7 - q mod 8)"
      using top_bit_above [of 7 x "7 - q mod 8"] by simp
    with \<open>q div 8 = i\<close> assms(1) show ?thesis by (simp add: kbit_def bit_xor_iff)
  qed
qed

lemma cpos_less_iff:
  assumes "ob_ok x" "ob_ok y"
  shows "cpos b x < cpos c y \<longleftrightarrow> b < c \<or> b = c \<and> x < y"
proof -
  have e: "unat b = unat c \<longleftrightarrow> b = c" by (simp add: word_unat_eq_iff)
  have "cpos b x < cpos c y \<longleftrightarrow> unat b < unat c \<or> unat b = unat c \<and> ob_idx y < ob_idx x"
    using ob_idx_less [of x] ob_idx_less [of y] unfolding cpos_def by linarith
  then show ?thesis by (simp add: e ob_less_iff [OF assms] word_less_nat_alt [of b c])
qed

subsection \<open>Crit-bit trees\<close>

datatype ctree = Leaf ptr | Branch ptr size_t u8 ctree ctree

primrec leaves :: "ctree \<Rightarrow> ptr list" where
  "leaves (Leaf a) = [a]"
| "leaves (Branch a b ob l r) = leaves l @ leaves r"

primrec naddrs :: "ctree \<Rightarrow> ptr list" where
  "naddrs (Leaf a) = []"
| "naddrs (Branch a b ob l r) = a # naddrs l @ naddrs r"

primrec tptr :: "ctree \<Rightarrow> ptr" where
  "tptr (Leaf a) = a"
| "tptr (Branch a b ob l r) = shl_trie_make_node a"

text \<open>
  Well-formedness: at every branch the two sides are told apart by the critical bit, and all keys
  below agree on every earlier bit. \<open>kf\<close> gives the key of an entry.
\<close>

definition agree :: "(ptr \<Rightarrow> u8 list) \<Rightarrow> nat \<Rightarrow> ptr set \<Rightarrow> bool" where
  "agree kf p S \<longleftrightarrow> (\<forall>x\<in>S. \<forall>y\<in>S. \<forall>q<p. kbit (kf x) q = kbit (kf y) q)"

primrec cwf :: "(ptr \<Rightarrow> u8 list) \<Rightarrow> ctree \<Rightarrow> bool" where
  "cwf kf (Leaf a) \<longleftrightarrow> True"
| "cwf kf (Branch a b ob l r) \<longleftrightarrow> cwf kf l \<and> cwf kf r \<and> ob_ok ob \<and>
     (\<forall>x\<in>set (leaves l). \<not> kbit (kf x) (cpos b ob)) \<and>
     (\<forall>x\<in>set (leaves r). kbit (kf x) (cpos b ob)) \<and>
     agree kf (cpos b ob) (set (leaves l) \<union> set (leaves r))"

primrec cleaf :: "u8 list \<Rightarrow> ctree \<Rightarrow> ptr" where
  "cleaf k (Leaf a) = a"
| "cleaf k (Branch a b ob l r) = (if kbit k (cpos b ob) then cleaf k r else cleaf k l)"

definition cjoin :: "u8 list \<Rightarrow> ptr \<Rightarrow> ptr \<Rightarrow> size_t \<Rightarrow> u8 \<Rightarrow> ctree \<Rightarrow> ctree" where
  "cjoin k n e b ob t =
     (if kbit k (cpos b ob) then Branch n b ob t (Leaf e) else Branch n b ob (Leaf e) t)"

primrec cins :: "u8 list \<Rightarrow> ptr \<Rightarrow> ptr \<Rightarrow> size_t \<Rightarrow> u8 \<Rightarrow> ctree \<Rightarrow> ctree" where
  "cins k n e b ob (Leaf a) = cjoin k n e b ob (Leaf a)"
| "cins k n e b ob (Branch a b' ob' l r) =
     (if cpos b ob < cpos b' ob' then cjoin k n e b ob (Branch a b' ob' l r)
      else if kbit k (cpos b' ob') then Branch a b' ob' l (cins k n e b ob r)
      else Branch a b' ob' (cins k n e b ob l) r)"

primrec cdel :: "u8 list \<Rightarrow> ctree \<Rightarrow> ctree option" where
  "cdel k (Leaf a) = None"
| "cdel k (Branch a b ob l r) =
     Some (if kbit k (cpos b ob)
           then (case cdel k r of None \<Rightarrow> l | Some r' \<Rightarrow> Branch a b ob l r')
           else (case cdel k l of None \<Rightarrow> r | Some l' \<Rightarrow> Branch a b ob l' r))"

definition oleaves :: "ctree option \<Rightarrow> ptr list" where
  "oleaves t = (case t of None \<Rightarrow> [] | Some t \<Rightarrow> leaves t)"

lemma agreeI: "(\<And>x y q. x \<in> S \<Longrightarrow> y \<in> S \<Longrightarrow> q < p \<Longrightarrow> kbit (kf x) q = kbit (kf y) q) \<Longrightarrow> agree kf p S"
  unfolding agree_def by blast

lemma agreeD: "agree kf p S \<Longrightarrow> x \<in> S \<Longrightarrow> y \<in> S \<Longrightarrow> q < p \<Longrightarrow> kbit (kf x) q = kbit (kf y) q"
  unfolding agree_def by blast

lemma agree_sub: "agree kf p S \<Longrightarrow> T \<subseteq> S \<Longrightarrow> agree kf p T"
  unfolding agree_def by blast

lemma agree_le: "agree kf p S \<Longrightarrow> q \<le> p \<Longrightarrow> agree kf q S"
  by (rule agreeI) (erule agreeD, auto)

lemma agree_singleton [simp]: "agree kf p {a}"
  by (rule agreeI) auto

lemma agree_insert:
  assumes "agree kf p S" "m \<in> S" "\<And>q. q < p \<Longrightarrow> kbit (kf e) q = kbit (kf m) q"
  shows "agree kf p (insert e S)"
proof (rule agreeI)
  have m: "kbit (kf x) q = kbit (kf m) q" if "x \<in> insert e S" "q < p" for x q
    using that assms(3) agreeD [OF assms(1) _ assms(2)] by blast
  fix x y q assume "x \<in> insert e S" "y \<in> insert e S" "q < p"
  then show "kbit (kf x) q = kbit (kf y) q" using m [of x q] m [of y q] by simp
qed

lemma cleaf_in [simp]: "cleaf k t \<in> set (leaves t)"
  by (induction t) auto

lemma leaves_nonempty [simp]: "leaves t \<noteq> []"
  by (induction t) auto

lemma cleaf_unique: "cwf kf t \<Longrightarrow> x \<in> set (leaves t) \<Longrightarrow> kf x = k \<Longrightarrow> cleaf k t = x"
  by (induction t) auto

lemma cwf_inj: "cwf kf t \<Longrightarrow> inj_on kf (set (leaves t))"
  by (rule inj_onI) (metis cleaf_unique)

lemma cwf_distinct: "cwf kf t \<Longrightarrow> distinct (leaves t)"
  by (induction t) auto

text \<open>Lookup: the walk ends at the entry with the key, if there is one.\<close>

lemma cleaf_lookup:
  "cwf kf t \<Longrightarrow> kf (cleaf k t) = k \<longleftrightarrow> k \<in> kf ` set (leaves t)"
proof
  assume "kf (cleaf k t) = k"
  then show "k \<in> kf ` set (leaves t)" using cleaf_in [of k t] by (metis imageI)
next
  assume "cwf kf t" "k \<in> kf ` set (leaves t)"
  then obtain x where "x \<in> set (leaves t)" "kf x = k" by blast
  with cleaf_unique [OF \<open>cwf kf t\<close> this] show "kf (cleaf k t) = k" by simp
qed

subsection \<open>Insertion and deletion on trees\<close>

lemma set_leaves_cins [simp]: "set (leaves (cins k n e b ob t)) = insert e (set (leaves t))"
  by (induction t) (auto simp: cjoin_def)

lemma set_naddrs_cins [simp]: "set (naddrs (cins k n e b ob t)) = insert n (set (naddrs t))"
  by (induction t) (auto simp: cjoin_def)

lemma cwf_root_agree:
  "cwf kf (Branch a b ob l r) \<Longrightarrow> agree kf (cpos b ob) (set (leaves (Branch a b ob l r)))"
  by (simp add: Un_commute)

lemma cwf_cjoin:
  assumes "cwf kf t" "kf e = k" "ob_ok ob" "m \<in> set (leaves t)"
    and "kbit k d \<noteq> kbit (kf m) d" "\<And>q. q < d \<Longrightarrow> kbit k q = kbit (kf m) q" "d = cpos b ob"
    and "agree kf (Suc d) (set (leaves t))"
  shows "cwf kf (cjoin k n e b ob t)"
proof -
  have x: "kbit (kf x) q = kbit (kf m) q" if "x \<in> set (leaves t)" "q \<le> d" for x q
    using agreeD [OF assms(8) that(1) assms(4)] that(2) by simp
  have "agree kf d (set (leaves t))"
    using assms(8) by (rule agree_le) simp
  then have "agree kf d (insert e (set (leaves t)))"
    using assms(2,4,6) by (intro agree_insert [where m = m]) auto
  moreover have "kbit (kf x) d = (\<not> kbit k d)" if "x \<in> set (leaves t)" for x
    using x [OF that, of d] assms(5) by simp
  ultimately show ?thesis
    using assms(1,2,3,7) by (simp add: cjoin_def)
qed

lemma cwf_cins:
  assumes "cwf kf t" "kf e = k" "ob_ok ob" "d = cpos b ob"
    and "kbit k d \<noteq> kbit (kf (cleaf k t)) d" "\<And>q. q < d \<Longrightarrow> kbit k q = kbit (kf (cleaf k t)) q"
  shows "cwf kf (cins k n e b ob t)"
  using assms
proof (induction t)
  case (Leaf a)
  then show ?case
    by (auto intro!: cwf_cjoin [where m = a and d = d] )
next
  case (Branch a b' ob' l r)
  let ?t = "Branch a b' ob' l r" and ?p = "cpos b' ob'"
  show ?case
  proof (cases "d < ?p")
    case True
    have "agree kf (Suc d) (set (leaves ?t))"
      using cwf_root_agree [OF Branch.prems(1)] by (rule agree_le) (use True in simp)
    then have "cwf kf (cjoin k n e b ob ?t)"
      using Branch.prems by (intro cwf_cjoin [where m = "cleaf k ?t" and d = d]) auto
    with True Branch.prems(4) show ?thesis by simp
  next
    case False
    have "agree kf ?p (insert e (set (leaves l) \<union> set (leaves r)))"
      using Branch.prems False cleaf_in [of k ?t]
      by (intro agree_insert [where m = "cleaf k ?t"]) (simp_all del: cleaf_in cleaf.simps)
    moreover have "cwf kf (cins k n e b ob r)" if "kbit k ?p"
      using that Branch.prems by (intro Branch.IH(2)) simp_all
    moreover have "cwf kf (cins k n e b ob l)" if "\<not> kbit k ?p"
      using that Branch.prems by (intro Branch.IH(1)) simp_all
    ultimately show ?thesis
      using False Branch.prems(1,2,4) by simp
  qed
qed

lemma leaves_cdel: "cwf kf t \<Longrightarrow> oleaves (cdel k t) = remove1 (cleaf k t) (leaves t)"
proof (induction t)
  case (Branch a b ob l r)
  have "cleaf k l \<in> set (leaves l)" "cleaf k r \<notin> set (leaves l)"
    using Branch.prems cleaf_in [of k r] by auto
  with Branch show ?case
    by (auto simp: oleaves_def remove1_append split: option.splits)
qed (simp add: oleaves_def)

lemma leaves_cdel_sub:
  "cwf kf t \<Longrightarrow> cdel k t = Some t' \<Longrightarrow> set (leaves t') \<subseteq> set (leaves t)"
  using leaves_cdel [of kf t k] set_remove1_subset [of "cleaf k t" "leaves t"]
  by (simp add: oleaves_def)

lemma cwf_cdel: "cwf kf t \<Longrightarrow> cdel k t = Some t' \<Longrightarrow> cwf kf t'"
proof (induction t arbitrary: t')
  case (Branch a b ob l r)
  have ag: "agree kf (cpos b ob) T" if "T \<subseteq> set (leaves l) \<union> set (leaves r)" for T
    using that Branch.prems(1) by (intro agree_sub [OF _ that]) simp
  show ?case
  proof (cases "kbit k (cpos b ob)")
    case True
    show ?thesis
    proof (cases "cdel k r")
      case (Some r')
      moreover have "set (leaves r') \<subseteq> set (leaves r)"
        using Branch.prems(1) by (intro leaves_cdel_sub [of kf, OF _ Some]) simp
      moreover from this have "agree kf (cpos b ob) (set (leaves l) \<union> set (leaves r'))"
        by (intro ag) blast
      ultimately show ?thesis
        using True Branch.prems Branch.IH(2) [OF _ Some] by (auto simp: subset_iff)
    qed (use True Branch.prems in auto)
  next
    case False
    show ?thesis
    proof (cases "cdel k l")
      case (Some l')
      moreover have "set (leaves l') \<subseteq> set (leaves l)"
        using Branch.prems(1) by (intro leaves_cdel_sub [of kf, OF _ Some]) simp
      moreover from this have "agree kf (cpos b ob) (set (leaves l') \<union> set (leaves r))"
        by (intro ag) blast
      ultimately show ?thesis
        using False Branch.prems Branch.IH(1) [OF _ Some] by (auto simp: subset_iff)
    qed (use False Branch.prems in auto)
  qed
qed simp

end
