(* ===== verification/Shl_Trace.thy ===== *)
theory Shl_Trace
  imports Shl_Prelude
begin

text \<open>
  Sequences of calls and what a specification says about them. A specification is a step relation
  over abstract states, calls and results; \<open>trace\<close> is its closure over a sequence of calls. The locale
  \<open>simulation\<close> is the contract of an implementation that takes such steps, and \<open>run_simulates\<close> what its
  clients get.
\<close>

inductive trace ::
  "('a \<Rightarrow> 'op \<Rightarrow> 'r \<Rightarrow> 'a \<Rightarrow> bool) \<Rightarrow> 'a \<Rightarrow> 'op list \<Rightarrow> 'r list \<Rightarrow> 'a \<Rightarrow> bool"
  for step :: "'a \<Rightarrow> 'op \<Rightarrow> 'r \<Rightarrow> 'a \<Rightarrow> bool" where
  trace_nil: "trace step m [] [] m"
| trace_cons: "step m op r m' \<Longrightarrow> trace step m' ops rs m'' \<Longrightarrow> trace step m (op # ops) (r # rs) m''"

inductive_cases trace_consE: "trace step m (op # ops) rs m'"

lemma trace_length: "trace step m ops rs m' \<Longrightarrow> length rs = length ops"
  by (induction rule: trace.induct) auto

text \<open>What every step keeps holds at the end.\<close>

lemma trace_invariant:
  "trace step m ops rs m' \<Longrightarrow> P m \<Longrightarrow> (\<And>m op r m'. P m \<Longrightarrow> step m op r m' \<Longrightarrow> P m') \<Longrightarrow> P m'"
  by (induction rule: trace.induct) auto

text \<open>Running the calls of an implementation one after the other, collecting their results.\<close>

primrec run_calls :: "('c \<Rightarrow> 's \<Rightarrow> ('s \<times> 'r) option) \<Rightarrow> 'c list \<Rightarrow> 's \<Rightarrow> ('s \<times> 'r list) option" where
  "run_calls exec [] s = Some (s, [])"
| "run_calls exec (c # cs) s = do {
     (s, r) \<leftarrow> exec c s;
     (s, rs) \<leftarrow> run_calls exec cs s;
     Some (s, r # rs) }"

text \<open>
  \<open>op_of\<close> is the abstract call of a concrete one, and \<open>enabled a cs\<close> says that the calls \<open>cs\<close> may follow in
  the state \<open>a\<close>.
\<close>

locale simulation =
  fixes exec :: "'c \<Rightarrow> 's \<Rightarrow> ('s \<times> 'r) option"
    and op_of :: "'c \<Rightarrow> 'op"
    and step :: "'a \<Rightarrow> 'op \<Rightarrow> 'r \<Rightarrow> 'a \<Rightarrow> bool"
    and rel :: "'s \<Rightarrow> 'a \<Rightarrow> bool"
    and enabled :: "'a \<Rightarrow> 'c list \<Rightarrow> bool"
  assumes exec_step: "rel s a \<Longrightarrow> enabled a (c # cs) \<Longrightarrow>
    \<exists>s' r a'. exec c s = Some (s', r) \<and> step a (op_of c) r a' \<and> rel s' a' \<and> enabled a' cs"
begin

lemma run_simulates:
  "rel s a \<Longrightarrow> enabled a cs \<Longrightarrow>
   \<exists>s' rs a'. run_calls exec cs s = Some (s', rs) \<and> trace step a (map op_of cs) rs a' \<and> rel s' a' \<and> enabled a' []"
proof (induction cs arbitrary: s a)
  case Nil
  then show ?case by (auto intro: trace_nil)
next
  case (Cons c cs)
  from exec_step [OF Cons.prems] obtain s1 r a1 where
    1: "exec c s = Some (s1, r)" "step a (op_of c) r a1" "rel s1 a1" "enabled a1 cs" by blast
  from Cons.IH [OF 1(3,4)] 1(1,2) show ?case by (fastforce intro: trace_cons)
qed

end

end
