(* ===== verification/Shl_Dict.thy ===== *)
theory Shl_Dict
  imports Shl_Trace "HOL-Library.Multiset"
begin

text \<open>
  The contracts of the two containers of caller-owned entries. \<open>dict_step\<close> is the abstract machine
  of the trie (a finite map that refuses a key already present), \<open>bag_step\<close> that of the hash table
  (a multiset in which several entries may have the same key). The locale \<open>container\<close> says that an
  implementation takes the steps of such a machine, and \<open>run_refines\<close> is what clients get: every
  sequence of calls returns what the machine allows. The locales \<open>dict\<close> and \<open>bag\<close> state the laws
  the way the headers document them; each is a \<open>container\<close>.
\<close>

subsection \<open>The abstract machines\<close>

datatype ('k, 'v) dict_op = Lookup 'k | Insert 'v | Remove 'k

datatype 'v dict_res = Found "'v option" | Status "unit res"

inductive dict_step ::
  "('v \<Rightarrow> 'k) \<Rightarrow> ('k \<rightharpoonup> 'v) \<Rightarrow> ('k, 'v) dict_op \<Rightarrow> 'v dict_res \<Rightarrow> ('k \<rightharpoonup> 'v) \<Rightarrow> bool"
  for key_of :: "'v \<Rightarrow> 'k" where
  step_lookup: "dict_step key_of m (Lookup k) (Found (m k)) m"
| step_insert: "key_of e \<notin> dom m \<Longrightarrow> dict_step key_of m (Insert e) (Status ok) (m(key_of e \<mapsto> e))"
| step_nomem: "key_of e \<notin> dom m \<Longrightarrow> dict_step key_of m (Insert e) (Status (Inl ENOMEM)) m"
| step_already: "key_of e \<in> dom m \<Longrightarrow> dict_step key_of m (Insert e) (Status (Inl EALREADY)) m"
| step_remove: "dict_step key_of m (Remove k) (Found (m k)) (m(k := None))"

inductive_simps dict_step_lookup [simp]: "dict_step key_of m (Lookup k) r m'"
inductive_simps dict_step_insert: "dict_step key_of m (Insert e) r m'"
inductive_simps dict_step_remove [simp]: "dict_step key_of m (Remove k) r m'"

inductive bag_step ::
  "('v \<Rightarrow> 'k) \<Rightarrow> 'v multiset \<Rightarrow> ('k, 'v) dict_op \<Rightarrow> 'v dict_res \<Rightarrow> 'v multiset \<Rightarrow> bool"
  for key_of :: "'v \<Rightarrow> 'k" where
  bag_hit: "e \<in># M \<Longrightarrow> key_of e = k \<Longrightarrow> bag_step key_of M (Lookup k) (Found (Some e)) M"
| bag_miss: "\<forall>e. e \<in># M \<longrightarrow> key_of e \<noteq> k \<Longrightarrow> bag_step key_of M (Lookup k) (Found None) M"
| bag_insert: "bag_step key_of M (Insert e) (Status ok) (add_mset e M)"
| bag_nomem: "bag_step key_of M (Insert e) (Status (Inl ENOMEM)) M"
| bag_remove: "e \<in># M \<Longrightarrow> key_of e = k \<Longrightarrow> bag_step key_of M (Remove k) (Found (Some e)) (M - {#e#})"
| bag_absent: "\<forall>e. e \<in># M \<longrightarrow> key_of e \<noteq> k \<Longrightarrow> bag_step key_of M (Remove k) (Found None) M"

inductive_simps bag_step_lookup: "bag_step key_of M (Lookup k) r M'"
inductive_simps bag_step_insert: "bag_step key_of M (Insert e) r M'"
inductive_simps bag_step_remove: "bag_step key_of M (Remove k) r M'"

lemma bag_step_size: "bag_step key_of M op r M' \<Longrightarrow> size M' \<le> size M + 1"
  by (induction rule: bag_step.induct) (auto simp: size_Diff_singleton)

text \<open>The entries of a dictionary are filed under their own keys, whatever is done to it.\<close>

lemma dict_step_keys:
  "dict_step key_of m op r m' \<Longrightarrow> (\<And>k e. m k = Some e \<Longrightarrow> key_of e = k) \<Longrightarrow> m' k = Some e \<Longrightarrow> key_of e = k"
  by (induction rule: dict_step.induct) (auto split: if_splits)

lemma trace_dict_keys:
  "trace (dict_step key_of) m ops rs m' \<Longrightarrow> (\<And>k e. m k = Some e \<Longrightarrow> key_of e = k) \<Longrightarrow>
   m' k = Some e \<Longrightarrow> key_of e = k"
  by (induction rule: trace.induct) (auto dest: dict_step_keys)

subsection \<open>Sequences of calls\<close>

text \<open>\<open>alloc\<close> answers the allocation of each call.\<close>

fun dict_run ::
  "('s \<Rightarrow> 'k \<Rightarrow> 'v option option) \<Rightarrow> ('m \<Rightarrow> 's \<Rightarrow> 'v \<Rightarrow> ('s \<times> unit res) option) \<Rightarrow>
   ('s \<Rightarrow> 'k \<Rightarrow> ('s \<times> 'v option) option) \<Rightarrow> (nat \<Rightarrow> 's \<Rightarrow> 'm) \<Rightarrow>
   ('k, 'v) dict_op list \<Rightarrow> 's \<Rightarrow> ('s \<times> 'v dict_res list) option" where
  "dict_run lookup ins rem alloc [] s = Some (s, [])"
| "dict_run lookup ins rem alloc (Lookup k # ops) s = do {
     r \<leftarrow> lookup s k;
     (s, rs) \<leftarrow> dict_run lookup ins rem alloc ops s;
     Some (s, Found r # rs) }"
| "dict_run lookup ins rem alloc (Insert e # ops) s = do {
     (s, r) \<leftarrow> ins (alloc (length ops) s) s e;
     (s, rs) \<leftarrow> dict_run lookup ins rem alloc ops s;
     Some (s, Status r # rs) }"
| "dict_run lookup ins rem alloc (Remove k # ops) s = do {
     (s, r) \<leftarrow> rem s k;
     (s, rs) \<leftarrow> dict_run lookup ins rem alloc ops s;
     Some (s, Found r # rs) }"

fun dict_op_ok :: "('k \<Rightarrow> bool) \<Rightarrow> ('v \<Rightarrow> bool) \<Rightarrow> ('k, 'v) dict_op \<Rightarrow> bool" where
  "dict_op_ok valid_key valid_entry (Lookup k) \<longleftrightarrow> valid_key k"
| "dict_op_ok valid_key valid_entry (Insert e) \<longleftrightarrow> valid_entry e"
| "dict_op_ok valid_key valid_entry (Remove k) \<longleftrightarrow> valid_key k"

subsection \<open>Containers\<close>

text \<open>
  \<open>fresh\<close> is what an answer of the allocator must satisfy, \<open>enough\<close> that it is not a failure. An
  implementation may only promise its steps below some size: \<open>cap\<close> measures the abstract state, a
  step adds at most \<open>cost\<close> to it, and insertions need it below \<open>limit\<close>.
\<close>

locale container =
  fixes rel :: "'s \<Rightarrow> 'a \<Rightarrow> bool"
    and step :: "'a \<Rightarrow> ('k, 'v) dict_op \<Rightarrow> 'v dict_res \<Rightarrow> 'a \<Rightarrow> bool"
    and cap :: "'a \<Rightarrow> nat" and cost :: nat and limit :: nat
    and valid_key :: "'k \<Rightarrow> bool" and valid_entry :: "'v \<Rightarrow> bool"
    and fresh :: "'m \<Rightarrow> 's \<Rightarrow> bool" and enough :: "'m \<Rightarrow> bool"
    and lookup :: "'s \<Rightarrow> 'k \<Rightarrow> 'v option option"
    and ins :: "'m \<Rightarrow> 's \<Rightarrow> 'v \<Rightarrow> ('s \<times> unit res) option"
    and rem :: "'s \<Rightarrow> 'k \<Rightarrow> ('s \<times> 'v option) option"
  assumes lookup_step: "rel s m \<Longrightarrow> valid_key k \<Longrightarrow> \<exists>r. lookup s k = Some r \<and> step m (Lookup k) (Found r) m"
    and insert_step: "rel s m \<Longrightarrow> valid_entry e \<Longrightarrow> fresh a s \<Longrightarrow> cap m < limit \<Longrightarrow>
      \<exists>s' r m'. ins a s e = Some (s', r) \<and> rel s' m' \<and> step m (Insert e) (Status r) m' \<and>
        (enough a \<longrightarrow> r \<noteq> Inl ENOMEM)"
    and remove_step: "rel s m \<Longrightarrow> valid_key k \<Longrightarrow>
      \<exists>s' r m'. rem s k = Some (s', r) \<and> rel s' m' \<and> step m (Remove k) (Found r) m'"
    and cap_step: "step m op r m' \<Longrightarrow> cap m' \<le> cap m + cost"
begin

lemma run_refines:
  assumes "rel s m" "list_all (dict_op_ok valid_key valid_entry) ops" "\<And>i s. fresh (alloc i s) s"
    and "cap m + cost * length ops < limit"
  shows "\<exists>s' rs m'. dict_run lookup ins rem alloc ops s = Some (s', rs) \<and> rel s' m' \<and>
    trace step m ops rs m' \<and>
    ((\<forall>i s m. rel s m \<longrightarrow> enough (alloc i s)) \<longrightarrow> Status (Inl ENOMEM) \<notin> set rs)"
  using assms(1,2,4)
proof (induction ops arbitrary: s m)
  case Nil
  then show ?case by (auto intro: trace_nil)
next
  case (Cons op ops)
  have ops: "list_all (dict_op_ok valid_key valid_entry) ops" using Cons.prems by simp
  have ih: "\<exists>s' rs m'. dict_run lookup ins rem alloc ops s1 = Some (s', rs) \<and> rel s' m' \<and>
      trace step m (op # ops) (r # rs) m' \<and>
      ((\<forall>i s m. rel s m \<longrightarrow> enough (alloc i s)) \<longrightarrow> Status (Inl ENOMEM) \<notin> set rs)"
    if "rel s1 m1" "step m op r m1" for s1 m1 r
  proof -
    have "cap m1 + cost * length ops < limit" using cap_step [OF that(2)] Cons.prems(3) by simp
    from Cons.IH [OF that(1) ops this] that(2) show ?thesis by (blast intro: trace_cons)
  qed
  show ?case
  proof (cases op)
    case (Lookup k)
    with lookup_step [OF Cons.prems(1), of k] Cons.prems obtain r where
      "lookup s k = Some r" "step m op (Found r) m" by auto
    with ih [OF Cons.prems(1) this(2)] Lookup show ?thesis by fastforce
  next
    case (Insert e)
    have "cap m < limit" using Cons.prems(3) by simp
    with insert_step [OF Cons.prems(1) _ assms(3) [of "length ops" s], of e] Cons.prems(2) Insert
    obtain s1 r m1 where i: "ins (alloc (length ops) s) s e = Some (s1, r)" "rel s1 m1"
      "step m op (Status r) m1" "enough (alloc (length ops) s) \<longrightarrow> r \<noteq> Inl ENOMEM" by auto
    with ih [OF i(2,3)] Insert Cons.prems(1) show ?thesis by fastforce
  next
    case (Remove k)
    with remove_step [OF Cons.prems(1), of k] Cons.prems obtain s1 r m1 where
      r: "rem s k = Some (s1, r)" "rel s1 m1" "step m op (Found r) m1" by auto
    with ih [OF r(2,3)] Remove show ?thesis by fastforce
  qed
qed

end

text \<open>The laws of a dictionary.\<close>

locale dict =
  fixes rel :: "'s \<Rightarrow> ('k \<rightharpoonup> 'v) \<Rightarrow> bool"
    and valid_key :: "'k \<Rightarrow> bool" and valid_entry :: "'v \<Rightarrow> bool" and key_of :: "'v \<Rightarrow> 'k"
    and fresh :: "'m \<Rightarrow> 's \<Rightarrow> bool" and enough :: "'m \<Rightarrow> bool"
    and lookup :: "'s \<Rightarrow> 'k \<Rightarrow> 'v option option"
    and ins :: "'m \<Rightarrow> 's \<Rightarrow> 'v \<Rightarrow> ('s \<times> unit res) option"
    and rem :: "'s \<Rightarrow> 'k \<Rightarrow> ('s \<times> 'v option) option"
  assumes lookup_law: "rel s m \<Longrightarrow> valid_key k \<Longrightarrow> lookup s k = Some (m k)"
    and insert_law: "rel s m \<Longrightarrow> valid_entry e \<Longrightarrow> fresh a s \<Longrightarrow>
      \<exists>s' r m'. ins a s e = Some (s', r) \<and> rel s' m' \<and> dict_step key_of m (Insert e) (Status r) m' \<and>
        (enough a \<longrightarrow> r \<noteq> Inl ENOMEM)"
    and remove_law: "rel s m \<Longrightarrow> valid_key k \<Longrightarrow> \<exists>s'. rem s k = Some (s', m k) \<and> rel s' (m(k := None))"

sublocale dict \<subseteq> container rel "dict_step key_of" "\<lambda>_. 0" 0 1 valid_key valid_entry fresh enough lookup ins rem
proof
  show "\<exists>s' r m'. rem s k = Some (s', r) \<and> rel s' m' \<and> dict_step key_of m (Remove k) (Found r) m'"
    if "rel s m" "valid_key k" for s m k
    using remove_law [OF that] by fastforce
qed (use lookup_law insert_law in auto)

text \<open>The laws of a table of objects with hashable keys.\<close>

locale bag =
  fixes rel :: "'s \<Rightarrow> 'v multiset \<Rightarrow> bool"
    and valid_entry :: "'v \<Rightarrow> bool" and key_of :: "'v \<Rightarrow> 'k" and limit :: nat
    and enough :: "'m \<Rightarrow> bool"
    and lookup :: "'s \<Rightarrow> 'k \<Rightarrow> 'v option option"
    and ins :: "'m \<Rightarrow> 's \<Rightarrow> 'v \<Rightarrow> ('s \<times> unit res) option"
    and rem :: "'s \<Rightarrow> 'k \<Rightarrow> ('s \<times> 'v option) option"
  assumes bag_lookup: "rel s M \<Longrightarrow> \<exists>r. lookup s k = Some r \<and>
      (case r of None \<Rightarrow> \<forall>e. e \<in># M \<longrightarrow> key_of e \<noteq> k | Some e \<Rightarrow> e \<in># M \<and> key_of e = k)"
    and bag_ins: "rel s M \<Longrightarrow> valid_entry e \<Longrightarrow> size M < limit \<Longrightarrow>
      (\<exists>s'. ins a s e = Some (s', ok) \<and> rel s' (add_mset e M)) \<or> ins a s e = Some (s, Inl ENOMEM) \<and> \<not> enough a"
    and bag_rem: "rel s M \<Longrightarrow> \<exists>s' r. rem s k = Some (s', r) \<and>
      (case r of None \<Rightarrow> rel s' M \<and> (\<forall>e. e \<in># M \<longrightarrow> key_of e \<noteq> k)
       | Some e \<Rightarrow> rel s' (M - {#e#}) \<and> e \<in># M \<and> key_of e = k)"

sublocale bag \<subseteq> container rel "bag_step key_of" size 1 limit "\<lambda>_. True" valid_entry "\<lambda>_ _. True" enough lookup ins rem
proof
  show "\<exists>r. lookup s k = Some r \<and> bag_step key_of M (Lookup k) (Found r) M" if "rel s M" for s M k
    using bag_lookup [OF that, of k] by (auto simp: bag_step_lookup split: option.splits)
  show "\<exists>s' r m'. ins a s e = Some (s', r) \<and> rel s' m' \<and> bag_step key_of M (Insert e) (Status r) m' \<and>
      (enough a \<longrightarrow> r \<noteq> Inl ENOMEM)" if "rel s M" "valid_entry e" "size M < limit" for s M e a
    using bag_ins [OF that, of a] that(1) by (auto simp: bag_step_insert)
  show "\<exists>s' r m'. rem s k = Some (s', r) \<and> rel s' m' \<and> bag_step key_of M (Remove k) (Found r) m'"
    if "rel s M" for s M k
  proof -
    from bag_rem [OF that, of k] obtain s' r where "rem s k = Some (s', r)"
      "case r of None \<Rightarrow> rel s' M \<and> (\<forall>e. e \<in># M \<longrightarrow> key_of e \<noteq> k)
       | Some e \<Rightarrow> rel s' (M - {#e#}) \<and> e \<in># M \<and> key_of e = k" by blast
    then show ?thesis by (cases r) (auto simp: bag_step_remove)
  qed
qed (rule bag_step_size)

end
