(* ===== verification/Shl_Trie_Ops.thy ===== *)
theory Shl_Trie_Ops
  imports Shl_Trie_Tree Shl_Dict
begin

text \<open>
  The heap code of \<^verbatim>\<open>src/shl_trie.c\<close> implements crit-bit trees: \<open>repr\<close> relates a heap with a tree,
  \<open>trie_ok\<close> is the invariant of a \<^verbatim>\<open>struct shl_trie\<close>, and lookup, insertion and removal refine the
  operations of a finite map from keys to entries (the interface \<open>dict\<close>).
\<close>

subsection \<open>Representation\<close>

primrec repr :: "heap \<Rightarrow> ctree \<Rightarrow> bool" where
  "repr h (Leaf a) \<longleftrightarrow> aligned a \<and> a \<noteq> 0"
| "repr h (Branch a b ob l r) \<longleftrightarrow> aligned a \<and>
     h a = Some \<lparr>childs0 = tptr l, childs1 = tptr r, n_byte = b, n_otherbits = ob\<rparr> \<and>
     repr h l \<and> repr h r"

definition kof :: "keys \<Rightarrow> ptr \<Rightarrow> u8 list" where
  "kof K a = (case K a of None \<Rightarrow> [] | Some k \<Rightarrow> k)"

text \<open>A C string that fits the address space: no NUL inside, and its length is a \<^verbatim>\<open>size_t\<close>.\<close>

definition cstring :: "u8 list \<Rightarrow> bool" where
  "cstring k \<longleftrightarrow> 0 \<notin> set k \<and> length k < 2 ^ 64"

definition entry_ok :: "keys \<Rightarrow> ptr \<Rightarrow> bool" where
  "entry_ok K e \<longleftrightarrow> aligned e \<and> e \<noteq> 0 \<and> (\<exists>k. K e = Some k \<and> cstring k)"

fun trie_ok :: "keys \<Rightarrow> heap \<Rightarrow> ptr \<Rightarrow> ctree option \<Rightarrow> bool" where
  "trie_ok K h root None \<longleftrightarrow> root = 0 \<and> h = Map.empty"
| "trie_ok K h root (Some t) \<longleftrightarrow> root = tptr t \<and> repr h t \<and> cwf (kof K) t \<and> distinct (naddrs t) \<and>
     dom h = set (naddrs t) \<and> (\<forall>e\<in>set (leaves t). entry_ok K e)"

definition trie_map :: "keys \<Rightarrow> ctree option \<Rightarrow> u8 list \<Rightarrow> ptr option" where
  "trie_map K t k = find (\<lambda>e. kof K e = k) (oleaves t)"

lemma tptr_tags [simp]:
  assumes "repr h t"
  shows "\<not> shl_trie_is_visited (tptr t)" "tptr t \<noteq> 0"
  using assms by (cases t; simp)+

lemma repr_frame: "repr h t \<Longrightarrow> (\<And>a. a \<in> set (naddrs t) \<Longrightarrow> h' a = h a) \<Longrightarrow> repr h' t"
  by (induction t) auto

lemma repr_upd [simp]: "a \<notin> set (naddrs t) \<Longrightarrow> repr (h(a := v)) t = repr h t"
  by (induction t) auto

lemma repr_cleaf: "repr h t \<Longrightarrow> aligned (cleaf k t) \<and> cleaf k t \<noteq> 0"
  by (induction t) auto

lemma kof_eq: "K e = Some k \<Longrightarrow> kof K e = k"
  by (simp add: kof_def)

lemma cstring_unat [simp]: "cstring k \<Longrightarrow> unat (of_nat (length k) :: size_t) = length k"
  by (simp add: cstring_def unat_of_nat)

text \<open>The step of a descent at a represented node.\<close>

lemma node_step:
  assumes "repr h (Branch a b ob l r)" "cwf kf (Branch a b ob l r)" "unat kl = length k"
  obtains node c where "h a = Some node" "node_char k kl node = Some c"
    "n_byte node = b" "n_otherbits node = ob"
    "trie_direction ob c = of_bool (kbit k (cpos b ob))"
    "childs node (of_bool (kbit k (cpos b ob))) = tptr (if kbit k (cpos b ob) then r else l)"
    "node = \<lparr>childs0 = tptr l, childs1 = tptr r, n_byte = b, n_otherbits = ob\<rparr>"
proof -
  let ?n = "\<lparr>childs0 = tptr l, childs1 = tptr r, n_byte = b, n_otherbits = ob\<rparr>"
  have "ob_ok ob" using assms(2) by simp
  from descend_step [OF this assms(3), of ?n b] obtain c where
    "node_char k kl ?n = Some c" "trie_direction ob c = of_bool (kbit k (cpos b ob))" by auto
  with assms(1) that [of ?n c] show ?thesis by (simp add: childs_def)
qed

subsection \<open>Lookup\<close>

lemma trie_walk_correct:
  "repr h t \<Longrightarrow> cwf kf t \<Longrightarrow> unat kl = length k \<Longrightarrow> trie_walk h k kl (tptr t) = Some (cleaf k t)"
proof (induction t)
  case (Leaf a)
  then show ?case by (subst trie_walk.simps) simp
next
  case (Branch a b ob l r)
  from node_step [OF Branch.prems(1,2,3)] obtain node c where
    "h a = Some node" "node_char k kl node = Some c" "n_otherbits node = ob"
    "trie_direction ob c = of_bool (kbit k (cpos b ob))"
    "childs node (of_bool (kbit k (cpos b ob))) = tptr (if kbit k (cpos b ob) then r else l)"
    by metis
  with Branch show ?case by (subst trie_walk.simps) simp
qed

lemma trie_map_cleaf:
  assumes "cwf (kof K) t"
  shows "trie_map K (Some t) k = (if kof K (cleaf k t) = k then Some (cleaf k t) else None)"
proof (cases "find (\<lambda>e. kof K e = k) (leaves t)")
  case None
  then have "kof K (cleaf k t) \<noteq> k"
    using cleaf_in [of k t] by (auto simp: find_None_iff simp del: cleaf_in)
  with None show ?thesis by (simp add: trie_map_def oleaves_def)
next
  case (Some e)
  then have "kof K e = k" "e \<in> set (leaves t)" by (auto simp: find_Some_iff)
  with cleaf_unique [OF assms, of e k] Some show ?thesis by (simp add: trie_map_def oleaves_def)
qed

lemma trie_lookup_correct:
  assumes "trie_ok K h root t" "cstring k" "unat kl = length k"
  shows "shl_trie_lookup K h root k kl = Some (trie_map K t k)"
proof (cases t)
  case None
  with assms(1) show ?thesis by (simp add: shl_trie_lookup_def trie_map_def oleaves_def)
next
  case (Some t')
  with assms have *: "root = tptr t'" "repr h t'" "cwf (kof K) t'" "entry_ok K (cleaf k t')"
    by auto
  then obtain ek where "K (cleaf k t') = Some ek" "aligned (cleaf k t')"
    by (auto simp: entry_ok_def)
  with * assms(3) show ?thesis
    by (auto simp: shl_trie_lookup_def trie_walk_correct Some trie_map_cleaf kof_eq)
qed

lemma repr_dom: "repr h t \<Longrightarrow> set (naddrs t) \<subseteq> dom h"
  by (induction t) auto

subsection \<open>Updates through a slot\<close>

text \<open>
  \<open>slot_upd\<close>: the heap and the root after an operation below the slot \<open>s\<close> that stores \<open>v\<close> there and
  changes nothing else outside the addresses in \<open>A\<close>.
\<close>

definition slot_upd :: "heap \<Rightarrow> ptr \<Rightarrow> trie_slot \<Rightarrow> ptr \<Rightarrow> ptr set \<Rightarrow> heap \<Rightarrow> ptr \<Rightarrow> bool" where
  "slot_upd h root s v A h' root' \<longleftrightarrow>
     (\<exists>h0. write_slot h root s v = Some (h0, root') \<and> (\<forall>a. a \<notin> A \<longrightarrow> h' a = h0 a))"

fun slot_out :: "trie_slot \<Rightarrow> ptr set \<Rightarrow> bool" where
  "slot_out Root A \<longleftrightarrow> True"
| "slot_out (Child a d) A \<longleftrightarrow> a \<notin> A \<and> (d = 0 \<or> d = 1)"

lemma write_slot_same: "read_slot h root s = Some v \<Longrightarrow> slot_out s A \<Longrightarrow> write_slot h root s v = Some (h, root)"
  by (cases s) (auto simp: fun_upd_idem_iff split: bind_splits)

lemma slot_upd_same:
  assumes "read_slot h root s = Some v" "slot_out s A" "\<And>a. a \<notin> A \<Longrightarrow> h' a = h a"
  shows "slot_upd h root s v A h' root"
  using assms write_slot_same [OF assms(1,2)] by (auto simp: slot_upd_def)

lemma slot_upd_child:
  assumes "slot_upd h root (Child a d) v A h' root'" "h a = Some node" "a \<notin> A"
  shows "h' a = Some (set_childs node d v)" "root' = root" "\<And>x. x \<notin> insert a A \<Longrightarrow> h' x = h x"
  using assms by (auto simp: slot_upd_def split: if_splits)

lemma read_slot_child:
  "h a = Some node \<Longrightarrow> read_slot h root (Child a d) = Some (childs node d)"
  by simp

subsection \<open>Insertion\<close>

text \<open>The new node as \<^verbatim>\<open>shl_trie_insert\<close> fills it before it is linked.\<close>

definition new_node :: "u8 list \<Rightarrow> ptr \<Rightarrow> size_t \<Rightarrow> u8 \<Rightarrow> ptr \<Rightarrow> trie_node" where
  "new_node k e b ob old =
     (if kbit k (cpos b ob) then \<lparr>childs0 = old, childs1 = e, n_byte = b, n_otherbits = ob\<rparr>
      else \<lparr>childs0 = e, childs1 = old, n_byte = b, n_otherbits = ob\<rparr>)"

definition link_ok ::
  "heap \<Rightarrow> ptr \<Rightarrow> trie_slot \<Rightarrow> trie_slot \<Rightarrow> u8 list \<Rightarrow> ptr \<Rightarrow> ptr \<Rightarrow> size_t \<Rightarrow> u8 \<Rightarrow> ctree \<Rightarrow> bool" where
  "link_ok h root s s' k n e b ob t \<longleftrightarrow>
     (\<exists>old h' root'. read_slot h root s' = Some old \<and>
        write_slot (h(n \<mapsto> new_node k e b ob old)) root s' (shl_trie_make_node n) = Some (h', root') \<and>
        repr h' (cins k n e b ob t) \<and>
        slot_upd h root s (tptr (cins k n e b ob t)) (insert n (set (naddrs t))) h' root')"

lemma link_here:
  assumes "read_slot h root s = Some (tptr t)" "repr h t" "slot_out s (insert n (set (naddrs t)))"
    and "n \<notin> set (naddrs t)" "aligned n" "repr h (Leaf e)" "cins k n e b ob t = cjoin k n e b ob t"
  shows "link_ok h root s s k n e b ob t"
  using assms unfolding link_ok_def slot_upd_def
  by (cases s) (auto simp: cjoin_def new_node_def split: bind_splits)

lemma trie_place_correct:
  assumes "read_slot h root s = Some (tptr t)" "repr h t" "cwf kf t" "distinct (naddrs t)"
    and "slot_out s (insert n (set (naddrs t)))" "n \<notin> set (naddrs t)" "aligned n" "repr h (Leaf e)"
    and "ob_ok ob" "unat kl = length k"
  shows "\<exists>s'. trie_place h root k kl b ob s = Some s' \<and> link_ok h root s s' k n e b ob t"
  using assms(1-6)
proof (induction t arbitrary: s)
  case (Leaf a)
  then have "link_ok h root s s k n e b ob (Leaf a)" using assms by (intro link_here) auto
  with Leaf show ?case by (subst trie_place.simps) simp
next
  case (Branch a b' ob' l r)
  let ?t = "Branch a b' ob' l r" and ?d = "kbit k (cpos b' ob')"
  from node_step [OF Branch.prems(2,3) assms(10)] obtain node c where
    node: "h a = Some node" "node_char k kl node = Some c" "n_byte node = b'" "n_otherbits node = ob'"
      "trie_direction ob' c = of_bool ?d" "childs node (of_bool ?d) = tptr (if ?d then r else l)"
      "node = \<lparr>childs0 = tptr l, childs1 = tptr r, n_byte = b', n_otherbits = ob'\<rparr>"
    by metis
  have al: "aligned a" and "ob_ok ob'" using Branch.prems by auto
  then have lt: "cpos b ob < cpos b' ob' \<longleftrightarrow> b < b' \<or> b = b' \<and> ob < ob'"
    using assms(9) by (simp add: cpos_less_iff)
  have place: "trie_place h root k kl b ob s =
    (if cpos b ob < cpos b' ob' then Some s else trie_place h root k kl b ob (Child a (of_bool ?d)))"
    using Branch.prems(1) al node(1-5) by (subst trie_place.simps) (auto simp: lt)
  show ?case
  proof (cases "cpos b ob < cpos b' ob'")
    case True
    then have "link_ok h root s s k n e b ob ?t"
      using Branch.prems assms by (intro link_here) auto
    with True place show ?thesis by simp
  next
    case False
    define c where "c = (if ?d then r else l)"
    have "\<exists>s'. trie_place h root k kl b ob (Child a (of_bool ?d)) = Some s' \<and>
        link_ok h root (Child a (of_bool ?d)) s' k n e b ob c"
      using Branch.IH Branch.prems node(1,6) by (auto simp: c_def)
    then obtain s' where s': "trie_place h root k kl b ob (Child a (of_bool ?d)) = Some s'"
      "link_ok h root (Child a (of_bool ?d)) s' k n e b ob c" by blast
    from s'(2) obtain old h' root' where
      w: "read_slot h root s' = Some old"
      "write_slot (h(n \<mapsto> new_node k e b ob old)) root s' (shl_trie_make_node n) = Some (h', root')"
      "repr h' (cins k n e b ob c)"
      "slot_upd h root (Child a (of_bool ?d)) (tptr (cins k n e b ob c)) (insert n (set (naddrs c))) h' root'"
      unfolding link_ok_def by blast
    have out: "a \<notin> insert n (set (naddrs c))"
      using Branch.prems by (auto simp: c_def)
    note h' = slot_upd_child [OF w(4) node(1) out]
    have "repr h' (cins k n e b ob ?t)"
    proof (cases ?d)
      case True
      have "repr h' l"
        using Branch.prems h'(3) True by (intro repr_frame [where h = h and h' = h']) (auto simp: c_def disjoint_iff intro!: h'(3))
      with True False w(3) h'(1) al node(7) show ?thesis by (simp add: c_def)
    next
      case d: False
      have "repr h' r"
        using Branch.prems h'(3) d by (intro repr_frame [where h = h and h' = h']) (auto simp: c_def disjoint_iff intro!: h'(3))
      with d False w(3) h'(1) al node(7) show ?thesis by (simp add: c_def)
    qed
    moreover have "slot_upd h root s (tptr (cins k n e b ob ?t)) (insert n (set (naddrs ?t))) h' root'"
      using Branch.prems False h'(2,3) by (auto intro!: slot_upd_same simp: c_def)
    ultimately have "link_ok h root s s' k n e b ob ?t"
      using w(1,2) unfolding link_ok_def by blast
    with False place s'(1) show ?thesis by simp
  qed
qed

lemma distinct_naddrs_cins:
  "distinct (naddrs t) \<Longrightarrow> n \<notin> set (naddrs t) \<Longrightarrow> distinct (naddrs (cins k n e b ob t))"
  by (induction t) (auto simp: cjoin_def)

text \<open>What the code knows when it has compared the new key with the closest entry's.\<close>

lemma insert_diff:
  assumes "cstring k" "cstring ek"
  obtains i where "trie_diff ek k (length k) 0 = Some (i, 0)" "ek = k"
  | i x b where "trie_diff ek k (length k) 0 = Some (i, x)" "x \<noteq> 0" "ek \<noteq> k" "str_at ek i = Some (kbyte ek i)"
      "b = of_nat i" "ob_ok (trie_otherbits x)"
      "kbit k (cpos b (trie_otherbits x)) \<noteq> kbit ek (cpos b (trie_otherbits x))"
      "\<And>q. q < cpos b (trie_otherbits x) \<Longrightarrow> kbit k q = kbit ek q"
      "trie_direction (trie_otherbits x) (kbyte ek i) = of_bool (kbit ek (cpos b (trie_otherbits x)))"
proof -
  from trie_diff_correct [of ek k 0] assms obtain i x where
    d: "trie_diff ek k (length k) 0 = Some (i, x)" "i \<le> length k" "i \<le> length ek"
      "x = kbyte ek i XOR kbyte k i" "\<forall>j<i. kbyte ek j = kbyte k j" "x = 0 \<longrightarrow> ek = k"
    by (auto simp: cstring_def)
  show thesis
  proof (cases "x = 0")
    case True
    with d that(1) [of i] show thesis by simp
  next
    case False
    let ?ob = "trie_otherbits x" and ?b = "of_nat i :: size_t"
    have b: "unat ?b = i" using d(2) assms(1) by (simp add: cstring_def unat_of_nat)
    have ob: "ob_ok ?ob" using False by (rule trie_otherbits_correct)
    have "ek \<noteq> k" using d(4) False by auto
    moreover have "kbit ek (cpos ?b ?ob) \<noteq> kbit k (cpos ?b ?ob)"
      using first_diff_bit(1) [of x ek i k ?b] d(4,5) False b by auto
    moreover have "kbit ek q = kbit k q" if "q < cpos ?b ?ob" for q
      using first_diff_bit(2) [of x ek i k ?b q] d(4,5) False b that by auto
    moreover have "trie_direction ?ob (kbyte ek i) = of_bool (kbit ek (cpos ?b ?ob))"
      using ob by (simp add: trie_direction_correct kbit_cpos b)
    ultimately show thesis
      using d(1,3) False ob by (intro that(2) [of i x ?b]) (auto simp: str_at_kbyte)
  qed
qed

lemma trie_map_iff:
  assumes "cwf (kof K) t"
  shows "trie_map K (Some t) k = Some x \<longleftrightarrow> x \<in> set (leaves t) \<and> kof K x = k"
  using cleaf_unique [OF assms, of x k] by (auto simp: trie_map_cleaf [OF assms])

lemma trie_map_cins:
  assumes "cwf (kof K) t" "cwf (kof K) (cins k n e b ob t)" "kof K e = k"
  shows "trie_map K (Some (cins k n e b ob t)) = (trie_map K (Some t))(k \<mapsto> e)"
proof (rule ext)
  fix k'
  have "trie_map K (Some (cins k n e b ob t)) k' = Some x \<longleftrightarrow> ((trie_map K (Some t))(k \<mapsto> e)) k' = Some x" for x
    using assms trie_map_iff [OF assms(2), of k' x] trie_map_iff [OF assms(1), of k' x]
      trie_map_iff [OF assms(2), of k e] trie_map_iff [OF assms(2), of k x] by auto
  then show "trie_map K (Some (cins k n e b ob t)) k' = ((trie_map K (Some t))(k \<mapsto> e)) k'"
    by (metis not_None_eq)
qed

lemma trie_map_None [simp]: "trie_map K None = Map.empty"
  by (simp add: trie_map_def oleaves_def fun_eq_iff)

text \<open>Insertion of a new key into a trie that is not empty.\<close>

lemma trie_insert_new:
  assumes "trie_ok K h root (Some t)" "entry_ok K e" "K e = Some k" "unat kl = length k"
    and "trie_map K (Some t) k = None" "h n = None" "aligned n"
  shows "\<exists>h' root' t'. shl_trie_insert K (Some n) h root e kl = Some (h', root', ok, Some e) \<and>
     trie_ok K h' root' (Some t') \<and> trie_map K (Some t') = (trie_map K (Some t))(k \<mapsto> e)"
proof -
  from assms(1) have t: "root = tptr t" "repr h t" "cwf (kof K) t" "distinct (naddrs t)"
    "dom h = set (naddrs t)" "\<And>e. e \<in> set (leaves t) \<Longrightarrow> entry_ok K e" by auto
  obtain ek where ek: "K (cleaf k t) = Some ek" "cstring ek" "aligned (cleaf k t)"
    using t(6) [of "cleaf k t"] by (auto simp: entry_ok_def)
  have e: "aligned e" "e \<noteq> 0" "cstring k" using assms(2,3) by (auto simp: entry_ok_def)
  have "ek \<noteq> k" using assms(5) t(3) ek(1) by (auto simp: trie_map_cleaf kof_eq split: if_splits)
  with insert_diff [OF e(3) ek(2)] obtain i x b where
    d: "trie_diff ek k (length k) 0 = Some (i, x)" "x \<noteq> 0" "str_at ek i = Some (kbyte ek i)"
      "b = of_nat i" "ob_ok (trie_otherbits x)"
      "kbit k (cpos b (trie_otherbits x)) \<noteq> kbit ek (cpos b (trie_otherbits x))"
      "\<And>q. q < cpos b (trie_otherbits x) \<Longrightarrow> kbit k q = kbit ek q"
      "trie_direction (trie_otherbits x) (kbyte ek i) = of_bool (kbit ek (cpos b (trie_otherbits x)))"
    by metis
  define ob where "ob = trie_otherbits x"
  have n: "n \<notin> set (naddrs t)" using assms(6) t(5) by (metis domIff)
  from trie_place_correct [of h root Root t "kof K" n e ob kl k b] t n assms(4,7) e d(5)
  obtain s' where s': "trie_place h root k kl b ob Root = Some s'" "link_ok h root Root s' k n e b ob t"
    by (auto simp: ob_def)
  from s'(2) obtain old h' root' where w: "read_slot h root s' = Some old"
    "write_slot (h(n \<mapsto> new_node k e b ob old)) root s' (shl_trie_make_node n) = Some (h', root')"
    "repr h' (cins k n e b ob t)" "root' = tptr (cins k n e b ob t)"
    "\<And>a. a \<notin> insert n (set (naddrs t)) \<Longrightarrow> h' a = h a"
    unfolding link_ok_def slot_upd_def by auto
  have cwf: "cwf (kof K) (cins k n e b ob t)"
    using t(3) assms(3) d(5-7) ek(1) by (intro cwf_cins) (auto simp: kof_eq ob_def)
  have "h' a = None" if "a \<notin> insert n (set (naddrs t))" for a
    using w(5) [OF that] that t(5) by (auto simp: domIff)
  then have "dom h' \<subseteq> insert n (set (naddrs t))" by (metis domIff subsetI)
  with repr_dom [OF w(3)] have "dom h' = set (naddrs (cins k n e b ob t))" by auto
  then have "trie_ok K h' root' (Some (cins k n e b ob t))"
    using w(3,4) cwf t(4,6) n assms(2) by (auto intro: distinct_naddrs_cins)
  moreover have node: "set_childs (set_childs \<lparr>childs0 = 0, childs1 = 0, n_byte = b, n_otherbits = ob\<rparr>
      (of_bool (kbit ek (cpos b ob)) XOR 1) e) (of_bool (kbit ek (cpos b ob))) old = new_node k e b ob old"
    using d(6) by (auto simp: new_node_def set_childs_def ob_def)
  have "shl_trie_insert K (Some n) h root e kl = Some (h', root', ok, Some e)"
    using t(1-3) ek e d(1-3,8) assms(3,4) w(1,2) s'(1) node
    by (simp add: shl_trie_insert_def trie_walk_correct shl_check_alignment_def aligned_def
        shl_trie_alloc_node_def shl_trie_alloc_def shl_trie_make_entry_def Let_def flip: ob_def d(4))
  ultimately show ?thesis
    using trie_map_cins [OF t(3) cwf kof_eq [of K, OF assms(3)]] by blast
qed

lemma trie_insert_old:
  assumes "trie_ok K h root t" "entry_ok K e" "K e = Some k" "unat kl = length k"
    and "trie_map K t k = Some e'"
  shows "shl_trie_insert K mem h root e kl = Some (h, root, Inl EALREADY, Some e')"
proof -
  from assms(1,5) obtain t' where t': "t = Some t'" by (cases t) (auto simp: trie_map_def oleaves_def)
  with assms(1) have t: "root = tptr t'" "repr h t'" "cwf (kof K) t'"
    "\<And>e. e \<in> set (leaves t') \<Longrightarrow> entry_ok K e" by auto
  obtain ek where ek: "K (cleaf k t') = Some ek" "cstring ek" "aligned (cleaf k t')"
    using t(4) [of "cleaf k t'"] by (auto simp: entry_ok_def)
  have e: "aligned e" "e \<noteq> 0" "cstring k" using assms(2,3) by (auto simp: entry_ok_def)
  have "ek = k" "e' = cleaf k t'"
    using assms(5) t(3) ek(1) t' by (auto simp: trie_map_cleaf kof_eq split: if_splits)
  with insert_diff [OF e(3) ek(2)] obtain i where "trie_diff ek k (length k) 0 = Some (i, 0)" by metis
  with t ek e \<open>e' = _\<close> assms(3,4) show ?thesis
    by (simp add: shl_trie_insert_def trie_walk_correct shl_check_alignment_def aligned_def
        shl_trie_make_entry_def)
qed

lemma trie_insert_nomem:
  assumes "trie_ok K h root (Some t)" "entry_ok K e" "K e = Some k" "unat kl = length k"
    and "trie_map K (Some t) k = None"
  shows "shl_trie_insert K None h root e kl = Some (h, root, Inl ENOMEM, None)"
proof -
  from assms(1) have t: "root = tptr t" "repr h t" "cwf (kof K) t"
    "\<And>e. e \<in> set (leaves t) \<Longrightarrow> entry_ok K e" by auto
  obtain ek where ek: "K (cleaf k t) = Some ek" "cstring ek" "aligned (cleaf k t)"
    using t(4) [of "cleaf k t"] by (auto simp: entry_ok_def)
  have e: "aligned e" "e \<noteq> 0" "cstring k" using assms(2,3) by (auto simp: entry_ok_def)
  have "ek \<noteq> k" using assms(5) t(3) ek(1) by (auto simp: trie_map_cleaf kof_eq split: if_splits)
  with insert_diff [OF e(3) ek(2)] obtain i x where
    "trie_diff ek k (length k) 0 = Some (i, x)" "x \<noteq> 0" "str_at ek i = Some (kbyte ek i)" by metis
  with t ek e assms(3,4) show ?thesis
    by (simp add: shl_trie_insert_def trie_walk_correct shl_check_alignment_def aligned_def
        shl_trie_alloc_node_def shl_trie_alloc_def shl_trie_make_entry_def)
qed

lemma trie_insert_empty:
  assumes "trie_ok K h root None" "entry_ok K e" "K e = Some k"
  shows "shl_trie_insert K mem h root e kl = Some (h, e, ok, None)"
    "trie_ok K h e (Some (Leaf e))" "trie_map K (Some (Leaf e)) = [k \<mapsto> e]"
  using assms
  by (auto simp: shl_trie_insert_def shl_check_alignment_def aligned_def entry_ok_def
      shl_trie_make_entry_def trie_map_def oleaves_def kof_eq fun_eq_iff)

subsection \<open>Removal\<close>

definition unlink_ok ::
  "heap \<Rightarrow> ptr \<Rightarrow> trie_slot \<Rightarrow> trie_slot \<Rightarrow> ptr \<Rightarrow> u16 \<Rightarrow> u8 list \<Rightarrow> ctree \<Rightarrow> bool" where
  "unlink_ok h root s gs n d k t \<longleftrightarrow>
     (\<exists>nd t' h' root'. h n = Some nd \<and> n \<in> set (naddrs t) \<and> childs nd d = cleaf k t \<and> cdel k t = Some t' \<and>
        write_slot h root gs (childs nd (d XOR 1)) = Some (h', root') \<and>
        repr (h'(n := None)) t' \<and> set (naddrs t') = set (naddrs t) - {n} \<and> distinct (naddrs t') \<and>
        slot_upd h root s (tptr t') (set (naddrs t)) (h'(n := None)) root')"

lemma unlink_here:
  assumes "read_slot h root s = Some (tptr t)" "repr h t" "distinct (naddrs t)"
    and "slot_out s (set (naddrs t))" "t = Branch a b ob l r" "kbit k (cpos b ob) = x"
    and "(if x then r else l) = Leaf e"
  shows "unlink_ok h root s s a (of_bool x) k t"
  using assms unfolding unlink_ok_def slot_upd_def
  by (cases s; cases x) (auto simp: childs_def split: bind_splits)

lemma unlink_below:
  assumes "read_slot h root s = Some (tptr t)" "repr h t" "distinct (naddrs t)"
    and "slot_out s (set (naddrs t))" "t = Branch a b ob l r" "kbit k (cpos b ob) = x"
    and "c = (if x then r else l)" "unlink_ok h root (Child a (of_bool x)) gs n d k c"
  shows "unlink_ok h root s gs n d k t"
proof -
  from assms(8) obtain nd t' h' root' where
    u: "h n = Some nd" "childs nd d = cleaf k c" "cdel k c = Some t'"
      "write_slot h root gs (childs nd (d XOR 1)) = Some (h', root')"
      "repr (h'(n := None)) t'" "set (naddrs t') = set (naddrs c) - {n}" "distinct (naddrs t')"
      "slot_upd h root (Child a (of_bool x)) (tptr t') (set (naddrs c)) (h'(n := None)) root'"
      "n \<in> set (naddrs c)"
    unfolding unlink_ok_def by blast
  define h2 where "h2 = h'(n := None)"
  have a: "h a = Some \<lparr>childs0 = tptr l, childs1 = tptr r, n_byte = b, n_otherbits = ob\<rparr>" "aligned a"
    "a \<notin> set (naddrs c)" using assms by auto
  note h2 = slot_upd_child [OF u(8) [folded h2_def] a(1,3)]
  define t2 where "t2 = (if x then Branch a b ob l t' else Branch a b ob t' r)"
  have del: "cdel k t = Some t2" using u(3) assms(5-7) by (auto simp: t2_def)
  have "repr h2 (if x then l else r)"
  proof (rule repr_frame)
    show "repr h (if x then l else r)" using assms(2,5) by simp
    show "h2 a' = h a'" if "a' \<in> set (naddrs (if x then l else r))" for a'
      using that assms(3,5,7) by (intro h2(3)) (auto split: if_splits)
  qed
  then have "repr h2 t2" using h2(1) a(2) u(5) by (cases x) (auto simp: t2_def h2_def)
  moreover have "set (naddrs t2) = set (naddrs t) - {n}"
    using u(6,9) a(3) assms(3,5,7) by (cases x) (auto simp: t2_def)
  moreover have "distinct (naddrs t2)"
    using u(6,7) assms(3,5,7) by (cases x) (auto simp: t2_def)
  moreover have "slot_upd h root s (tptr t2) (set (naddrs t)) h2 root'"
    unfolding h2(2) using assms h2(3) by (intro slot_upd_same) (auto simp: t2_def)
  moreover have "childs nd d = cleaf k t" "n \<in> set (naddrs t)"
    using u(2,9) assms(5-7) by auto
  ultimately show ?thesis
    unfolding unlink_ok_def h2_def using u(1,4) del by blast
qed

lemma trie_find_leaf:
  "read_slot h root s = Some (tptr (Leaf a)) \<Longrightarrow> repr h (Leaf a) \<Longrightarrow>
   trie_find h root k kl up s = Some (up, s)"
  by (subst trie_find.simps) simp

lemma trie_find_correct:
  assumes "read_slot h root s = Some (tptr t)" "repr h t" "cwf kf t" "distinct (naddrs t)"
    and "slot_out s (set (naddrs t))" "naddrs t \<noteq> []" "unat kl = length k"
  shows "\<exists>gs n d. trie_find h root k kl up s = Some (Some (gs, n, d), Child n d) \<and>
    unlink_ok h root s gs n d k t"
  using assms(1-6)
proof (induction t arbitrary: s up)
  case (Branch a b ob l r)
  let ?t = "Branch a b ob l r" and ?d = "kbit k (cpos b ob)"
  define c where "c = (if ?d then r else l)"
  obtain node ch where
    node: "h a = Some node" "node_char k kl node = Some ch" "n_byte node = b" "n_otherbits node = ob"
      "trie_direction ob ch = of_bool ?d" "childs node (of_bool ?d) = tptr (if ?d then r else l)"
      "node = \<lparr>childs0 = tptr l, childs1 = tptr r, n_byte = b, n_otherbits = ob\<rparr>"
    by (rule node_step [OF Branch.prems(2,3) assms(7)])
  have al: "aligned a" using Branch.prems by simp
  have find: "trie_find h root k kl up s =
      trie_find h root k kl (Some (s, a, of_bool ?d)) (Child a (of_bool ?d))"
    using Branch.prems(1) al node by (subst trie_find.simps) simp
  have read: "read_slot h root (Child a (of_bool ?d)) = Some (tptr c)"
    using node(1,6) by (simp add: c_def)
  have rc: "repr h c" "cwf kf c" "distinct (naddrs c)" "slot_out (Child a (of_bool ?d)) (set (naddrs c))"
    using Branch.prems by (auto simp: c_def)
  show ?case
  proof (cases c)
    case (Leaf e)
    then have "unlink_ok h root s s a (of_bool ?d) k ?t"
      using Branch.prems by (intro unlink_here) (auto simp: c_def)
    moreover have "trie_find h root k kl (Some (s, a, of_bool ?d)) (Child a (of_bool ?d)) =
        Some (Some (s, a, of_bool ?d), Child a (of_bool ?d))"
      using read rc(1) unfolding Leaf by (rule trie_find_leaf)
    ultimately show ?thesis using find by auto
  next
    case c: (Branch a2 b2 ob2 l2 r2)
    have "\<exists>gs n d. trie_find h root k kl (Some (s, a, of_bool ?d)) (Child a (of_bool ?d)) =
        Some (Some (gs, n, d), Child n d) \<and> unlink_ok h root (Child a (of_bool ?d)) gs n d k c"
    proof (cases ?d)
      case True
      then have "c = r" by (simp add: c_def)
      with Branch.IH(2) [OF read [unfolded this]] rc c show ?thesis by auto
    next
      case False
      then have "c = l" by (simp add: c_def)
      with Branch.IH(1) [OF read [unfolded this]] rc c show ?thesis by auto
    qed
    with unlink_below [OF Branch.prems(1,2,4,5) refl refl c_def] find show ?thesis by metis
  qed
qed simp

lemma trie_map_remove1:
  assumes "cwf (kof K) t" "oleaves t' = remove1 e (leaves t)" "e \<in> set (leaves t)" "kof K e = k"
  shows "trie_map K t' = (trie_map K (Some t))(k := None)"
proof (rule ext)
  fix k'
  have inj: "x = y" if "x \<in> set (leaves t)" "y \<in> set (leaves t)" "kof K x = kof K y" for x y
    using cwf_inj [OF assms(1)] that by (auto simp: inj_on_def)
  have set: "set (oleaves t') = set (leaves t) - {e}"
    using cwf_distinct [OF assms(1)] by (simp add: assms(2) set_remove1_eq)
  show "trie_map K t' k' = ((trie_map K (Some t))(k := None)) k'"
  proof (cases "trie_map K t' k'")
    case None
    then have "kof K x \<noteq> k'" if "x \<in> set (leaves t)" "x \<noteq> e" for x
      using that set by (auto simp: trie_map_def find_None_iff)
    then have "k' \<noteq> k \<Longrightarrow> trie_map K (Some t) k' = None"
      using assms(4) by (auto simp: trie_map_def oleaves_def find_None_iff)
    with None show ?thesis by simp
  next
    case (Some x)
    then have "x \<in> set (oleaves t')" "kof K x = k'" by (auto simp: trie_map_def find_Some_iff)
    with set have x: "x \<in> set (leaves t)" "x \<noteq> e" "kof K x = k'" by auto
    then have "trie_map K (Some t) k' = Some x" using trie_map_iff [OF assms(1)] by blast
    moreover have "k' \<noteq> k" using inj [OF x(1) assms(3)] x(2,3) assms(4) by auto
    ultimately show ?thesis using Some by simp
  qed
qed

text \<open>Removal of the only entry, and removal below a branch.\<close>

lemma trie_remove_leaf:
  assumes "trie_ok K h root (Some (Leaf a))" "trie_map K (Some (Leaf a)) k = Some e"
  shows "shl_trie_remove K h root k kl = Some (h, 0, Some e)"
    "trie_ok K h 0 None" "trie_map K None = (trie_map K (Some (Leaf a)))(k := None)"
proof -
  have a: "aligned a" "a \<noteq> 0" "root = a" "e = a" "K a = Some k"
    using assms by (auto simp: trie_map_def oleaves_def entry_ok_def kof_def split: if_splits)
  then have "trie_find h root k kl None Root = Some (None, Root)"
    by (intro trie_find_leaf [of _ _ _ a]) auto
  with a show "shl_trie_remove K h root k kl = Some (h, 0, Some e)"
    by (simp add: shl_trie_remove_def)
  show "trie_ok K h 0 None" using assms(1) by auto
  show "trie_map K None = (trie_map K (Some (Leaf a)))(k := None)"
    using a by (auto simp: trie_map_def oleaves_def kof_eq fun_eq_iff)
qed

lemma trie_remove_branch:
  assumes "trie_ok K h root (Some t)" "naddrs t \<noteq> []" "trie_map K (Some t) k = Some e"
    and "unat kl = length k"
  shows "\<exists>h' root' t'. shl_trie_remove K h root k kl = Some (h', root', Some e) \<and>
    trie_ok K h' root' t' \<and> trie_map K t' = (trie_map K (Some t))(k := None)"
proof -
  from assms(1) have t: "root = tptr t" "repr h t" "cwf (kof K) t" "distinct (naddrs t)"
    "dom h = set (naddrs t)" "\<forall>e\<in>set (leaves t). entry_ok K e" by auto
  have "entry_ok K (cleaf k t)" using t(6) by simp
  then have e: "e = cleaf k t" "kof K e = k" "entry_ok K e"
    using assms(3) t(3) by (auto simp: trie_map_cleaf split: if_splits)
  then have Ke: "K e = Some k" "aligned e" by (auto simp: entry_ok_def kof_def)
  from trie_find_correct [of h root Root t "kof K" kl k None] t assms(2,4)
  obtain gs n d where f: "trie_find h root k kl None Root = Some (Some (gs, n, d), Child n d)"
    and "unlink_ok h root Root gs n d k t" by auto
  then obtain nd t' h' root' where u: "h n = Some nd" "n \<in> set (naddrs t)" "childs nd d = e"
      "cdel k t = Some t'" "write_slot h root gs (childs nd (d XOR 1)) = Some (h', root')"
      "repr (h'(n := None)) t'" "set (naddrs t') = set (naddrs t) - {n}" "distinct (naddrs t')"
      "root' = tptr t'" "\<And>a. a \<notin> set (naddrs t) \<Longrightarrow> (h'(n := None)) a = h a"
    unfolding unlink_ok_def slot_upd_def e(1) by auto
  have "shl_trie_remove K h root k kl = Some (h'(n := None), root', Some e)"
    using f u(1,3,5) Ke t(1,2) by (simp add: shl_trie_remove_def)
  moreover have leaves: "leaves t' = remove1 e (leaves t)"
    using leaves_cdel [OF t(3), of k] u(4) e(1) by (simp add: oleaves_def)
  then have "trie_map K (Some t') = (trie_map K (Some t))(k := None)"
    using t(3) e by (intro trie_map_remove1) (auto simp: oleaves_def)
  moreover have "(h'(n := None)) a = None" if "a \<notin> set (naddrs t')" for a
    using that u(7) u(10) [of a] t(5) by (cases "a = n") (auto simp: domIff)
  then have "dom (h'(n := None)) \<subseteq> set (naddrs t')" by (metis domIff subsetI)
  then have "dom (h'(n := None)) = set (naddrs t')" using repr_dom [OF u(6)] by simp
  moreover have "set (leaves t') \<subseteq> set (leaves t)"
    unfolding leaves by (rule set_remove1_subset)
  ultimately show ?thesis
    using u(6,8,9) cwf_cdel [OF t(3) u(4)] t(6)
    by (intro exI [of _ "h'(n := None)"] exI [of _ root'] exI [of _ "Some t'"]) (auto simp: subset_iff)
qed

lemma trie_remove_absent:
  assumes "trie_ok K h root t" "trie_map K t k = None" "unat kl = length k"
  shows "shl_trie_remove K h root k kl = Some (h, root, None)"
proof (cases t)
  case None
  with assms(1) show ?thesis by (simp add: shl_trie_remove_def)
next
  case (Some t')
  with assms(1) have t: "root = tptr t'" "repr h t'" "cwf (kof K) t'" "distinct (naddrs t')"
    "\<forall>e\<in>set (leaves t'). entry_ok K e" by auto
  have "entry_ok K (cleaf k t')" using t(5) by simp
  then obtain ek where ek: "K (cleaf k t') = Some ek" "aligned (cleaf k t')"
    by (auto simp: entry_ok_def)
  have ne: "ek \<noteq> k"
    using assms(2) ek(1) t(3) by (auto simp: Some trie_map_cleaf kof_eq split: if_splits)
  have "\<exists>up s. trie_find h root k kl None Root = Some (up, s) \<and> read_slot h root s = Some (cleaf k t')"
  proof (cases t')
    case (Leaf a)
    with t trie_find_leaf [of h root Root a k kl None] show ?thesis by simp
  next
    case (Branch a b ob l r)
    with trie_find_correct [of h root Root t' "kof K" kl k None] t assms(3) show ?thesis
      unfolding unlink_ok_def by fastforce
  qed
  with ek ne t(1,2) show ?thesis by (auto simp: shl_trie_remove_def)
qed

lemma trie_remove_correct:
  assumes "trie_ok K h root t" "unat kl = length k"
  shows "\<exists>h' root' t'. shl_trie_remove K h root k kl = Some (h', root', trie_map K t k) \<and>
    trie_ok K h' root' t' \<and> trie_map K t' = (trie_map K t)(k := None)"
proof (cases "trie_map K t k")
  case None
  with trie_remove_absent [OF assms(1) None assms(2)] assms(1) show ?thesis
    by (auto simp: fun_upd_idem)
next
  case (Some e)
  then obtain t' where t': "t = Some t'" by (cases t) (auto simp: trie_map_def oleaves_def)
  show ?thesis
  proof (cases t')
    case (Leaf a)
    with assms(1) Some t' have *: "trie_ok K h root (Some (Leaf a))" "trie_map K (Some (Leaf a)) k = Some e"
      by simp_all
    from trie_remove_leaf [OF *] Some t' Leaf show ?thesis by metis
  next
    case (Branch a b ob l r)
    with trie_remove_branch [of K h root t' k e kl] assms Some t' show ?thesis by auto
  qed
qed

subsection \<open>The trie as a dictionary\<close>

text \<open>
  \<^verbatim>\<open>struct shl_trie\<close> with the heap it lives in, and the three operations as clients call them, through
  the string wrappers of the header.
\<close>

type_synonym trie_state = "heap \<times> ptr"

definition trie_rel :: "keys \<Rightarrow> trie_state \<Rightarrow> (u8 list \<rightharpoonup> ptr) \<Rightarrow> bool" where
  "trie_rel K s m \<longleftrightarrow> (\<exists>t. trie_ok K (fst s) (snd s) t \<and> m = trie_map K t)"

definition trie_fresh :: "ptr option \<Rightarrow> trie_state \<Rightarrow> bool" where
  "trie_fresh mem s \<longleftrightarrow> (case mem of None \<Rightarrow> True | Some n \<Rightarrow> fst s n = None \<and> aligned n)"

definition trie_lookup_op :: "keys \<Rightarrow> trie_state \<Rightarrow> u8 list \<Rightarrow> ptr option option" where
  "trie_lookup_op K s k = shl_trie_lookup_str K (fst s) (snd s) k"

definition trie_insert_op :: "keys \<Rightarrow> ptr option \<Rightarrow> trie_state \<Rightarrow> ptr \<Rightarrow> (trie_state \<times> unit res) option" where
  "trie_insert_op K mem s e =
     do { (h, root, r, out) \<leftarrow> shl_trie_insert_str K mem (fst s) (snd s) e; Some ((h, root), r) }"

definition trie_remove_op :: "keys \<Rightarrow> trie_state \<Rightarrow> u8 list \<Rightarrow> (trie_state \<times> ptr option) option" where
  "trie_remove_op K s k =
     do { (h, root, r) \<leftarrow> shl_trie_remove_str K (fst s) (snd s) k; Some ((h, root), r) }"

lemma trie_insert_correct:
  assumes "trie_ok K h root t" "entry_ok K e" "K e = Some k" "unat kl = length k"
    and "trie_fresh mem (h, root)"
  shows "\<exists>h' root' r out t'. shl_trie_insert K mem h root e kl = Some (h', root', r, out) \<and>
    trie_ok K h' root' t' \<and> dict_step (kof K) (trie_map K t) (Insert e) (Status r) (trie_map K t') \<and>
    (mem \<noteq> None \<longrightarrow> r \<noteq> Inl ENOMEM)"
proof -
  note key = kof_eq [of K, OF assms(3)]
  consider (old) e' where "trie_map K t k = Some e'" | (empty) "t = None" "trie_map K t k = None"
    | (nomem) t' where "t = Some t'" "trie_map K t k = None" "mem = None"
    | (new) t' n where "t = Some t'" "trie_map K t k = None" "mem = Some n"
    by (cases t; cases mem; cases "trie_map K t k") auto
  then show ?thesis
  proof cases
    case old
    with trie_insert_old [OF assms(1-4)] assms(1) key show ?thesis
      by (auto simp: dict_step_insert domIff)
  next
    case empty
    with trie_insert_empty [OF assms(1) [unfolded empty(1)] assms(2,3)] key show ?thesis
      by (intro exI [of _ h] exI [of _ e] exI [of _ ok] exI [of _ None] exI [of _ "Some (Leaf e)"])
         (auto simp: dict_step_insert)
  next
    case nomem
    with trie_insert_nomem [of K h root t' e k kl] assms(1-4) key show ?thesis
      by (auto simp: dict_step_insert domIff simp del: trie_ok.simps)
  next
    case new
    with assms(5) have n: "h n = None" "aligned n" by (auto simp: trie_fresh_def)
    from trie_insert_new [OF assms(1) [unfolded new(1)] assms(2-4) new(2) [unfolded new(1)] n] key new
    show ?thesis by (auto simp: dict_step_insert domIff simp del: trie_ok.simps)
  qed
qed

interpretation trie_dict: dict "trie_rel K" cstring "entry_ok K" "kof K" trie_fresh "\<lambda>mem. mem \<noteq> None"
  "trie_lookup_op K" "trie_insert_op K" "trie_remove_op K" for K
proof
  fix s m k assume "trie_rel K s m" "cstring k"
  then show "trie_lookup_op K s k = Some (m k)"
    by (auto simp: trie_rel_def trie_lookup_op_def shl_trie_lookup_str_def trie_lookup_correct)
next
  fix s m e a assume "trie_rel K s m" "entry_ok K e" "trie_fresh a s"
  then obtain t k where "trie_ok K (fst s) (snd s) t" "m = trie_map K t" "K e = Some k" "cstring k"
    by (auto simp: trie_rel_def entry_ok_def)
  with trie_insert_correct [of K "fst s" "snd s" t e k "of_nat (length k)" a] \<open>entry_ok K e\<close> \<open>trie_fresh a s\<close>
  obtain h' root' r out t' where
    "shl_trie_insert K a (fst s) (snd s) e (of_nat (length k)) = Some (h', root', r, out)"
    "trie_ok K h' root' t'" "dict_step (kof K) m (Insert e) (Status r) (trie_map K t')"
    "a \<noteq> None \<longrightarrow> r \<noteq> Inl ENOMEM" by auto
  with \<open>K e = Some k\<close> show "\<exists>s' r m'. trie_insert_op K a s e = Some (s', r) \<and> trie_rel K s' m' \<and>
      dict_step (kof K) m (Insert e) (Status r) m' \<and> (a \<noteq> None \<longrightarrow> r \<noteq> Inl ENOMEM)"
    by (intro exI [of _ "(h', root')"] exI [of _ r] exI [of _ "trie_map K t'"])
       (auto simp: trie_insert_op_def shl_trie_insert_str_def trie_rel_def)
next
  fix s m k assume "trie_rel K s m" "cstring k"
  then obtain t where "trie_ok K (fst s) (snd s) t" "m = trie_map K t" by (auto simp: trie_rel_def)
  with trie_remove_correct [of K "fst s" "snd s" t "of_nat (length k)" k] \<open>cstring k\<close>
  show "\<exists>s'. trie_remove_op K s k = Some (s', m k) \<and> trie_rel K s' (m(k := None))"
    by (fastforce simp: trie_rel_def trie_remove_op_def shl_trie_remove_str_def)
qed

end
