(* ===== verification/Shl_Trie_Traverse.thy ===== *)
theory Shl_Trie_Traverse
  imports Shl_Trie_Ops
begin

text \<open>
  The traversals of \<^verbatim>\<open>src/shl_trie.c\<close>: the stackless loop terminates, calls back on every entry from
  left to right, and leaves the heap as it found it (or, with \<^verbatim>\<open>SHL_TRIE_FREE\<close>, without the nodes it
  went through); \<^verbatim>\<open>shl_trie_visit\<close> with a prefix calls back on exactly the entries that have it.
\<close>

subsection \<open>The stackless loop\<close>

definition after_traverse :: "bool \<Rightarrow> heap \<Rightarrow> ctree \<Rightarrow> heap" where
  "after_traverse free h t = (if free then h |` (- set (naddrs t)) else h)"

lemma after_traverse_other [simp]: "a \<notin> set (naddrs t) \<Longrightarrow> after_traverse free h t a = h a"
  by (simp add: after_traverse_def)

lemma after_traverse_leaf [simp]: "after_traverse free h (Leaf a) = h"
  by (simp add: after_traverse_def restrict_map_def)

lemma repr_after_traverse:
  "repr h r \<Longrightarrow> set (naddrs l) \<inter> set (naddrs r) = {} \<Longrightarrow> repr (after_traverse free h l) r"
  by (erule repr_frame) (auto simp: after_traverse_def restrict_map_def disjoint_iff)

lemma traverse_entry:
  "aligned a \<Longrightarrow> a \<noteq> 0 \<Longrightarrow>
   trie_traverse_loop free cb h a P out = trie_traverse_loop free cb h P a (if cb then out @ [a] else out)"
  by (subst trie_traverse_loop.simps) (simp add: shl_trie_make_entry_def)

lemma traverse_down:
  "aligned a \<Longrightarrow> h a = Some n \<Longrightarrow> \<not> shl_trie_is_visited (childs1 n) \<Longrightarrow> \<not> shl_trie_is_visited (childs0 n) \<Longrightarrow>
   trie_traverse_loop free cb h (shl_trie_make_node a) P out =
   trie_traverse_loop free cb (h(a \<mapsto> n\<lparr>childs0 := shl_trie_mark_visited P\<rparr>)) (childs0 n)
     (shl_trie_make_node a) out"
  by (subst trie_traverse_loop.simps) simp

lemma traverse_across:
  "aligned a \<Longrightarrow> h a = Some n \<Longrightarrow> \<not> shl_trie_is_visited (childs1 n) \<Longrightarrow> shl_trie_is_visited (childs0 n) \<Longrightarrow>
   trie_traverse_loop free cb h (shl_trie_make_node a) P out =
   trie_traverse_loop free cb
     (h(a \<mapsto> n\<lparr>childs1 := childs0 n, childs0 := shl_trie_clear_visited P\<rparr>)) (childs1 n)
     (shl_trie_make_node a) out"
  by (subst trie_traverse_loop.simps) simp

lemma traverse_up:
  "aligned a \<Longrightarrow> h a = Some n \<Longrightarrow> shl_trie_is_visited (childs1 n) \<Longrightarrow>
   trie_traverse_loop free cb h (shl_trie_make_node a) P out =
   trie_traverse_loop free cb
     (if free then h(a := None) else h(a \<mapsto> n\<lparr>childs1 := shl_trie_clear_visited P\<rparr>))
     (shl_trie_clear_visited (childs1 n)) (shl_trie_make_node a) out"
  by (subst trie_traverse_loop.simps) simp

lemma trie_traverse_loop_correct:
  assumes "repr h t" "distinct (naddrs t)" "\<not> shl_trie_is_visited P"
  shows "trie_traverse_loop free cb h (tptr t) P out =
    trie_traverse_loop free cb (after_traverse free h t) P (tptr t) (if cb then out @ leaves t else out)"
  using assms
proof (induction t arbitrary: h P out)
  case (Leaf a)
  then show ?case by (simp add: traverse_entry)
next
  case (Branch a b ob l r)
  let ?n = "\<lparr>childs0 = tptr l, childs1 = tptr r, n_byte = b, n_otherbits = ob\<rparr>"
  let ?a = "shl_trie_make_node a" and ?out = "\<lambda>out t. if cb then out @ leaves t else out"
  define h1 where "h1 = h(a \<mapsto> ?n\<lparr>childs0 := shl_trie_mark_visited P\<rparr>)"
  define h2 where "h2 = (after_traverse free h1 l)(a \<mapsto> ?n\<lparr>childs1 := shl_trie_mark_visited P\<rparr>)"
  have a: "aligned a" "h a = Some ?n" "repr h l" "repr h r" "a \<notin> set (naddrs l)" "a \<notin> set (naddrs r)"
    "distinct (naddrs l)" "distinct (naddrs r)" "set (naddrs l) \<inter> set (naddrs r) = {}"
    using Branch.prems by auto
  have r1: "repr h1 l" "repr h1 r" "h1 a = Some (?n\<lparr>childs0 := shl_trie_mark_visited P\<rparr>)"
    unfolding h1_def by (simp_all only: repr_upd a fun_upd_same not_False_eq_True)
  have r2: "repr h2 r" "h2 a = Some (?n\<lparr>childs1 := shl_trie_mark_visited P\<rparr>)"
    unfolding h2_def
    by (simp_all only: repr_upd repr_after_traverse a r1 fun_upd_same not_False_eq_True)
  have na: "\<not> shl_trie_is_visited ?a" using a(1) by simp
  have "trie_traverse_loop free cb h (tptr (Branch a b ob l r)) P out =
      trie_traverse_loop free cb h1 (tptr l) ?a out"
    using a traverse_down [of a h ?n] by (simp add: h1_def)
  also have "\<dots> = trie_traverse_loop free cb (after_traverse free h1 l) ?a (tptr l) (?out out l)"
    using a(7) na r1(1) by (intro Branch.IH(1))
  also have "\<dots> = trie_traverse_loop free cb h2 (tptr r) ?a (?out out l)"
    using a traverse_across [of a "after_traverse free h1 l" "?n\<lparr>childs0 := shl_trie_mark_visited P\<rparr>"]
      r1(3) by (simp add: h2_def)
  also have "\<dots> = trie_traverse_loop free cb (after_traverse free h2 r) ?a (tptr r) (?out (?out out l) r)"
    using a(8) na r2(1) by (intro Branch.IH(2))
  also have "\<dots> = trie_traverse_loop free cb (after_traverse free h (Branch a b ob l r)) P
      (tptr (Branch a b ob l r)) (?out (?out out l) r)"
  proof -
    have "(if free then (after_traverse free h2 r)(a := None)
       else (after_traverse free h2 r)(a \<mapsto> ?n)) = after_traverse free h (Branch a b ob l r)"
      using a(2,5,6) by (auto simp: after_traverse_def h2_def h1_def restrict_map_def fun_eq_iff)
    moreover have "after_traverse free h2 r a = Some (?n\<lparr>childs1 := shl_trie_mark_visited P\<rparr>)"
      using a(6) r2(2) by simp
    note traverse_up [of a "after_traverse free h2 r", OF a(1) this]
    moreover have "shl_trie_clear_visited (tptr r) = tptr r" using a(4) by simp
    ultimately show ?thesis
      using Branch.prems(3) by (simp cong: if_cong)
  qed
  finally show ?case by simp
qed

lemma trie_traverse_correct:
  assumes "repr h t" "distinct (naddrs t)"
  shows "shl_trie_traverse h (tptr t) cb free =
    Some (after_traverse free h t, if cb then leaves t else [])"
proof -
  have "\<not> shl_trie_is_visited 0" by (simp add: shl_trie_is_visited_def)
  with trie_traverse_loop_correct [OF assms this] show ?thesis
    unfolding shl_trie_traverse_def by (simp add: trie_traverse_loop.simps)
qed

subsection \<open>Prefixes\<close>

lemma cpos_grows:
  assumes "cwf kf (Branch a b ob l r)" "c \<in> {l, r}" "c = Branch a' b' ob' l' r'"
  shows "cpos b ob < cpos b' ob'"
proof -
  obtain x y where x: "x \<in> set (leaves l')" and y: "y \<in> set (leaves r')"
    using cleaf_in by blast
  then have in_c: "x \<in> set (leaves c)" "y \<in> set (leaves c)" using assms(3) by auto
  have diff: "kbit (kf x) (cpos b' ob') \<noteq> kbit (kf y) (cpos b' ob')"
    using assms x y by auto
  have "agree kf (cpos b ob) (set (leaves l) \<union> set (leaves r))" using assms(1) by simp
  then have "kbit (kf x) q = kbit (kf y) q" if "q < cpos b ob" for q
    using in_c assms(2) that agreeD [of kf "cpos b ob" "set (leaves l) \<union> set (leaves r)" x y q] by auto
  moreover have "kbit (kf x) (cpos b ob) = kbit (kf y) (cpos b ob)"
    using in_c assms(1,2) by auto
  ultimately show ?thesis using diff by (metis linorder_neqE_nat)
qed

lemma cpos_byte: "cpos b ob < 8 * n \<longleftrightarrow> unat b < n"
  unfolding cpos_def by linarith

text \<open>The subtree \<^verbatim>\<open>top\<close>: below the last node whose byte lies inside the prefix.\<close>

primrec ctop :: "u8 list \<Rightarrow> ctree \<Rightarrow> ctree" where
  "ctop k (Leaf a) = Leaf a"
| "ctop k (Branch a b ob l r) =
     (if unat b < length k then (if kbit k (cpos b ob) then ctop k r else ctop k l)
      else Branch a b ob l r)"

lemma trie_top_step:
  assumes "repr h (Branch a b ob l r)" "cwf kf (Branch a b ob l r)" "unat pl = length k"
  shows "trie_top h k pl (tptr (Branch a b ob l r)) best =
    (let c = tptr (if kbit k (cpos b ob) then r else l)
     in trie_top h k pl c (if unat b < length k then c else best))"
proof -
  obtain node ch where "h a = Some node" "node_char k pl node = Some ch" "n_byte node = b"
    "n_otherbits node = ob" "trie_direction ob ch = of_bool (kbit k (cpos b ob))"
    "childs node (of_bool (kbit k (cpos b ob))) = tptr (if kbit k (cpos b ob) then r else l)"
    "node = \<lparr>childs0 = tptr l, childs1 = tptr r, n_byte = b, n_otherbits = ob\<rparr>"
    by (rule node_step [OF assms])
  with assms show ?thesis
    by (subst trie_top.simps) (simp add: Let_def word_less_nat_alt)
qed

lemma trie_top_leaf: "repr h (Leaf a) \<Longrightarrow> trie_top h k pl a best = Some (a, best)"
  by (subst trie_top.simps) simp

lemma trie_top_beyond:
  assumes "unat pl = length k"
  shows "repr h t \<Longrightarrow> cwf kf t \<Longrightarrow> (\<And>a b ob l r. t = Branch a b ob l r \<Longrightarrow> length k \<le> unat b) \<Longrightarrow>
    trie_top h k pl (tptr t) best = Some (cleaf k t, best)"
proof (induction t)
  case (Leaf a)
  then show ?case by (simp add: trie_top_leaf)
next
  case (Branch a b ob l r)
  let ?c = "if kbit k (cpos b ob) then r else l"
  have b: "length k \<le> unat b" using Branch.prems(3) by blast
  have "length k \<le> unat b'" if "?c = Branch a' b' ob' l' r'" for a' b' ob' l' r'
  proof -
    have "?c \<in> {l, r}" by simp
    from cpos_grows [OF Branch.prems(2) this that] b cpos_byte [of b ob "length k"]
      cpos_byte [of b' ob' "length k"] show ?thesis by simp
  qed
  then have "trie_top h k pl (tptr ?c) best = Some (cleaf k ?c, best)"
    using Branch by (cases "kbit k (cpos b ob)") auto
  with b show ?case
    by (simp add: trie_top_step [OF Branch.prems(1,2) assms] Let_def del: tptr.simps)
qed

lemma trie_top_correct:
  assumes "unat pl = length k"
  shows "repr h t \<Longrightarrow> cwf kf t \<Longrightarrow>
    trie_top h k pl (tptr t) (tptr t) = Some (cleaf k t, tptr (ctop k t))"
proof (induction t)
  case (Leaf a)
  then show ?case by (simp add: trie_top_leaf)
next
  case (Branch a b ob l r)
  show ?case
  proof (cases "unat b < length k")
    case True
    with Branch show ?thesis
      by (simp add: trie_top_step [OF Branch.prems(1,2) assms] Let_def del: tptr.simps)
  next
    case False
    then show ?thesis
      using trie_top_beyond [OF assms Branch.prems(1,2)] by simp
  qed
qed

definition pmatch :: "u8 list \<Rightarrow> u8 list \<Rightarrow> bool" where
  "pmatch k x \<longleftrightarrow> (\<forall>q<8 * length k. kbit x q = kbit k q)"

lemma kbyte_eq_iff: "kbyte k i = kbyte k' i \<longleftrightarrow> (\<forall>q. q div 8 = i \<longrightarrow> kbit k q = kbit k' q)"
proof
  assume "\<forall>q. q div 8 = i \<longrightarrow> kbit k q = kbit k' q"
  then show "kbyte k i = kbyte k' i" by (intro kbyte_eqI) auto
qed (simp add: kbit_def)

lemma pmatch_prefix:
  assumes "cstring k"
  shows "pmatch k x \<longleftrightarrow> take (length k) x = k"
proof -
  have "pmatch k x \<longleftrightarrow> (\<forall>i<length k. kbyte x i = kbyte k i)"
    unfolding pmatch_def kbyte_eq_iff by (metis div_less_iff_less_mult mult.commute zero_less_numeral)
  also have "\<dots> \<longleftrightarrow> take (length k) x = k"
  proof
    assume *: "\<forall>i<length k. kbyte x i = kbyte k i"
    have x: "i < length x \<and> x ! i = k ! i" if "i < length k" for i
    proof -
      have "k ! i \<noteq> 0" using assms that by (auto simp: cstring_def in_set_conv_nth)
      with * that show ?thesis by (auto simp: kbyte_def split: if_splits)
    qed
    then have "length k \<le> length x" by (metis not_le less_irrefl)
    with x show "take (length k) x = k" by (intro nth_equalityI) auto
  next
    assume *: "take (length k) x = k"
    then have "length k \<le> length x" by (metis length_take min.absorb_iff2 min.commute)
    with * show "\<forall>i<length k. kbyte x i = kbyte k i" by (metis kbyte_def less_le_trans nth_take)
  qed
  finally show ?thesis .
qed

lemma ctop_filter:
  "cwf kf t \<Longrightarrow> filter (\<lambda>x. pmatch k (kf x)) (leaves (ctop k t)) = filter (\<lambda>x. pmatch k (kf x)) (leaves t)"
proof (induction t)
  case (Branch a b ob l r)
  have none: "filter (\<lambda>x. pmatch k (kf x)) (leaves c) = []"
    if "unat b < length k" "\<And>x. x \<in> set (leaves c) \<Longrightarrow> kbit (kf x) (cpos b ob) \<noteq> kbit k (cpos b ob)" for c
    unfolding filter_empty_conv pmatch_def using that cpos_byte [of b ob "length k"] by metis
  show ?case
    using Branch none [of l] none [of r] by auto
qed simp

lemma ctop_agree: "cwf kf t \<Longrightarrow> agree kf (8 * length k) (set (leaves (ctop k t)))"
proof (induction t)
  case (Branch a b ob l r)
  show ?case
  proof (cases "unat b < length k")
    case False
    then have "8 * length k \<le> cpos b ob" using cpos_byte [of b ob "length k"] by simp
    with cwf_root_agree [OF Branch.prems] False show ?thesis by (auto intro: agree_le)
  qed (use Branch in auto)
qed simp

lemma cleaf_ctop: "cleaf k t \<in> set (leaves (ctop k t))"
  by (induction t) auto

lemma ctop_repr: "repr h t \<Longrightarrow> distinct (naddrs t) \<Longrightarrow> repr h (ctop k t) \<and> distinct (naddrs (ctop k t))"
  by (induction t) auto

text \<open>Either the closest entry has the prefix, and then all entries below \<^verbatim>\<open>top\<close> have it and no other has,
  or no entry has it.\<close>

lemma ctop_prefix:
  assumes "cwf kf t"
  shows "filter (\<lambda>x. pmatch k (kf x)) (leaves t) =
    (if pmatch k (kf (cleaf k t)) then leaves (ctop k t) else [])"
proof -
  have "pmatch k (kf x) \<longleftrightarrow> pmatch k (kf (cleaf k t))" if "x \<in> set (leaves (ctop k t))" for x
    unfolding pmatch_def using agreeD [OF ctop_agree [OF assms] that cleaf_ctop] by metis
  then have "filter (\<lambda>x. pmatch k (kf x)) (leaves (ctop k t)) =
      (if pmatch k (kf (cleaf k t)) then leaves (ctop k t) else [])"
    by (auto simp: filter_id_conv filter_empty_conv)
  with ctop_filter [OF assms] show ?thesis by simp
qed

lemma prefix_eq_correct:
  assumes "cstring k" "cstring x" "i \<le> length k" "\<And>j. j < i \<Longrightarrow> j < length x \<and> x ! j = k ! j"
  shows "prefix_eq k x (length k) i = Some (take (length k) x = k)"
  using assms(3,4)
proof (induction "length k - i" arbitrary: i)
  case 0
  then have x: "j < length x" "x ! j = k ! j" if "j < length k" for j using that by auto
  then have "length k \<le> length x" by (metis not_le less_irrefl)
  with x(2) have "take (length k) x = k" by (intro nth_equalityI) auto
  with 0 show ?case by (subst prefix_eq.simps) simp
next
  case (Suc d)
  then have i: "i < length k" by simp
  have "i \<le> length x" using Suc.prems(2) by (metis not_le less_irrefl)
  note i = i this
  have nz: "k ! i \<noteq> 0" using assms(1) i by (auto simp: cstring_def in_set_conv_nth)
  show ?case
  proof (cases "i < length x \<and> x ! i = k ! i")
    case True
    then have "prefix_eq k x (length k) (Suc i) = Some (take (length k) x = k)"
      using Suc.hyps(2) Suc.prems i by (intro Suc.hyps(1)) (auto simp: less_Suc_eq)
    with True i show ?thesis by (subst prefix_eq.simps) (simp add: str_at_def)
  next
    case False
    then have "take (length k) x \<noteq> k" using i by (metis length_take min.strict_boundedE nth_take)
    with False i nz show ?thesis by (subst prefix_eq.simps) (auto simp: str_at_def)
  qed
qed

subsection \<open>Visiting and clearing\<close>

lemma trie_clear_correct:
  assumes "trie_ok K h root t"
  shows "shl_trie_clear h root cb = Some (Map.empty, 0, if cb then oleaves t else [])"
proof (cases t)
  case None
  with assms show ?thesis
    by (simp add: shl_trie_clear_def shl_trie_traverse_def trie_traverse_loop.simps oleaves_def)
next
  case (Some t')
  with assms have "repr h t'" "distinct (naddrs t')" "root = tptr t'" "dom h = set (naddrs t')" by auto
  moreover from this have "after_traverse True h t' = Map.empty"
    by (auto simp: after_traverse_def restrict_map_def fun_eq_iff domIff)
  ultimately show ?thesis
    by (simp add: shl_trie_clear_def trie_traverse_correct Some oleaves_def)
qed

lemma trie_visit_prefix_correct:
  assumes "trie_ok K h root t" "cstring k" "k \<noteq> []" "unat pl = length k"
  shows "shl_trie_visit K h trie root (Some k) pl cb =
    Some (h, if cb then filter (\<lambda>e. take (length k) (kof K e) = k) (oleaves t) else [])"
proof (cases t)
  case None
  with assms(1) show ?thesis by (simp add: shl_trie_visit_def oleaves_def)
next
  case (Some t')
  with assms(1) have t: "root = tptr t'" "repr h t'" "cwf (kof K) t'" "distinct (naddrs t')"
    "\<forall>e\<in>set (leaves t'). entry_ok K e" by auto
  have "entry_ok K (cleaf k t')" using t(5) by simp
  then obtain ek where ek: "K (cleaf k t') = Some ek" "aligned (cleaf k t')" "cstring ek"
    by (auto simp: entry_ok_def)
  have "prefix_eq k ek (length k) 0 = Some (take (length k) ek = k)"
    using ek(3) assms(2) by (intro prefix_eq_correct) auto
  moreover have "filter (\<lambda>e. take (length k) (kof K e) = k) (leaves t') =
      (if take (length k) ek = k then leaves (ctop k t') else [])"
    using ctop_prefix [OF t(3), of k] ek(1) assms(2) by (simp add: pmatch_prefix kof_eq)
  moreover have "shl_trie_traverse h (tptr (ctop k t')) cb False = Some (h, if cb then leaves (ctop k t') else [])"
    using ctop_repr [OF t(2,4), of k] by (simp add: trie_traverse_correct after_traverse_def)
  moreover have "pl \<noteq> 0" using assms(3,4) by auto
  ultimately show ?thesis
    using t ek assms(4) by (auto simp: shl_trie_visit_def trie_top_correct Some oleaves_def)
qed

subsection \<open>The properties of the trie\<close>

text \<open>The entries of the witnesses: two objects at aligned addresses, with the keys ``a'' and ``ab''.\<close>

definition two_keys :: keys where
  "two_keys = [4 \<mapsto> [97], 8 \<mapsto> [97, 98]]"

lemma two_keys_simps [simp]:
  "two_keys 4 = Some [97]" "two_keys 8 = Some [97, 98]"
  "kof two_keys 4 = [97]" "kof two_keys 8 = [97, 98]"
  "entry_ok two_keys 4" "entry_ok two_keys 8"
  by (simp_all add: two_keys_def kof_def entry_ok_def cstring_def aligned_def)

text \<open>
  C6. A trie behaves like a finite map from keys to entries: started empty, every sequence of
  insertions, lookups and removals (with NUL-free keys and aligned entries, whatever the allocator
  answers, as long as what it returns is aligned and not in use) terminates without undefined
  behaviour, returns exactly what the abstract dictionary allows, never \<^verbatim>\<open>-ENOMEM\<close> if the allocator can always
  serve a well-formed trie, and ends in a well-formed trie that owns exactly the nodes left in the heap.
\<close>

theorem trie_implements_map:
  assumes "\<And>i h root n. alloc i (h, root) = Some n \<Longrightarrow> h n = None \<and> aligned n"
    and "list_all (dict_op_ok cstring (entry_ok K)) ops"
  shows "\<exists>h root rs t.
    dict_run (trie_lookup_op K) (trie_insert_op K) (trie_remove_op K) alloc ops (Map.empty, shl_trie_zero)
      = Some ((h, root), rs) \<and>
    trie_ok K h root t \<and> trace (dict_step (kof K)) Map.empty ops rs (trie_map K t) \<and>
    ((\<forall>i h root t. trie_ok K h root t \<longrightarrow> alloc i (h, root) \<noteq> None) \<longrightarrow> Status (Inl ENOMEM) \<notin> set rs)"
proof -
  have rel: "trie_rel K (Map.empty, shl_trie_zero) Map.empty"
    unfolding trie_rel_def by (intro exI [of _ None]) (simp add: shl_trie_zero_def)
  have fresh: "trie_fresh (alloc i s) s" for i s
    using assms(1) [of i "fst s" "snd s"] by (auto simp: trie_fresh_def split: option.splits)
  have "0 + 0 * length ops < (1 :: nat)" by simp
  from trie_dict.run_refines [where alloc = alloc, OF rel assms(2) fresh this] obtain s' rs m' where
    "dict_run (trie_lookup_op K) (trie_insert_op K) (trie_remove_op K) alloc ops (Map.empty, shl_trie_zero)
       = Some (s', rs)" "trie_rel K s' m'" "trace (dict_step (kof K)) Map.empty ops rs m'"
    "(\<forall>i s m. trie_rel K s m \<longrightarrow> alloc i s \<noteq> None) \<longrightarrow> Status (Inl ENOMEM) \<notin> set rs"
    by blast
  then show ?thesis by (cases s') (auto simp: trie_rel_def)
qed

theorem trie_implements_map_witness:
  "\<exists>h root rs t.
    dict_run (trie_lookup_op two_keys) (trie_insert_op two_keys) (trie_remove_op two_keys)
      (\<lambda>i (h, root). if h 16 = None then Some 16 else None)
      [Insert 4, Insert 8, Lookup [97], Remove [97]] (Map.empty, shl_trie_zero) = Some ((h, root), rs) \<and>
    trie_ok two_keys h root t \<and>
    trace (dict_step (kof two_keys)) Map.empty [Insert 4, Insert 8, Lookup [97], Remove [97]] rs (trie_map two_keys t)"
proof -
  let ?alloc = "\<lambda>(i :: nat) (h :: heap, root :: ptr). if h 16 = None then Some 16 else (None :: ptr option)"
  have "h n = None \<and> aligned n" if "?alloc i (h, root) = Some n" for i h root n
    using that by (auto simp: aligned_def split: if_splits)
  moreover have "list_all (dict_op_ok cstring (entry_ok two_keys)) [Insert 4, Insert 8, Lookup [97], Remove [97]]"
    by (simp add: cstring_def)
  ultimately show ?thesis
    using trie_implements_map [of ?alloc two_keys] by blast
qed

text \<open>
  C7. Every outcome of an insertion into a well-formed trie: a misaligned entry gives \<^verbatim>\<open>-EFAULT\<close>, a key
  already present \<^verbatim>\<open>-EALREADY\<close> with the present entry in \<^verbatim>\<open>*out\<close>, a failed allocation \<^verbatim>\<open>-ENOMEM\<close> (never
  on an empty trie, which needs no node), each leaving the trie as it was; otherwise the entry is
  added under its key and nothing else changes.
\<close>

theorem trie_insert_outcomes:
  assumes "trie_ok K h root t" "K e = Some k" "cstring k" "e \<noteq> 0"
    and "\<And>n. mem = Some n \<Longrightarrow> h n = None \<and> aligned n"
  shows "\<exists>h' root' r out t'. shl_trie_insert_str K mem h root e = Some (h', root', r, out) \<and>
    trie_ok K h' root' t' \<and>
    r = (if \<not> aligned e then Inl EFAULT else if k \<in> dom (trie_map K t) then Inl EALREADY
         else if t \<noteq> None \<and> mem = None then Inl ENOMEM else ok) \<and>
    trie_map K t' = (if r = ok then (trie_map K t)(k \<mapsto> e) else trie_map K t) \<and>
    (r \<noteq> ok \<longrightarrow> h' = h \<and> root' = root) \<and> (r = Inl EALREADY \<longrightarrow> out = trie_map K t k)"
proof (cases "aligned e")
  case False
  then show ?thesis
    using assms(1,2) by (auto simp: shl_trie_insert_str_def shl_trie_insert_def shl_check_alignment_def aligned_def)
next
  case True
  then have e: "entry_ok K e" using assms by (simp add: entry_ok_def)
  have ins: "shl_trie_insert_str K mem h root e = shl_trie_insert K mem h root e (of_nat (length k))"
    by (simp add: shl_trie_insert_str_def assms(2))
  have kl: "unat (of_nat (length k) :: size_t) = length k" using assms(3) by simp
  consider (old) e' where "trie_map K t k = Some e'" | (empty) "t = None"
    | (nomem) t' where "t = Some t'" "trie_map K t k = None" "mem = None"
    | (new) t' n where "t = Some t'" "trie_map K t k = None" "mem = Some n"
    by (cases t; cases mem; cases "trie_map K t k") auto
  then show ?thesis
  proof cases
    case old
    with trie_insert_old [OF assms(1) e assms(2) kl] assms(1) True show ?thesis
      unfolding ins by (auto simp: domIff)
  next
    case empty
    with trie_insert_empty [OF assms(1) [unfolded empty] e assms(2)] True show ?thesis
      unfolding ins by (auto intro!: exI [of _ "Some (Leaf e)"])
  next
    case nomem
    with trie_insert_nomem [of K h root t' e k] assms(1,2) e kl True show ?thesis
      unfolding ins by (auto simp: domIff simp del: trie_ok.simps)
  next
    case new
    with assms(5) have n: "h n = None" "aligned n" by auto
    from trie_insert_new [OF assms(1) [unfolded new(1)] e assms(2) kl new(2) [unfolded new(1)] n]
    obtain h' root' t2 where "shl_trie_insert K (Some n) h root e (of_nat (length k)) = Some (h', root', ok, Some e)"
      "trie_ok K h' root' (Some t2)" "trie_map K (Some t2) = (trie_map K (Some t'))(k \<mapsto> e)" by blast
    with new True show ?thesis
      unfolding ins by (intro exI [of _ h'] exI [of _ root'] exI [of _ ok] exI [of _ "Some e"]
          exI [of _ "Some t2"]) (simp add: domIff del: trie_ok.simps)
  qed
qed

theorem trie_insert_outcomes_witness:
  "\<exists>h' root' r out t'. shl_trie_insert_str two_keys (Some 16) Map.empty 4 8 = Some (h', root', r, out) \<and>
    trie_ok two_keys h' root' t' \<and> r = ok \<and>
    trie_map two_keys t' = (trie_map two_keys (Some (Leaf 4)))([97, 98] \<mapsto> 8)"
  using trie_insert_outcomes [of two_keys Map.empty 4 "Some (Leaf 4)" 8 "[97, 98]" "Some 16"]
  by (fastforce simp: cstring_def aligned_def trie_map_def oleaves_def domIff)

text \<open>
  Visiting with a prefix calls back exactly on the entries whose key starts with the prefix, each
  once and from left to right, and restores every child pointer: the heap after the visit is the
  heap before it.
\<close>

theorem trie_visit_prefix:
  assumes "trie_ok K h root t" "cstring pre" "pre \<noteq> []"
  shows "shl_trie_visit_str K h trie root (Some pre) True =
      Some (h, filter (\<lambda>e. take (length pre) (kof K e) = pre) (oleaves t)) \<and>
    distinct (oleaves t) \<and> set (oleaves t) = ran (trie_map K t)"
proof -
  have "unat (of_nat (length pre) :: size_t) = length pre" using assms(2) by simp
  note trie_visit_prefix_correct [OF assms this, of trie True]
  moreover have "distinct (oleaves t)"
    using assms(1) by (cases t) (auto simp: oleaves_def intro: cwf_distinct)
  moreover have "set (oleaves t) = ran (trie_map K t)"
  proof (cases t)
    case (Some t')
    with assms(1) have "cwf (kof K) t'" by simp
    then show ?thesis by (auto simp: ran_def Some trie_map_iff oleaves_def)
  qed (simp add: oleaves_def)
  ultimately show ?thesis by (simp add: shl_trie_visit_str_def)
qed

theorem trie_visit_prefix_witness:
  "shl_trie_visit_str two_keys Map.empty 32 4 (Some [97]) True =
      Some (Map.empty, filter (\<lambda>e. take (length [97]) (kof two_keys e) = [97]) (oleaves (Some (Leaf 4))))"
  using trie_visit_prefix [of two_keys Map.empty 4 "Some (Leaf 4)" "[97]" 32]
  by (simp add: cstring_def aligned_def)

text \<open>
  Clearing a trie calls back on every entry exactly once, frees every node it owns (the heap is
  empty afterwards), reads no node after it was freed, and leaves an empty trie.
\<close>

theorem trie_clear_frees_all:
  assumes "trie_ok K h root t"
  shows "shl_trie_clear_str h root cb = Some (Map.empty, shl_trie_zero, if cb then oleaves t else []) \<and>
    trie_ok K Map.empty shl_trie_zero None"
  using trie_clear_correct [OF assms, of cb] by (simp add: shl_trie_clear_str_def shl_trie_zero_def)

theorem trie_clear_frees_all_witness:
  "shl_trie_clear_str Map.empty 4 True = Some (Map.empty, shl_trie_zero, oleaves (Some (Leaf 4)))"
  using trie_clear_frees_all [of two_keys Map.empty 4 "Some (Leaf 4)" True] by (simp add: aligned_def)

text \<open>
  Without a prefix \<^verbatim>\<open>shl_trie_visit\<close> does not visit the trie at all: it starts the traversal at the
  address of the \<^verbatim>\<open>struct shl_trie\<close> instead of its root, so the callback is called once, on that
  address, which is no entry.
\<close>

theorem trie_visit_no_prefix:
  assumes "root \<noteq> 0" "aligned trie" "trie \<noteq> 0"
  shows "shl_trie_visit_str K h trie root None True = Some (h, [trie]) \<and>
    shl_trie_visit_str K h trie root (Some []) True = Some (h, [trie])"
  using assms
  by (simp add: shl_trie_visit_str_def shl_trie_visit_def shl_trie_traverse_def trie_traverse_loop.simps)

theorem trie_visit_no_prefix_witness:
  "shl_trie_visit_str two_keys Map.empty 32 4 None True = Some (Map.empty, [32])"
  using trie_visit_no_prefix [of 4 32 two_keys Map.empty] by (simp add: aligned_def)

end
