(* ===== verification/Shl_Trie_Order.thy ===== *)
theory Shl_Trie_Order
  imports Shl_Trie_Traverse "HOL-Library.List_Lexorder"
begin

text \<open>
  The order of the entries in a trie (\<^verbatim>\<open>src/shl_trie.c\<close>): from left to right the keys ascend in the
  order of \<^verbatim>\<open>strcmp\<close> on unsigned bytes, the lexicographic order of \<open>HOL-Library.List_Lexorder\<close>. So the
  result of a visit is determined by the dictionary the trie stands for, whatever the shape of the
  tree and the order of the insertions that built it.
\<close>

subsection \<open>Bits and the order of keys\<close>

lemma word_less_first_bit:
  assumes "\<not> bit (a :: u8) j" "bit b j" "\<And>i. j < i \<Longrightarrow> bit a i = bit b i"
  shows "a < b"
proof -
  have hi: "drop_bit (Suc j) (unat a) = drop_bit (Suc j) (unat b)"
    by (rule bit_eqI) (use assms(3) in \<open>auto simp: bit_drop_bit_eq bit_unsigned_iff\<close>)
  have "take_bit (Suc j) (unat a) = take_bit j (unat a)"
    using assms(1) by (simp add: take_bit_Suc_from_most bit_unsigned_iff)
  moreover have "take_bit (Suc j) (unat b) = 2 ^ j + take_bit j (unat b)"
    using assms(2) bit_imp_le_length [OF assms(2)] by (simp add: take_bit_Suc_from_most bit_unsigned_iff)
  moreover have "take_bit j (unat a) < 2 ^ j" by simp
  ultimately have "take_bit (Suc j) (unat a) < take_bit (Suc j) (unat b)" by linarith
  then have "unat a < unat b"
    using bits_ident [of "Suc j" "unat a"] bits_ident [of "Suc j" "unat b"] unfolding hi by linarith
  then show ?thesis by (simp add: word_less_nat_alt)
qed

lemma kbyte_Cons [simp]: "kbyte (x # k) 0 = x" "kbyte (x # k) (Suc i) = kbyte k i" "kbyte [] i = 0"
  by (simp_all add: kbyte_def)

lemma kbyte_less:
  "0 \<notin> set k \<Longrightarrow> 0 \<notin> set k' \<Longrightarrow> kbyte k i < kbyte k' i \<Longrightarrow> (\<And>j. j < i \<Longrightarrow> kbyte k j = kbyte k' j) \<Longrightarrow> k < k'"
proof (induction i arbitrary: k k')
  case 0
  then show ?case by (cases k; cases k') auto
next
  case (Suc i)
  have eq: "kbyte k 0 = kbyte k' 0" "\<And>j. j < i \<Longrightarrow> kbyte k (Suc j) = kbyte k' (Suc j)"
    using Suc.prems(4) by auto
  show ?case
  proof (cases k)
    case Nil
    with eq(1) Suc.prems(2,3) show ?thesis by (cases k') auto
  next
    case (Cons x xs)
    with eq(1) Suc.prems(1) obtain ys where "k' = x # ys" by (cases k') auto
    with Cons Suc.prems eq(2) Suc.IH [of xs ys] show ?thesis by simp
  qed
qed

lemma kbit_less:
  assumes "0 \<notin> set k" "0 \<notin> set k'" "\<not> kbit k d" "kbit k' d" "\<And>q. q < d \<Longrightarrow> kbit k q = kbit k' q"
  shows "k < k'"
proof (rule kbyte_less [OF assms(1,2)])
  let ?i = "d div 8" and ?j = "7 - d mod 8"
  have d: "d = 8 * ?i + (7 - ?j)" "?j < 8" by simp_all
  show "kbyte k ?i < kbyte k' ?i"
  proof (rule word_less_first_bit)
    show "\<not> bit (kbyte k ?i) ?j" "bit (kbyte k' ?i) ?j" using assms(3,4) by (simp_all add: kbit_def)
    fix i assume i: "?j < i"
    show "bit (kbyte k ?i) i = bit (kbyte k' ?i) i"
    proof (cases "i < 8")
      case True
      with i have "8 * ?i + (7 - i) < d" by (subst (2) d(1)) linarith
      then show ?thesis using assms(5) kbit_at [OF True] by metis
    qed (auto dest: bit_imp_le_length)
  qed
next
  fix j assume "j < d div 8"
  then have "Suc j * 8 \<le> d" by (simp add: less_eq_div_iff_mult_less_eq Suc_le_eq [symmetric])
  then show "kbyte k j = kbyte k' j" by (intro kbyte_eqI assms(5)) linarith
qed

subsection \<open>The entries are sorted\<close>

lemma leaves_sorted:
  "cwf kf t \<Longrightarrow> (\<And>x. x \<in> set (leaves t) \<Longrightarrow> 0 \<notin> set (kf x)) \<Longrightarrow> sorted_wrt (<) (map kf (leaves t))"
proof (induction t)
  case (Branch a b ob l r)
  have "kf x < kf y" if "x \<in> set (leaves l)" "y \<in> set (leaves r)" for x y
  proof (rule kbit_less [where d = "cpos b ob"])
    have "agree kf (cpos b ob) (set (leaves l) \<union> set (leaves r))" using Branch.prems(1) by simp
    then show "kbit (kf x) q = kbit (kf y) q" if "q < cpos b ob" for q
      by (rule agreeD) (use \<open>x \<in> _\<close> \<open>y \<in> _\<close> that in auto)
  qed (use Branch.prems that in auto)
  with Branch show ?case by (auto simp: sorted_wrt_append)
qed simp

lemma oleaves_sorted: "trie_ok K h root t \<Longrightarrow> sorted_wrt (<) (map (kof K) (oleaves t))"
  by (cases t) (auto simp: oleaves_def entry_ok_def cstring_def kof_def intro!: leaves_sorted)

lemma oleaves_map:
  assumes "trie_ok K h root t" "e \<in> set (oleaves t)"
  shows "trie_map K t (kof K e) = Some e"
  using assms by (cases t) (auto simp: oleaves_def trie_map_iff)

lemma keys_oleaves: "trie_ok K h root t \<Longrightarrow> kof K ` set (oleaves t) = dom (trie_map K t)"
  by (cases t) (auto simp: oleaves_def trie_map_iff dom_def image_iff)

lemma oleaves_entries:
  assumes "trie_ok K h root t"
  shows "distinct (oleaves t) \<and> set (oleaves t) = ran (trie_map K t)"
proof
  show "distinct (oleaves t)"
    using assms by (cases t) (auto simp: oleaves_def intro: cwf_distinct)
  show "set (oleaves t) = ran (trie_map K t)"
    using assms by (cases t) (auto simp: ran_def trie_map_iff oleaves_def)
qed

text \<open>A part of the entries in order is the ascending enumeration of its keys.\<close>

lemma oleaves_enum:
  assumes "trie_ok K h root t"
  shows "filter (\<lambda>e. P (kof K e)) (oleaves t) =
    map (\<lambda>k. the (trie_map K t k)) (sorted_list_of_set {k \<in> dom (trie_map K t). P k})"
proof -
  let ?es = "filter (\<lambda>e. P (kof K e)) (oleaves t)"
  have "sorted_wrt (<) (map (kof K) ?es)"
    using oleaves_sorted [OF assms] by (auto simp: sorted_wrt_map intro: sorted_wrt_filter)
  moreover have "set (map (kof K) ?es) = {k \<in> dom (trie_map K t). P k}"
    using keys_oleaves [OF assms] by auto
  ultimately have "sorted_list_of_set {k \<in> dom (trie_map K t). P k} = map (kof K) ?es"
    using sorted_list_of_set.idem_if_sorted_distinct [of "map (kof K) ?es"]
    by (simp only: strict_sorted_iff)
  then have "map (\<lambda>k. the (trie_map K t k)) (sorted_list_of_set {k \<in> dom (trie_map K t). P k}) =
      map (\<lambda>e. the (trie_map K t (kof K e))) ?es" by simp
  also have "\<dots> = ?es"
    by (rule map_idI) (simp add: oleaves_map [OF assms])
  finally show ?thesis ..
qed

text \<open>
  C8. Visiting with a prefix calls back exactly on the entries whose key starts with the prefix, each
  once, in ascending lexicographic order of their keys (of the unsigned bytes), and restores every
  child pointer: the heap after the visit is the heap before it. The calls depend only on the
  dictionary the trie stands for, not on its shape.
\<close>

theorem trie_visit_ordered:
  assumes "trie_ok K h root t" "cstring pre" "pre \<noteq> []"
  shows "shl_trie_visit_str K h trie root (Some pre) True =
      Some (h, map (\<lambda>k. the (trie_map K t k)) (sorted_list_of_set {k \<in> dom (trie_map K t). take (length pre) k = pre}))"
proof -
  have "unat (of_nat (length pre) :: size_t) = length pre" using assms(2) by simp
  from trie_visit_prefix_correct [OF assms this, of trie True] show ?thesis
    by (simp add: shl_trie_visit_str_def oleaves_enum [OF assms(1), of "\<lambda>k. take (length pre) k = pre"])
qed

theorem trie_visit_ordered_witness:
  "shl_trie_visit_str two_keys Map.empty 32 4 (Some [97]) True =
      Some (Map.empty, map (\<lambda>k. the (trie_map two_keys (Some (Leaf 4)) k))
        (sorted_list_of_set {k \<in> dom (trie_map two_keys (Some (Leaf 4))). take (length [97]) k = [97]}))"
  using trie_visit_ordered [of two_keys Map.empty 4 "Some (Leaf 4)" "[97]" 32]
  by (simp add: cstring_def aligned_def)

text \<open>
  C9. Clearing a trie calls back on every entry exactly once, in ascending order of the keys, frees every
  node it owns (the heap is empty afterwards), reads no node after it was freed, and leaves an empty
  trie.
\<close>

theorem trie_clear_ordered:
  assumes "trie_ok K h root t"
  shows "shl_trie_clear_str h root True =
      Some (Map.empty, shl_trie_zero, map (\<lambda>k. the (trie_map K t k)) (sorted_list_of_set (dom (trie_map K t)))) \<and>
    shl_trie_clear_str h root False = Some (Map.empty, shl_trie_zero, []) \<and>
    trie_ok K Map.empty shl_trie_zero None"
  using trie_clear_correct [OF assms] oleaves_enum [OF assms, of "\<lambda>_. True"]
  by (simp add: shl_trie_clear_str_def shl_trie_zero_def)

theorem trie_clear_ordered_witness:
  "shl_trie_clear_str Map.empty 4 True = Some (Map.empty, shl_trie_zero,
     map (\<lambda>k. the (trie_map two_keys (Some (Leaf 4)) k)) (sorted_list_of_set (dom (trie_map two_keys (Some (Leaf 4))))))"
  using trie_clear_ordered [of two_keys Map.empty 4 "Some (Leaf 4)"] by (simp add: aligned_def)

end
