(* ===== verification/Shl_Htable.thy ===== *)
theory Shl_Htable
  imports Shl_Macro
begin

text \<open>
  The dynamic hash table of \<^verbatim>\<open>src/shl_htable.c\<close> and \<^verbatim>\<open>src/shl_htable.h\<close>: open addressing with linear
  probing over a table of \<^verbatim>\<open>uintptr_t\<close>, where the bits common to all stored pointers are reused for
  hash bits and for the mark of an entry that sits in its home bucket. The initial table is the
  field \<^verbatim>\<open>perfect_bit\<close> itself; \<^const>\<open>None\<close> models that alias, and reads and writes go through
  \<open>tab_read\<close> and \<open>tab_write\<close>, which are undefined outside the table. \<^verbatim>\<open>1 << bits\<close> is a shift of an
  \<^verbatim>\<open>int\<close>, undefined from 31 on; \<^verbatim>\<open>(size_t)1 << bits\<close> is defined up to 63.
\<close>

record htable =
  ht_rehash :: "ptr \<Rightarrow> size_t"
  ht_bits :: u32
  ht_elems :: size_t
  ht_deleted :: size_t
  ht_max :: size_t
  ht_max_with_deleted :: size_t
  ht_common_mask :: u64
  ht_common_bits :: u64
  ht_perfect_bit :: u64
  ht_table :: "u64 list option"

definition HTABLE_DELETED :: u64 where
  "HTABLE_DELETED = 1"

definition tab_read :: "htable \<Rightarrow> size_t \<Rightarrow> u64 option" where
  "tab_read ht i =
     (case ht_table ht of
        None \<Rightarrow> if i = 0 then Some (ht_perfect_bit ht) else None
      | Some t \<Rightarrow> if unat i < length t then Some (t ! unat i) else None)"

definition tab_write :: "htable \<Rightarrow> size_t \<Rightarrow> u64 \<Rightarrow> htable option" where
  "tab_write ht i e =
     (case ht_table ht of
        None \<Rightarrow> if i = 0 then Some (ht\<lparr>ht_perfect_bit := e\<rparr>) else None
      | Some t \<Rightarrow> if unat i < length t then Some (ht\<lparr>ht_table := Some (t[unat i := e])\<rparr>) else None)"

definition int_shl1 :: "u32 \<Rightarrow> u32 option" where
  "int_shl1 b = (if unat b < 31 then Some (2 ^ unat b) else None)"

definition size_shl1 :: "u32 \<Rightarrow> size_t option" where
  "size_shl1 b = (if unat b < 64 then Some (2 ^ unat b) else None)"

subsection \<open>Entries\<close>

definition get_extra_ptr_bits :: "htable \<Rightarrow> u64 \<Rightarrow> u64" where
  "get_extra_ptr_bits ht e = e AND ht_common_mask ht"

definition get_raw_ptr :: "htable \<Rightarrow> u64 \<Rightarrow> ptr" where
  "get_raw_ptr ht e = (e AND NOT (ht_common_mask ht)) OR ht_common_bits ht"

definition make_hval :: "htable \<Rightarrow> ptr \<Rightarrow> u64 \<Rightarrow> u64" where
  "make_hval ht p bits = (p AND NOT (ht_common_mask ht)) OR bits"

definition entry_is_valid :: "u64 \<Rightarrow> bool" where
  "entry_is_valid e \<longleftrightarrow> e > HTABLE_DELETED"

definition get_hash_ptr_bits :: "htable \<Rightarrow> size_t \<Rightarrow> u64 option" where
  "get_hash_ptr_bits ht hash =
     (if unat (ht_bits ht) < 64
      then Some ((hash XOR drop_bit (unat (ht_bits ht)) hash) AND ht_common_mask ht AND NOT (ht_perfect_bit ht))
      else None)"

definition HTABLE_INITIALIZER :: "(ptr \<Rightarrow> size_t) \<Rightarrow> htable" where
  "HTABLE_INITIALIZER rehash =
     \<lparr>ht_rehash = rehash, ht_bits = 0, ht_elems = 0, ht_deleted = 0, ht_max = 0,
      ht_max_with_deleted = 0, ht_common_mask = - 1, ht_common_bits = 0, ht_perfect_bit = 0,
      ht_table = None\<rparr>"

text \<open>The initialiser's callback is null (here any function); it is set before it can be called.\<close>

definition htable_init :: "(ptr \<Rightarrow> size_t) \<Rightarrow> htable" where
  "htable_init rehash =
     (let empty = HTABLE_INITIALIZER (\<lambda>_. 0) in empty\<lparr>ht_rehash := rehash, ht_table := None\<rparr>)"

lemma htable_init_eq:
  "htable_init rehash =
     \<lparr>ht_rehash = rehash, ht_bits = 0, ht_elems = 0, ht_deleted = 0, ht_max = 0,
      ht_max_with_deleted = 0, ht_common_mask = - 1, ht_common_bits = 0, ht_perfect_bit = 0,
      ht_table = None\<rparr>"
  by (simp add: htable_init_def HTABLE_INITIALIZER_def)

text \<open>
  The loop that calls a callback on every valid entry; \<open>out\<close> collects the pointers it is called on.
\<close>

definition ht_entries :: "htable \<Rightarrow> ptr list option" where
  "ht_entries ht = do {
     n \<leftarrow> size_shl1 (ht_bits ht);
     foldM (\<lambda>i out. do {
        e \<leftarrow> tab_read ht (of_nat i);
        Some (if entry_is_valid e then out @ [get_raw_ptr ht e] else out) }) [0..<unat n] [] }"

definition htable_clear :: "htable \<Rightarrow> bool \<Rightarrow> (htable \<times> ptr list) option" where
  "htable_clear ht free_cb = do {
     out \<leftarrow> (if ht_table ht \<noteq> None \<and> free_cb then ht_entries ht else Some []);
     Some (htable_init (ht_rehash ht), out) }"

definition htable_visit :: "htable \<Rightarrow> bool \<Rightarrow> ptr list option" where
  "htable_visit ht visit_cb =
     (if visit_cb \<and> ht_table ht \<noteq> None then ht_entries ht else Some [])"

function ht_scan :: "htable \<Rightarrow> size_t \<Rightarrow> size_t \<Rightarrow> size_t option" where
  "ht_scan ht n i =
     (if i < n then do {
        e \<leftarrow> tab_read ht i;
        if entry_is_valid e then Some i else ht_scan ht n (i + 1) }
      else Some (- 1))"
  by pat_completeness auto
termination
proof (relation "measure (\<lambda>(ht, n, i). unat n - unat i)")
  fix ht :: htable and n i :: size_t
  assume "i < n"
  then have "unat i < unat n" "unat (i + 1) = Suc (unat i)"
    by (simp_all add: word_less_nat_alt unat_Suc_less)
  then show "((ht, n, i + 1), ht, n, i) \<in> measure (\<lambda>(ht, n, i). unat n - unat i)" by simp
qed simp

declare ht_scan.simps [simp del]

definition shl_htable_this_or_next :: "htable \<Rightarrow> size_t \<Rightarrow> size_t option" where
  "shl_htable_this_or_next ht i =
     (if ht_table ht \<noteq> None then do { n \<leftarrow> size_shl1 (ht_bits ht); ht_scan ht n i } else Some (- 1))"

definition shl_htable_get_entry :: "htable \<Rightarrow> size_t \<Rightarrow> ptr option" where
  "shl_htable_get_entry ht i = do {
     n \<leftarrow> size_shl1 (ht_bits ht);
     if i < n then do {
       e \<leftarrow> tab_read ht i;
       Some (if entry_is_valid e then get_raw_ptr ht e else 0) }
     else Some 0 }"

subsection \<open>Probing\<close>

definition hash_bucket :: "htable \<Rightarrow> size_t \<Rightarrow> size_t option" where
  "hash_bucket ht h = do { m \<leftarrow> int_shl1 (ht_bits ht); Some (h AND ucast (m - 1)) }"

definition next_off :: "htable \<Rightarrow> size_t \<Rightarrow> size_t option" where
  "next_off ht i = do { m \<leftarrow> int_shl1 (ht_bits ht); Some ((i + 1) AND ucast (m - 1)) }"

text \<open>The loop of \<^verbatim>\<open>htable_val\<close>; the result is the pointer found (0 for \<^verbatim>\<open>NULL\<close>) and the iterator.\<close>

partial_function (option) htable_val_loop ::
  "htable \<Rightarrow> u64 \<Rightarrow> u64 \<Rightarrow> size_t \<Rightarrow> (ptr \<times> size_t) option" where
  "htable_val_loop ht perfect h2 i = do {
     e \<leftarrow> tab_read ht i;
     if e = 0 then Some (0, i)
     else if e \<noteq> HTABLE_DELETED \<and> get_extra_ptr_bits ht e = h2 then Some (get_raw_ptr ht e, i)
     else do {
       i' \<leftarrow> next_off ht i;
       htable_val_loop ht perfect (h2 AND NOT perfect) i' } }"

definition htable_val :: "htable \<Rightarrow> size_t \<Rightarrow> size_t \<Rightarrow> u64 \<Rightarrow> (ptr \<times> size_t) option" where
  "htable_val ht i hash perfect = do {
     hb \<leftarrow> get_hash_ptr_bits ht hash;
     htable_val_loop ht perfect (hb OR perfect) i }"

definition htable_firstval :: "htable \<Rightarrow> size_t \<Rightarrow> (ptr \<times> size_t) option" where
  "htable_firstval ht hash = do { i \<leftarrow> hash_bucket ht hash; htable_val ht i hash (ht_perfect_bit ht) }"

definition htable_nextval :: "htable \<Rightarrow> size_t \<Rightarrow> size_t \<Rightarrow> (ptr \<times> size_t) option" where
  "htable_nextval ht i hash = do { i \<leftarrow> next_off ht i; htable_val ht i hash 0 }"

subsection \<open>Adding\<close>

partial_function (option) ht_add_loop :: "htable \<Rightarrow> u64 \<Rightarrow> size_t \<Rightarrow> (u64 \<times> size_t) option" where
  "ht_add_loop ht perfect i = do {
     e \<leftarrow> tab_read ht i;
     if entry_is_valid e then do { i' \<leftarrow> next_off ht i; ht_add_loop ht 0 i' }
     else Some (perfect, i) }"

definition ht_add :: "htable \<Rightarrow> ptr \<Rightarrow> size_t \<Rightarrow> htable option" where
  "ht_add ht new h = do {
     i \<leftarrow> hash_bucket ht h;
     (perfect, i) \<leftarrow> ht_add_loop ht (ht_perfect_bit ht) i;
     hb \<leftarrow> get_hash_ptr_bits ht h;
     tab_write ht i (make_hval ht new (hb OR perfect)) }"

definition calloc_tab :: "alloc_env \<Rightarrow> size_t \<Rightarrow> u64 list option" where
  "calloc_tab env n = (if alloc_fails env (n * 8) then None else Some (replicate (unat n) 0))"

text \<open>The search for a new perfect bit: the lowest bit of the mask.\<close>

definition low_bit :: "u64 \<Rightarrow> u64" where
  "low_bit m = (case find (\<lambda>i. m AND push_bit i 1 \<noteq> 0) [0..<64] of None \<Rightarrow> 0 | Some i \<Rightarrow> push_bit i 1)"

definition double_table :: "alloc_env \<Rightarrow> htable \<Rightarrow> (htable \<times> bool) option" where
  "double_table env ht = do {
     oldnum \<leftarrow> size_shl1 (ht_bits ht);
     let oldtable = ht_table ht;
     n \<leftarrow> int_shl1 (ht_bits ht + 1);
     case calloc_tab env (ucast n) of
       None \<Rightarrow> Some (ht, False)
     | Some t \<Rightarrow> do {
         let ht = ht\<lparr>ht_table := Some t, ht_bits := ht_bits ht + 1\<rparr>;
         let ht = ht\<lparr>ht_max := push_bit (unat (ht_bits ht)) 3 div 4,
                     ht_max_with_deleted := push_bit (unat (ht_bits ht)) 9 div 10\<rparr>;
         let ht = (if ht_perfect_bit ht = 0 \<and> ht_common_mask ht \<noteq> 0
                   then ht\<lparr>ht_perfect_bit := low_bit (ht_common_mask ht)\<rparr> else ht);
         ht \<leftarrow> (case oldtable of
                  None \<Rightarrow> Some ht
                | Some old \<Rightarrow>
                    foldM (\<lambda>i ht. if i < length old then
                        let e = old ! i in
                        if entry_is_valid e then
                          let p = get_raw_ptr ht e in ht_add ht p (ht_rehash ht p)
                        else Some ht
                      else None) [0..<unat oldnum] ht);
         Some (ht\<lparr>ht_deleted := 0\<rparr>, True) } }"

partial_function (option) first_empty :: "htable \<Rightarrow> size_t \<Rightarrow> size_t option" where
  "first_empty ht start = do {
     e \<leftarrow> tab_read ht start;
     if e \<noteq> 0 then first_empty ht (start + 1) else Some start }"

definition rehash_step :: "size_t \<Rightarrow> nat \<Rightarrow> htable \<Rightarrow> htable option" where
  "rehash_step start i ht = do {
     m \<leftarrow> int_shl1 (ht_bits ht);
     let h = (of_nat i + start) AND ucast (m - 1);
     e \<leftarrow> tab_read ht h;
     if e = 0 then Some ht
     else if e = HTABLE_DELETED then tab_write ht h 0
     else if e AND ht_perfect_bit ht = 0 then do {
       let p = get_raw_ptr ht e;
       ht \<leftarrow> tab_write ht h 0;
       ht_add ht p (ht_rehash ht p) }
     else Some ht }"

definition rehash_table :: "htable \<Rightarrow> htable option" where
  "rehash_table ht = do {
     start \<leftarrow> first_empty ht 0;
     n \<leftarrow> size_shl1 (ht_bits ht);
     ht \<leftarrow> foldM (rehash_step start) [0..<unat n] ht;
     Some (ht\<lparr>ht_deleted := 0\<rparr>) }"

definition update_common :: "htable \<Rightarrow> ptr \<Rightarrow> htable option" where
  "update_common ht p =
     (if ht_elems ht = 0 then
        let i = top_bit 63 p; mask = NOT (push_bit i 1) in
        Some (ht\<lparr>ht_common_mask := mask, ht_common_bits := p AND mask, ht_perfect_bit := 1\<rparr>)
      else do {
        let maskdiff = ht_common_bits ht XOR (p AND ht_common_mask ht);
        let bitsdiff = ht_common_bits ht AND maskdiff;
        n \<leftarrow> size_shl1 (ht_bits ht);
        ht \<leftarrow> foldM (\<lambda>i ht. do {
                e \<leftarrow> tab_read ht (of_nat i);
                if \<not> entry_is_valid e then Some ht
                else tab_write ht (of_nat i) ((e AND NOT maskdiff) OR bitsdiff) }) [0..<unat n] ht;
        Some (ht\<lparr>ht_common_mask := ht_common_mask ht AND NOT maskdiff,
                 ht_common_bits := ht_common_bits ht AND NOT maskdiff,
                 ht_perfect_bit := ht_perfect_bit ht AND NOT maskdiff\<rparr>) })"

text \<open>A failing \<^verbatim>\<open>assert\<close> aborts; it has no result.\<close>

definition htable_add :: "alloc_env \<Rightarrow> htable \<Rightarrow> size_t \<Rightarrow> ptr \<Rightarrow> (htable \<times> bool) option" where
  "htable_add env ht hash p = do {
     (ht, b) \<leftarrow> (if ht_elems ht + 1 > ht_max ht then double_table env ht else Some (ht, True));
     if \<not> b then Some (ht, False)
     else do {
       ht \<leftarrow> (if ht_elems ht + 1 + ht_deleted ht > ht_max_with_deleted ht then rehash_table ht else Some ht);
       if p = 0 then None
       else do {
         ht \<leftarrow> (if p AND ht_common_mask ht \<noteq> ht_common_bits ht then update_common ht p else Some ht);
         ht \<leftarrow> ht_add ht p hash;
         Some (ht\<lparr>ht_elems := ht_elems ht + 1\<rparr>, True) } } }"

definition htable_delval :: "htable \<Rightarrow> size_t \<Rightarrow> htable option" where
  "htable_delval ht i = do {
     n \<leftarrow> size_shl1 (ht_bits ht);
     e \<leftarrow> (if i < n then tab_read ht i else None);
     if entry_is_valid e then do {
       ht \<leftarrow> tab_write (ht\<lparr>ht_elems := ht_elems ht - 1\<rparr>) i HTABLE_DELETED;
       Some (ht\<lparr>ht_deleted := ht_deleted ht + 1\<rparr>) }
     else None }"

subsection \<open>The map interface\<close>

text \<open>
  \<^verbatim>\<open>compare(obj, c)\<close> reads the object \<open>obj\<close> looked for, of type \<open>'k\<close>, and the stored object at \<open>c\<close>.
\<close>

text \<open>The header repeats the structure of the table under another name; \<^verbatim>\<open>shl_htable.c\<close> casts between the two.\<close>

type_synonym shl_htable_int = htable

record 'k shl_htable =
  compare :: "'k \<Rightarrow> ptr \<Rightarrow> bool"
  htable :: shl_htable_int

definition shl_htable_init :: "('k \<Rightarrow> ptr \<Rightarrow> bool) \<Rightarrow> (ptr \<Rightarrow> size_t) \<Rightarrow> 'k shl_htable" where
  "shl_htable_init cmp rehash = \<lparr>compare = cmp, htable = htable_init rehash\<rparr>"

text \<open>The static initialiser of the header, written out field by field there.\<close>

definition SHL_HTABLE_INIT :: "('k \<Rightarrow> ptr \<Rightarrow> bool) \<Rightarrow> (ptr \<Rightarrow> size_t) \<Rightarrow> 'k shl_htable" where
  "SHL_HTABLE_INIT cmp rehash =
     \<lparr>compare = cmp,
      htable = \<lparr>ht_rehash = rehash, ht_bits = 0, ht_elems = 0, ht_deleted = 0, ht_max = 0,
        ht_max_with_deleted = 0, ht_common_mask = - 1, ht_common_bits = 0, ht_perfect_bit = 0,
        ht_table = None\<rparr>\<rparr>"

lemma static_init: "SHL_HTABLE_INIT cmp rehash = shl_htable_init cmp rehash"
  by (simp add: SHL_HTABLE_INIT_def shl_htable_init_def htable_init_eq)

definition shl_htable_clear :: "'k shl_htable \<Rightarrow> bool \<Rightarrow> ('k shl_htable \<times> ptr list) option" where
  "shl_htable_clear t free_cb =
     do { (ht, out) \<leftarrow> htable_clear (htable t) free_cb; Some (t\<lparr>htable := ht\<rparr>, out) }"

definition shl_htable_visit :: "'k shl_htable \<Rightarrow> bool \<Rightarrow> ptr list option" where
  "shl_htable_visit t visit_cb = htable_visit (htable t) visit_cb"

text \<open>The loop over the candidates, shared by lookup and removal: the first one that compares equal.\<close>

partial_function (option) ht_search ::
  "'k shl_htable \<Rightarrow> 'k \<Rightarrow> size_t \<Rightarrow> ptr \<Rightarrow> size_t \<Rightarrow> (ptr \<times> size_t) option option" where
  "ht_search t obj hash c i =
     (if c = 0 then Some None
      else if compare t obj c then Some (Some (c, i))
      else do { (c, i) \<leftarrow> htable_nextval (htable t) i hash; ht_search t obj hash c i })"

definition shl_htable_lookup :: "'k shl_htable \<Rightarrow> 'k \<Rightarrow> size_t \<Rightarrow> ptr option option" where
  "shl_htable_lookup t obj hash = do {
     (c, i) \<leftarrow> htable_firstval (htable t) hash;
     r \<leftarrow> ht_search t obj hash c i;
     Some (map_option fst r) }"

definition shl_htable_insert ::
  "alloc_env \<Rightarrow> 'k shl_htable \<Rightarrow> ptr \<Rightarrow> size_t \<Rightarrow> ('k shl_htable \<times> unit res) option" where
  "shl_htable_insert env t obj hash = do {
     (ht, b) \<leftarrow> htable_add env (htable t) hash obj;
     Some (t\<lparr>htable := ht\<rparr>, if b then ok else Inl ENOMEM) }"

definition shl_htable_remove ::
  "'k shl_htable \<Rightarrow> 'k \<Rightarrow> size_t \<Rightarrow> ('k shl_htable \<times> ptr option) option" where
  "shl_htable_remove t obj hash = do {
     (c, i) \<leftarrow> htable_firstval (htable t) hash;
     r \<leftarrow> ht_search t obj hash c i;
     case r of
       None \<Rightarrow> Some (t, None)
     | Some (c, i) \<Rightarrow> do { ht \<leftarrow> htable_delval (htable t) i; Some (t\<lparr>htable := ht\<rparr>, Some c) } }"

subsection \<open>Iteration\<close>

text \<open>
  The loop \<^verbatim>\<open>SHL_HTABLE_FOREACH\<close>: \<open>i\<close> is the iterator \<^verbatim>\<open>htable__i\<close>, and \<open>out\<close> collects the objects the
  body runs on. \<^verbatim>\<open>SHL_HTABLE_FIRST\<close> is its first object.
\<close>

partial_function (option) SHL_HTABLE_FOREACH :: "htable \<Rightarrow> size_t \<Rightarrow> ptr list \<Rightarrow> ptr list option" where
  "SHL_HTABLE_FOREACH ht i out = do {
     iter \<leftarrow> shl_htable_get_entry ht i;
     if iter = 0 then Some out
     else do { i \<leftarrow> shl_htable_this_or_next ht (i + 1); SHL_HTABLE_FOREACH ht i (out @ [iter]) } }"

definition htable_foreach :: "htable \<Rightarrow> ptr list option" where
  "htable_foreach ht = do { i \<leftarrow> shl_htable_this_or_next ht 0; SHL_HTABLE_FOREACH ht i [] }"

definition SHL_HTABLE_FIRST :: "htable \<Rightarrow> ptr option" where
  "SHL_HTABLE_FIRST ht = do { i \<leftarrow> shl_htable_this_or_next ht 0; shl_htable_get_entry ht i }"

text \<open>
  The variants with an accessor, which turns the pointer to the key into the pointer to the object
  around it: the loop ends at the first object for which the accessor gives null.
\<close>

partial_function (option) SHL_HTABLE_FOREACH_MACRO ::
  "(ptr \<Rightarrow> ptr) \<Rightarrow> htable \<Rightarrow> size_t \<Rightarrow> ptr list \<Rightarrow> ptr list option" where
  "SHL_HTABLE_FOREACH_MACRO accessor ht i out = do {
     e \<leftarrow> shl_htable_get_entry ht i;
     let iter = (if e \<noteq> 0 then accessor e else 0) in
     if iter = 0 then Some out
     else do { i \<leftarrow> shl_htable_this_or_next ht (i + 1); SHL_HTABLE_FOREACH_MACRO accessor ht i (out @ [iter]) } }"

definition htable_foreach_macro :: "(ptr \<Rightarrow> ptr) \<Rightarrow> htable \<Rightarrow> ptr list option" where
  "htable_foreach_macro accessor ht =
     do { i \<leftarrow> shl_htable_this_or_next ht 0; SHL_HTABLE_FOREACH_MACRO accessor ht i [] }"

definition SHL_HTABLE_FIRST_MACRO :: "(ptr \<Rightarrow> ptr) \<Rightarrow> htable \<Rightarrow> ptr option" where
  "SHL_HTABLE_FIRST_MACRO accessor ht = do {
     i \<leftarrow> shl_htable_this_or_next ht 0;
     e \<leftarrow> shl_htable_get_entry ht i;
     Some (if e \<noteq> 0 then accessor e else 0) }"

definition shl_htable_entry :: "ptr \<Rightarrow> u64 \<Rightarrow> ptr" where
  "shl_htable_entry pointer member_offset = shl_container_of pointer member_offset"

declare SHL_HTABLE_FOREACH.simps [code] SHL_HTABLE_FOREACH_MACRO.simps [code] htable_val_loop.simps [code] ht_add_loop.simps [code] first_empty.simps [code] ht_search.simps [code]

end
