(* ===== verification/Shl_Htable_Inv.thy ===== *)
theory Shl_Htable_Inv
  imports Shl_Htable "HOL-Library.Multiset"
begin

text \<open>
  The invariant of the hash table and its preservation. Stored objects are assumed to lie in one
  address range \<open>[2^B, 2^(B+1))\<close> with \<open>B \<ge> 1\<close>: the code keeps the highest bit of the first object
  visible in every entry, and relies on it to tell entries from the markers 0 and 1.
\<close>

subsection \<open>Shape and indices\<close>

definition shape :: "htable \<Rightarrow> u64 list \<Rightarrow> bool" where
  "shape ht t \<longleftrightarrow> ht_table ht = Some t \<and> length t = 2 ^ unat (ht_bits ht) \<and> unat (ht_bits ht) \<le> 30"

lemma shape_length_bound: "shape ht t \<Longrightarrow> length t \<le> 2 ^ 30"
  unfolding shape_def by (metis one_le_numeral power_increasing)

lemma shape_length_pos: "shape ht t \<Longrightarrow> 0 < length t"
  by (simp add: shape_def)

lemma unat_of_nat_idx: "i \<le> 2 ^ 30 \<Longrightarrow> unat (of_nat i :: size_t) = i"
  by (simp add: unat_of_nat)

lemma tab_read_shape: "shape ht t \<Longrightarrow> i < length t \<Longrightarrow> tab_read ht (of_nat i) = Some (t ! i)"
  using shape_length_bound [of ht t]
  by (simp add: tab_read_def shape_def unat_of_nat_idx)

lemma tab_write_shape:
  "shape ht t \<Longrightarrow> i < length t \<Longrightarrow> tab_write ht (of_nat i) e = Some (ht\<lparr>ht_table := Some (t[i := e])\<rparr>)"
  using shape_length_bound [of ht t]
  by (simp add: tab_write_def shape_def unat_of_nat_idx)

lemma size_shl1_shape: "shape ht t \<Longrightarrow> \<exists>n. size_shl1 (ht_bits ht) = Some n \<and> unat n = length t"
  by (auto simp: size_shl1_def shape_def unat_exp)

lemma bucket_mask:
  assumes "shape ht t"
  shows "\<exists>m. int_shl1 (ht_bits ht) = Some m \<and> (\<forall>h :: size_t. h AND ucast (m - 1) = of_nat (unat h mod length t))"
proof -
  let ?b = "unat (ht_bits ht)"
  have b: "?b < 31" "length t = 2 ^ ?b" using assms by (auto simp: shape_def)
  have "ucast ((2 :: u32) ^ ?b - 1) = (2 :: size_t) ^ ?b - 1"
  proof (rule word_of_unat_eqI)
    have "unat ((2 :: u32) ^ ?b - 1) = 2 ^ ?b - 1"
      using b(1) by (simp add: unat_sub_nowrap unat_exp word_le_nat_alt)
    moreover have "unat ((2 :: size_t) ^ ?b - 1) = 2 ^ ?b - 1"
      using b(1) by (simp add: unat_sub_nowrap unat_exp word_le_nat_alt)
    moreover have "(2 :: nat) ^ ?b - 1 < 2 ^ 64"
      using b(1) power_strict_increasing [of ?b 64 "2 :: nat"] by linarith
    ultimately show "unat (ucast ((2 :: u32) ^ ?b - 1) :: size_t) = unat ((2 :: size_t) ^ ?b - 1)"
      by (simp add: unat_ucast_mod)
  qed
  moreover have "h AND (2 ^ ?b - 1) = of_nat (unat h mod length t)" for h :: size_t
  proof (rule word_of_unat_eqI)
    have "unat h mod length t \<le> 2 ^ 30"
      using shape_length_bound [OF assms] shape_length_pos [OF assms] mod_less_divisor [of "length t" "unat h"]
      by linarith
    then show "unat (h AND (2 ^ ?b - 1)) = unat (of_nat (unat h mod length t) :: size_t)"
      using b unat_and_exp_minus_1 [of ?b h] unat_of_nat_idx by simp
  qed
  ultimately show ?thesis using b(1) by (simp add: int_shl1_def)
qed

lemma hash_bucket_shape: "shape ht t \<Longrightarrow> hash_bucket ht h = Some (of_nat (unat h mod length t))"
  using bucket_mask [of ht t] by (auto simp: hash_bucket_def)

lemma next_off_shape:
  assumes "shape ht t" "i < length t"
  shows "next_off ht (of_nat i) = Some (of_nat (Suc i mod length t))"
proof -
  have "unat (of_nat i + 1 :: size_t) = Suc i"
    using shape_length_bound [OF assms(1)] assms(2) by (simp add: unat_word_ariths unat_of_nat)
  then show ?thesis
    using bucket_mask [OF assms(1)] by (auto simp: next_off_def)
qed

subsection \<open>Entries\<close>

definition hbits :: "htable \<Rightarrow> size_t \<Rightarrow> u64" where
  "hbits ht h = (h XOR drop_bit (unat (ht_bits ht)) h) AND ht_common_mask ht AND NOT (ht_perfect_bit ht)"

definition home :: "htable \<Rightarrow> ptr \<Rightarrow> nat" where
  "home ht p = unat (ht_rehash ht p) mod 2 ^ unat (ht_bits ht)"

definition good_ptr :: "nat \<Rightarrow> ptr \<Rightarrow> bool" where
  "good_ptr B p \<longleftrightarrow> 1 \<le> B \<and> bit p B \<and> (\<forall>n>B. \<not> bit p n)"

text \<open>The bit of the address range is visible; common bits and perfect bit lie inside the mask.\<close>

definition masks :: "nat \<Rightarrow> htable \<Rightarrow> bool" where
  "masks B ht \<longleftrightarrow> \<not> bit (ht_common_mask ht) B \<and> ht_common_bits ht AND ht_common_mask ht = ht_common_bits ht \<and>
     ht_perfect_bit ht AND ht_common_mask ht = ht_perfect_bit ht"

definition encode :: "htable \<Rightarrow> nat \<Rightarrow> ptr \<Rightarrow> u64" where
  "encode ht i p =
     make_hval ht p (hbits ht (ht_rehash ht p) OR (if i = home ht p then ht_perfect_bit ht else 0))"

lemma sub_mask_iff: "(x :: u64) AND m = x \<longleftrightarrow> (\<forall>n. bit x n \<longrightarrow> bit m n)"
proof
  assume "x AND m = x"
  then show "\<forall>n. bit x n \<longrightarrow> bit m n" by (metis bit_and_iff)
qed (auto intro!: bit_word_eqI simp: bit_and_iff)

lemma hbits_sub: "hbits ht h AND ht_common_mask ht = hbits ht h"
  unfolding sub_mask_iff hbits_def by (simp add: bit_and_iff)

lemma hbits_perfect: "hbits ht h AND NOT (ht_perfect_bit ht) = hbits ht h"
  by (rule bit_word_eqI) (auto simp: hbits_def bit_and_iff bit_not_iff)

lemma get_hash_ptr_bits_shape: "shape ht t \<Longrightarrow> get_hash_ptr_bits ht h = Some (hbits ht h)"
  by (simp add: get_hash_ptr_bits_def hbits_def shape_def)

lemma get_extra_hval:
  "x AND ht_common_mask ht = x \<Longrightarrow> get_extra_ptr_bits ht (make_hval ht p x) = x"
  unfolding sub_mask_iff get_extra_ptr_bits_def make_hval_def
  by (rule bit_word_eqI) (auto simp: bit_and_iff bit_or_iff bit_not_iff)

lemma get_raw_hval:
  "x AND ht_common_mask ht = x \<Longrightarrow> p AND ht_common_mask ht = ht_common_bits ht \<Longrightarrow>
   get_raw_ptr ht (make_hval ht p x) = p"
  unfolding sub_mask_iff get_raw_ptr_def make_hval_def
  by (rule bit_word_eqI) (auto simp: bit_and_iff bit_or_iff bit_not_iff bit_eq_iff)

lemma get_raw_common:
  "masks B ht \<Longrightarrow> get_raw_ptr ht e AND ht_common_mask ht = ht_common_bits ht"
  unfolding masks_def get_raw_ptr_def sub_mask_iff
  by (auto intro!: bit_word_eqI simp: bit_and_iff bit_or_iff bit_not_iff)

lemma valid_iff: "entry_is_valid e \<longleftrightarrow> e \<noteq> 0 \<and> e \<noteq> 1"
  by (auto simp: entry_is_valid_def HTABLE_DELETED_def word_less_nat_alt)
     (metis One_nat_def less_Suc_eq less_one nat_neq_iff unat_1 unat_0 word_unat_eq_iff)

lemma bit_valid: "bit e B \<Longrightarrow> 1 \<le> B \<Longrightarrow> entry_is_valid e"
  by (auto simp: valid_iff bit_1_iff)

lemma encode_extra:
  assumes "masks B ht"
  shows "get_extra_ptr_bits ht (encode ht i p) =
    hbits ht (ht_rehash ht p) OR (if i = home ht p then ht_perfect_bit ht else 0)"
  unfolding encode_def using assms hbits_sub [of ht "ht_rehash ht p"]
  by (intro get_extra_hval) (auto simp: masks_def sub_mask_iff bit_or_iff)

lemma encode_raw:
  assumes "masks B ht" "p AND ht_common_mask ht = ht_common_bits ht"
  shows "get_raw_ptr ht (encode ht i p) = p"
  unfolding encode_def using assms hbits_sub [of ht "ht_rehash ht p"]
  by (intro get_raw_hval) (auto simp: masks_def sub_mask_iff bit_or_iff)

lemma encode_valid:
  assumes "masks B ht" "good_ptr B p"
  shows "entry_is_valid (encode ht i p)"
proof (rule bit_valid)
  show "bit (encode ht i p) B" "1 \<le> B"
    using assms bit_imp_le_length [of p B]
    by (auto simp: encode_def make_hval_def masks_def good_ptr_def bit_or_iff bit_and_iff bit_not_iff)
qed

text \<open>\<open>entries_ok\<close>: every valid entry encodes a good pointer, at the slot where it is.\<close>

definition entries_ok :: "nat \<Rightarrow> htable \<Rightarrow> u64 list \<Rightarrow> bool" where
  "entries_ok B ht t \<longleftrightarrow> (\<forall>i<length t. entry_is_valid (t ! i) \<longrightarrow>
     good_ptr B (get_raw_ptr ht (t ! i)) \<and> t ! i = encode ht i (get_raw_ptr ht (t ! i)))"

text \<open>\<open>reachable t h i\<close>: a probe that starts in bucket \<open>h\<close> meets no empty slot before \<open>i\<close>.\<close>

definition reachable :: "u64 list \<Rightarrow> nat \<Rightarrow> nat \<Rightarrow> bool" where
  "reachable t h i \<longleftrightarrow>
     (\<exists>d<length t. i = (h + d) mod length t \<and> (\<forall>m<d. t ! ((h + m) mod length t) \<noteq> 0))"

definition all_reachable :: "htable \<Rightarrow> u64 list \<Rightarrow> bool" where
  "all_reachable ht t \<longleftrightarrow> (\<forall>i<length t. entry_is_valid (t ! i) \<longrightarrow>
     reachable t (home ht (get_raw_ptr ht (t ! i))) i)"

definition stored :: "htable \<Rightarrow> u64 list \<Rightarrow> ptr multiset" where
  "stored ht t = image_mset (get_raw_ptr ht) (filter_mset entry_is_valid (mset t))"

text \<open>Only the table itself changes in most steps; what an entry means does not depend on it.\<close>

lemma entry_upd_simps [simp]:
  "get_raw_ptr (ht\<lparr>ht_table := x\<rparr>) = get_raw_ptr ht" "hbits (ht\<lparr>ht_table := x\<rparr>) = hbits ht"
  "home (ht\<lparr>ht_table := x\<rparr>) = home ht" "make_hval (ht\<lparr>ht_table := x\<rparr>) = make_hval ht"
  "masks B (ht\<lparr>ht_table := x\<rparr>) = masks B ht" "get_raw_ptr (ht\<lparr>ht_elems := y\<rparr>) = get_raw_ptr ht"
  "hbits (ht\<lparr>ht_elems := y\<rparr>) = hbits ht" "home (ht\<lparr>ht_elems := y\<rparr>) = home ht"
  "make_hval (ht\<lparr>ht_elems := y\<rparr>) = make_hval ht" "masks B (ht\<lparr>ht_elems := y\<rparr>) = masks B ht"
  "get_raw_ptr (ht\<lparr>ht_deleted := z\<rparr>) = get_raw_ptr ht" "hbits (ht\<lparr>ht_deleted := z\<rparr>) = hbits ht"
  "home (ht\<lparr>ht_deleted := z\<rparr>) = home ht" "make_hval (ht\<lparr>ht_deleted := z\<rparr>) = make_hval ht"
  "masks B (ht\<lparr>ht_deleted := z\<rparr>) = masks B ht"
  by (auto simp: fun_eq_iff get_raw_ptr_def hbits_def home_def make_hval_def masks_def)

lemma table_upd_simps [simp]:
  "encode (ht\<lparr>ht_table := x\<rparr>) = encode ht" "entries_ok B (ht\<lparr>ht_table := x\<rparr>) = entries_ok B ht"
  "all_reachable (ht\<lparr>ht_table := x\<rparr>) = all_reachable ht" "stored (ht\<lparr>ht_table := x\<rparr>) = stored ht"
  "encode (ht\<lparr>ht_elems := y\<rparr>) = encode ht" "entries_ok B (ht\<lparr>ht_elems := y\<rparr>) = entries_ok B ht"
  "all_reachable (ht\<lparr>ht_elems := y\<rparr>) = all_reachable ht" "stored (ht\<lparr>ht_elems := y\<rparr>) = stored ht"
  "encode (ht\<lparr>ht_deleted := z\<rparr>) = encode ht" "entries_ok B (ht\<lparr>ht_deleted := z\<rparr>) = entries_ok B ht"
  "all_reachable (ht\<lparr>ht_deleted := z\<rparr>) = all_reachable ht" "stored (ht\<lparr>ht_deleted := z\<rparr>) = stored ht"
  by (auto simp: fun_eq_iff encode_def entries_ok_def all_reachable_def stored_def)

lemma stored_update:
  "i < length t \<Longrightarrow> stored ht (t[i := e]) =
     (stored ht t - (if entry_is_valid (t ! i) then {#get_raw_ptr ht (t ! i)#} else {#})) +
     (if entry_is_valid e then {#get_raw_ptr ht e#} else {#})"
  by (auto simp: stored_def mset_update image_mset_Diff mset_subset_eq_single filter_diff_mset)

lemma entries_ok_update:
  "entries_ok B ht t \<Longrightarrow>
   (entry_is_valid e \<Longrightarrow> good_ptr B (get_raw_ptr ht e) \<and> e = encode ht i (get_raw_ptr ht e)) \<Longrightarrow>
   entries_ok B ht (t[i := e])"
  by (auto simp: entries_ok_def nth_update_if)

lemma entries_okD:
  assumes "entries_ok B ht t" "i < length t" "entry_is_valid (t ! i)"
  shows "good_ptr B (get_raw_ptr ht (t ! i))" "t ! i = encode ht i (get_raw_ptr ht (t ! i))"
  using assms by (auto simp: entries_ok_def)

lemma reachable_update:
  assumes "reachable t h i" "e \<noteq> 0"
  shows "reachable (t[k := e]) h i"
proof -
  from assms(1) obtain d where d: "d < length t" "i = (h + d) mod length t"
    "\<forall>m<d. t ! ((h + m) mod length t) \<noteq> 0" unfolding reachable_def by blast
  have "(h + m) mod length t < length t" for m using d(1) by (intro mod_less_divisor) linarith
  with d assms(2) show ?thesis unfolding reachable_def by (auto simp: nth_update_if intro!: exI [of _ d])
qed

subsection \<open>Finding a free slot\<close>

lemma cyclic_offset:
  assumes "i < (n :: nat)"
  obtains d where "d < n" "(h + d) mod n = i"
proof
  let ?d = "(i + (n - h mod n)) mod n"
  show "?d < n" using assms by simp
  have "h mod n \<le> n" using assms by (simp add: less_imp_le)
  have "(h + ?d) mod n = (h mod n + (i + (n - h mod n))) mod n" by (metis mod_add_eq mod_mod_trivial)
  also have "h mod n + (i + (n - h mod n)) = i + n" using \<open>h mod n \<le> n\<close> by simp
  finally show "(h + ?d) mod n = i" using assms by simp
qed

lemma first_offset:
  assumes "i < length t" "Q (t ! i)"
  obtains d where "d < length t" "Q (t ! ((h + d) mod length t))"
    "\<And>k. k < d \<Longrightarrow> \<not> Q (t ! ((h + k) mod length t))"
proof -
  obtain d0 where d0: "d0 < length t" "(h + d0) mod length t = i"
    using cyclic_offset [OF assms(1)] by blast
  define d where "d = (LEAST d. Q (t ! ((h + d) mod length t)))"
  have "Q (t ! ((h + d) mod length t))" unfolding d_def by (rule LeastI [of _ d0]) (simp add: d0 assms)
  moreover have "d \<le> d0" unfolding d_def by (rule Least_le) (simp add: d0 assms)
  moreover have "\<not> Q (t ! ((h + k) mod length t))" if "k < d" for k
    using that not_less_Least unfolding d_def by blast
  ultimately show ?thesis using that d0(1) by (meson le_less_trans)
qed

lemma offset_home:
  assumes "d < (n :: nat)" "h < n"
  shows "(h + d) mod n = h \<longleftrightarrow> d = 0"
proof (cases "h + d < n")
  case False
  then have "(h + d) mod n = h + d - n" using assms by (simp add: mod_if)
  with False assms show ?thesis by auto
qed simp

lemma ht_add_loop_shape:
  assumes "shape ht t"
  shows "(\<And>k. k < d \<Longrightarrow> entry_is_valid (t ! ((i + k) mod length t))) \<Longrightarrow>
    \<not> entry_is_valid (t ! ((i + d) mod length t)) \<Longrightarrow>
    ht_add_loop ht pf (of_nat (i mod length t)) =
      Some (if d = 0 then pf else 0, of_nat ((i + d) mod length t))"
proof (induction d arbitrary: i pf)
  case 0
  then show ?case
    using tab_read_shape [OF assms, of "i mod length t"] shape_length_pos [OF assms]
    by (subst ht_add_loop.simps) simp
next
  case (Suc d)
  have v: "entry_is_valid (t ! (i mod length t))" using Suc.prems(1) [of 0] by simp
  have *: "entry_is_valid (t ! ((Suc i + k) mod length t))" if "k < d" for k
    using Suc.prems(1) [of "Suc k"] that by simp
  have n: "next_off ht (of_nat (i mod length t)) = Some (of_nat (Suc i mod length t))"
    using next_off_shape [OF assms, of "i mod length t"] shape_length_pos [OF assms] by (simp add: mod_Suc_eq)
  have "ht_add_loop ht pf (of_nat (i mod length t)) = ht_add_loop ht 0 (of_nat (Suc i mod length t))"
    using v n tab_read_shape [OF assms, of "i mod length t"] shape_length_pos [OF assms]
    by (subst ht_add_loop.simps) simp
  also have "\<dots> = Some (if d = 0 then 0 else 0, of_nat ((Suc i + d) mod length t))"
    using Suc.prems(2) by (intro Suc.IH *) simp_all
  finally show ?case by simp
qed

lemma home_less: "shape ht t \<Longrightarrow> home ht p < length t"
  by (simp add: home_def shape_def)

lemma ht_add_shape:
  assumes "shape ht t" "d < length t" "i = (home ht p + d) mod length t"
    and "\<not> entry_is_valid (t ! i)" "\<And>k. k < d \<Longrightarrow> entry_is_valid (t ! ((home ht p + k) mod length t))"
  shows "ht_add ht p (ht_rehash ht p) = Some (ht\<lparr>ht_table := Some (t[i := encode ht i p])\<rparr>)"
proof -
  have h: "hash_bucket ht (ht_rehash ht p) = Some (of_nat (home ht p mod length t))"
    using hash_bucket_shape [OF assms(1)] assms(1) by (simp add: home_def shape_def)
  have "ht_add_loop ht (ht_perfect_bit ht) (of_nat (home ht p mod length t)) =
      Some (if d = 0 then ht_perfect_bit ht else 0, of_nat i)"
    using ht_add_loop_shape [OF assms(1), of d "home ht p"] assms(3-5) by simp
  moreover have "i < length t" using shape_length_pos [OF assms(1)] assms(3) by simp
  moreover have "d = 0 \<longleftrightarrow> i = home ht p"
    using offset_home [OF assms(2) home_less [OF assms(1)]] assms(3) by simp
  ultimately show ?thesis
    using assms(1) h by (simp add: ht_add_def get_hash_ptr_bits_shape tab_write_shape encode_def)
qed

subsection \<open>Adding an entry\<close>

definition dels :: "u64 list \<Rightarrow> nat" where
  "dels t = count (mset t) 1"

lemma empty_slot:
  assumes "size (stored ht t) + dels t < length t"
  shows "\<exists>i<length t. t ! i = 0"
proof (rule ccontr)
  assume "\<not> ?thesis"
  then have "0 \<notin> set t" by (auto simp: in_set_conv_nth)
  then have "filter_mset (\<lambda>e. \<not> entry_is_valid e) (mset t) = filter_mset (\<lambda>e. e = 1) (mset t)"
    by (intro filter_mset_cong) (auto simp: valid_iff)
  then have "size (filter_mset (\<lambda>e. \<not> entry_is_valid e) (mset t)) = dels t"
    by (simp add: dels_def filter_eq_replicate_mset)
  moreover have "size (filter_mset entry_is_valid (mset t)) + size (filter_mset (\<lambda>e. \<not> entry_is_valid e) (mset t)) = length t"
    by (metis multiset_partition size_mset size_union)
  ultimately show False using assms by (simp add: stored_def)
qed

lemma dels_update: "i < length t \<Longrightarrow> dels (t[i := e]) = dels t - of_bool (t ! i = 1) + of_bool (e = 1)"
  by (auto simp: dels_def mset_update)

lemma dels_pos: "i < length t \<Longrightarrow> t ! i = 1 \<Longrightarrow> 0 < dels t"
  by (simp add: dels_def) (metis nth_mem)

lemma ht_add_correct:
  assumes "shape ht t" "masks B ht" "entries_ok B ht t" "good_ptr B p"
    and "p AND ht_common_mask ht = ht_common_bits ht" "size (stored ht t) + dels t < length t"
  shows "\<exists>t'. ht_add ht p (ht_rehash ht p) = Some (ht\<lparr>ht_table := Some t'\<rparr>) \<and> length t' = length t \<and>
    entries_ok B ht t' \<and> stored ht t' = add_mset p (stored ht t) \<and> dels t' \<le> dels t \<and>
    (all_reachable ht t \<longrightarrow> all_reachable ht t')"
proof -
  obtain i0 where "i0 < length t" "t ! i0 = 0" using empty_slot [OF assms(6)] by blast
  then have "\<not> entry_is_valid (t ! i0)" by (simp add: valid_iff)
  with \<open>i0 < length t\<close> obtain d where d: "d < length t" "\<not> entry_is_valid (t ! ((home ht p + d) mod length t))"
    "\<And>k. k < d \<Longrightarrow> entry_is_valid (t ! ((home ht p + k) mod length t))"
    using first_offset [of i0 t "\<lambda>e. \<not> entry_is_valid e" "home ht p"] by metis
  define i where "i = (home ht p + d) mod length t"
  define t' where "t' = t[i := encode ht i p]"
  have i: "i < length t" "\<not> entry_is_valid (t ! i)"
    using d(1,2) shape_length_pos [OF assms(1)] by (auto simp: i_def)
  have enc: "entry_is_valid (encode ht i p)" "get_raw_ptr ht (encode ht i p) = p"
    using assms(2,4,5) by (auto intro: encode_valid encode_raw)
  have "encode ht i p \<noteq> 0" using enc(1) by (simp add: valid_iff)
  have "reachable t' (home ht p) i"
    unfolding reachable_def
  proof (intro exI [of _ d] conjI allI impI)
    fix m assume "m < d"
    then have "t ! ((home ht p + m) mod length t) \<noteq> 0" using d(3) [of m] by (auto simp: valid_iff)
    then show "t' ! ((home ht p + m) mod length t') \<noteq> 0"
      using \<open>encode ht i p \<noteq> 0\<close> shape_length_pos [OF assms(1)] by (simp add: t'_def nth_update_if)
  qed (use d(1) in \<open>simp_all add: i_def t'_def\<close>)
  then have "all_reachable ht t'" if "all_reachable ht t"
    using that i enc \<open>encode ht i p \<noteq> 0\<close>
    by (auto simp: all_reachable_def t'_def nth_update_if intro: reachable_update)
  moreover have "ht_add ht p (ht_rehash ht p) = Some (ht\<lparr>ht_table := Some t'\<rparr>)"
    unfolding t'_def using d i by (intro ht_add_shape [OF assms(1) d(1) i_def]) auto
  moreover have "entries_ok B ht t'"
    unfolding t'_def using assms(3,4) enc by (intro entries_ok_update) auto
  moreover have "stored ht t' = add_mset p (stored ht t)"
    using i enc by (simp add: t'_def stored_update)
  moreover have "dels t' \<le> dels t"
    using i enc by (simp add: t'_def dels_update valid_iff)
  ultimately show ?thesis by (intro exI [of _ t']) (simp add: t'_def)
qed

subsection \<open>The invariant\<close>

definition hinv :: "nat \<Rightarrow> htable \<Rightarrow> u64 list \<Rightarrow> bool" where
  "hinv B ht t \<longleftrightarrow> shape ht t \<and> masks B ht \<and> entries_ok B ht t \<and> all_reachable ht t \<and>
     unat (ht_elems ht) = size (stored ht t) \<and> dels t \<le> unat (ht_deleted ht) \<and>
     unat (ht_elems ht) \<le> unat (ht_max ht) \<and>
     unat (ht_elems ht) + unat (ht_deleted ht) \<le> unat (ht_max_with_deleted ht) \<and>
     unat (ht_max ht) = 3 * length t div 4 \<and> unat (ht_max_with_deleted ht) = 9 * length t div 10"

text \<open>A table holding the objects \<open>S\<close>: freshly initialised and empty, or with a table of its own.\<close>

definition ht_ok :: "nat \<Rightarrow> htable \<Rightarrow> ptr multiset \<Rightarrow> bool" where
  "ht_ok B ht S \<longleftrightarrow> ht = htable_init (ht_rehash ht) \<and> S = {#} \<or> (\<exists>t. hinv B ht t \<and> S = stored ht t)"

lemma hinv_room: "hinv B ht t \<Longrightarrow> size (stored ht t) + dels t < length t"
proof -
  assume *: "hinv B ht t"
  then have "0 < length t" by (auto simp: hinv_def shape_def)
  then have "9 * length t div 10 < length t" by linarith
  with * show ?thesis unfolding hinv_def by linarith
qed

end
