(* ===== verification/Shl_Htable_Find.thy ===== *)
theory Shl_Htable_Find
  imports Shl_Htable_Inv
begin

text \<open>
  Searching the hash table: the probe sequence of a hash visits every object that was stored with
  that hash before it reaches an empty slot, so lookup and removal find an equal object exactly
  when there is one; removal leaves a marker and keeps the invariant.
\<close>

subsection \<open>The probe loop\<close>

definition hit :: "htable \<Rightarrow> u64 \<Rightarrow> u64 \<Rightarrow> bool" where
  "hit ht h2 e \<longleftrightarrow> e \<noteq> 1 \<and> get_extra_ptr_bits ht e = h2"

lemma and_not_idem: "(x AND NOT y) AND NOT y = x AND NOT (y :: u64)"
  by (rule bit_word_eqI) (auto simp: bit_and_iff)

lemma or_and_not: "(x OR y) AND NOT y = x AND NOT (y :: u64)"
  by (rule bit_word_eqI) (auto simp: bit_and_iff bit_or_iff bit_not_iff)

lemma htable_val_loop_shape:
  assumes "shape ht t"
  shows "(\<And>k. k < d \<Longrightarrow> t ! ((i + k) mod length t) \<noteq> 0 \<and>
      \<not> hit ht (if k = 0 then h2 else h2 AND NOT pf) (t ! ((i + k) mod length t))) \<Longrightarrow>
    e = t ! ((i + d) mod length t) \<Longrightarrow> e = 0 \<or> hit ht (if d = 0 then h2 else h2 AND NOT pf) e \<Longrightarrow>
    htable_val_loop ht pf h2 (of_nat (i mod length t)) =
      Some (if e = 0 then 0 else get_raw_ptr ht e, of_nat ((i + d) mod length t))"
proof (induction d arbitrary: i h2)
  case 0
  then show ?case
    using tab_read_shape [OF assms, of "i mod length t"] shape_length_pos [OF assms]
    by (subst htable_val_loop.simps) (auto simp: hit_def HTABLE_DELETED_def)
next
  case (Suc d)
  have v: "t ! (i mod length t) \<noteq> 0" "\<not> hit ht h2 (t ! (i mod length t))" using Suc.prems(1) [of 0] by auto
  have *: "t ! ((Suc i + k) mod length t) \<noteq> 0 \<and>
      \<not> hit ht (if k = 0 then h2 AND NOT pf else (h2 AND NOT pf) AND NOT pf) (t ! ((Suc i + k) mod length t))"
    if "k < d" for k
    using Suc.prems(1) [of "Suc k"] that by (cases k) (simp_all add: and_not_idem)
  have n: "next_off ht (of_nat (i mod length t)) = Some (of_nat (Suc i mod length t))"
    using next_off_shape [OF assms, of "i mod length t"] shape_length_pos [OF assms] by (simp add: mod_Suc_eq)
  have "htable_val_loop ht pf h2 (of_nat (i mod length t)) =
      htable_val_loop ht pf (h2 AND NOT pf) (of_nat (Suc i mod length t))"
    using v n tab_read_shape [OF assms, of "i mod length t"] shape_length_pos [OF assms]
    by (subst htable_val_loop.simps) (auto simp: hit_def HTABLE_DELETED_def)
  also have "\<dots> = Some (if e = 0 then 0 else get_raw_ptr ht e, of_nat ((Suc i + d) mod length t))"
    using Suc.prems(2,3) by (intro Suc.IH *) (auto simp: and_not_idem)
  finally show ?case by simp
qed

text \<open>
  The probe sequence of \<open>hash\<close>: slot \<open>j\<close> of it, and what the code compares there.
\<close>

definition pslot :: "u64 list \<Rightarrow> size_t \<Rightarrow> nat \<Rightarrow> nat" where
  "pslot t hash j = (unat hash mod length t + j) mod length t"

definition pbits :: "htable \<Rightarrow> size_t \<Rightarrow> nat \<Rightarrow> u64" where
  "pbits ht hash j = hbits ht hash OR (if j = 0 then ht_perfect_bit ht else 0)"

definition cand :: "htable \<Rightarrow> u64 list \<Rightarrow> size_t \<Rightarrow> nat \<Rightarrow> bool" where
  "cand ht t hash j \<longleftrightarrow> hit ht (pbits ht hash j) (t ! pslot t hash j)"

lemma htable_val_shape:
  assumes "shape ht t" "j \<le> z" "t ! pslot t hash z = 0" "\<And>k. k < z \<Longrightarrow> t ! pslot t hash k \<noteq> 0"
  shows "\<exists>j'\<ge>j. j' \<le> z \<and> (\<forall>k. j \<le> k \<and> k < j' \<longrightarrow> \<not> cand ht t hash k) \<and> (j' < z \<longrightarrow> cand ht t hash j') \<and>
    htable_val ht (of_nat (pslot t hash j)) hash (if j = 0 then ht_perfect_bit ht else 0) =
      Some (if j' = z then 0 else get_raw_ptr ht (t ! pslot t hash j'), of_nat (pslot t hash j'))"
proof -
  define j' where "j' = (LEAST k. j \<le> k \<and> (k = z \<or> cand ht t hash k))"
  have ex: "j \<le> z \<and> (z = z \<or> cand ht t hash z)" using assms(2) by simp
  have j': "j \<le> j'" "j' = z \<or> cand ht t hash j'"
    using LeastI [of "\<lambda>k. j \<le> k \<and> (k = z \<or> cand ht t hash k)", OF ex] by (simp_all add: j'_def)
  have le: "j' \<le> z" unfolding j'_def using ex by (rule Least_le)
  have no: "\<not> cand ht t hash k" if "j \<le> k" "k < j'" for k
    using not_less_Least [of k "\<lambda>k. j \<le> k \<and> (k = z \<or> cand ht t hash k)"] that by (simp add: j'_def)
  let ?pf = "if j = 0 then ht_perfect_bit ht else 0"
  have hb: "(if k = 0 then hbits ht hash OR ?pf else (hbits ht hash OR ?pf) AND NOT ?pf) = pbits ht hash (j + k)" for k
    using hbits_perfect [of ht hash] by (cases j; cases k) (simp_all add: pbits_def or_and_not)
  have sl: "(unat hash mod length t + j + k) mod length t = pslot t hash (j + k)" for k
    by (simp add: pslot_def add.assoc)
  have "htable_val_loop ht ?pf (hbits ht hash OR ?pf) (of_nat ((unat hash mod length t + j) mod length t)) =
      Some (if t ! pslot t hash j' = 0 then 0 else get_raw_ptr ht (t ! pslot t hash j'),
        of_nat ((unat hash mod length t + j + (j' - j)) mod length t))"
  proof (rule htable_val_loop_shape [OF assms(1)])
    fix k assume "k < j' - j"
    then show "t ! ((unat hash mod length t + j + k) mod length t) \<noteq> 0 \<and>
        \<not> hit ht (if k = 0 then hbits ht hash OR ?pf else (hbits ht hash OR ?pf) AND NOT ?pf)
          (t ! ((unat hash mod length t + j + k) mod length t))"
      unfolding hb sl using no [of "j + k"] assms(4) [of "j + k"] le by (simp add: cand_def)
  next
    show "t ! pslot t hash j' = t ! ((unat hash mod length t + j + (j' - j)) mod length t)"
      unfolding sl using j'(1) by simp
    show "t ! pslot t hash j' = 0 \<or>
        hit ht (if j' - j = 0 then hbits ht hash OR ?pf else (hbits ht hash OR ?pf) AND NOT ?pf) (t ! pslot t hash j')"
      unfolding hb using j' assms(3) by (auto simp: cand_def)
  qed
  moreover have "t ! pslot t hash j' = 0 \<longleftrightarrow> j' = z"
    using assms(3,4) le by (metis le_neq_implies_less)
  ultimately have "htable_val ht (of_nat (pslot t hash j)) hash ?pf =
      Some (if j' = z then 0 else get_raw_ptr ht (t ! pslot t hash j'), of_nat (pslot t hash j'))"
    unfolding sl using j'(1) assms(1) by (simp add: htable_val_def get_hash_ptr_bits_shape pslot_def)
  with j' le no show ?thesis by (intro exI [of _ j']) auto
qed

subsection \<open>Searching\<close>

lemma htable_nextval_shape:
  assumes "shape ht t"
  shows "htable_nextval ht (of_nat (pslot t hash j)) hash = htable_val ht (of_nat (pslot t hash (Suc j))) hash 0"
proof -
  have "pslot t hash j < length t" using shape_length_pos [OF assms] by (simp add: pslot_def)
  from next_off_shape [OF assms this] show ?thesis
    by (simp add: htable_nextval_def pslot_def mod_Suc_eq)
qed

lemma cand_valid:
  assumes "shape ht t" "entries_ok B ht t" "cand ht t hash j" "t ! pslot t hash j \<noteq> 0"
  shows "entry_is_valid (t ! pslot t hash j)" "get_raw_ptr ht (t ! pslot t hash j) \<noteq> 0"
proof -
  show v: "entry_is_valid (t ! pslot t hash j)" using assms(3,4) by (auto simp: cand_def hit_def valid_iff)
  have "pslot t hash j < length t" using shape_length_pos [OF assms(1)] by (simp add: pslot_def)
  from entries_okD(1) [OF assms(2) this v] show "get_raw_ptr ht (t ! pslot t hash j) \<noteq> 0"
    by (auto simp: good_ptr_def)
qed

text \<open>What the search starting at offset \<open>j\<close> returns, \<open>z\<close> being the first empty slot.\<close>

definition found :: "'k shl_htable \<Rightarrow> u64 list \<Rightarrow> size_t \<Rightarrow> 'k \<Rightarrow> nat \<Rightarrow> nat \<Rightarrow> (ptr \<times> size_t) option \<Rightarrow> bool" where
  "found T t hash obj j z r \<longleftrightarrow> (case r of
     None \<Rightarrow> \<forall>k. j \<le> k \<and> k < z \<and> cand (htable T) t hash k \<longrightarrow>
       \<not> compare T obj (get_raw_ptr (htable T) (t ! pslot t hash k))
   | Some (c, i) \<Rightarrow> \<exists>k<z. i = of_nat (pslot t hash k) \<and> entry_is_valid (t ! pslot t hash k) \<and>
       c = get_raw_ptr (htable T) (t ! pslot t hash k) \<and> compare T obj c)"

lemma ht_search_correct:
  fixes T :: "'k shl_htable"
  assumes "shape (htable T) t" "entries_ok B (htable T) t" "t ! pslot t hash z = 0"
    and "\<And>k. k < z \<Longrightarrow> t ! pslot t hash k \<noteq> 0"
  shows "j \<le> z \<Longrightarrow> \<exists>c i r. htable_val (htable T) (of_nat (pslot t hash j)) hash
      (if j = 0 then ht_perfect_bit (htable T) else 0) = Some (c, i) \<and>
    ht_search T obj hash c i = Some r \<and> found T t hash obj j z r"
proof (induction "z - j" arbitrary: j rule: less_induct)
  case less
  let ?ht = "htable T"
  from htable_val_shape [OF assms(1) less.prems assms(3,4)] obtain j' where
    j': "j \<le> j'" "j' \<le> z" "\<And>k. j \<le> k \<Longrightarrow> k < j' \<Longrightarrow> \<not> cand ?ht t hash k" "j' < z \<Longrightarrow> cand ?ht t hash j'"
    and v: "htable_val ?ht (of_nat (pslot t hash j)) hash (if j = 0 then ht_perfect_bit ?ht else 0) =
      Some (if j' = z then 0 else get_raw_ptr ?ht (t ! pslot t hash j'), of_nat (pslot t hash j'))"
    by blast
  show ?case
  proof (cases "j' = z")
    case True
    with j' have "found T t hash obj j z None" by (auto simp: found_def)
    moreover have "ht_search T obj hash 0 (of_nat (pslot t hash j')) = Some None"
      by (simp add: ht_search.simps)
    ultimately show ?thesis using v True by auto
  next
    case False
    with j'(2) have "j' < z" by simp
    let ?c = "get_raw_ptr ?ht (t ! pslot t hash j')"
    have c: "entry_is_valid (t ! pslot t hash j')" "?c \<noteq> 0"
      using cand_valid [OF assms(1,2) j'(4)] \<open>j' < z\<close> assms(4) by auto
    show ?thesis
    proof (cases "compare T obj ?c")
      case True
      then have "ht_search T obj hash ?c (of_nat (pslot t hash j')) = Some (Some (?c, of_nat (pslot t hash j')))"
        using c(2) by (subst ht_search.simps) simp
      moreover have "found T t hash obj j z (Some (?c, of_nat (pslot t hash j')))"
        using c(1) \<open>j' < z\<close> True by (auto simp: found_def)
      ultimately show ?thesis using v False by auto
    next
      case ne: False
      have "z - Suc j' < z - j" using \<open>j' < z\<close> j'(1) by linarith
      from less.hyps [OF this] \<open>j' < z\<close> obtain c i r where
        r: "htable_val ?ht (of_nat (pslot t hash (Suc j'))) hash 0 = Some (c, i)"
          "ht_search T obj hash c i = Some r" "found T t hash obj (Suc j') z r" by auto
      have "ht_search T obj hash ?c (of_nat (pslot t hash j')) = Some r"
        using c(2) ne r(1,2) htable_nextval_shape [OF assms(1), of hash j']
        by (subst ht_search.simps) simp
      moreover have "found T t hash obj j z r"
        using r(3) j'(3) ne unfolding found_def
        by (auto split: option.splits) (metis Suc_leI le_neq_implies_less not_le)
      ultimately show ?thesis using v False by auto
    qed
  qed
qed

text \<open>Every object stored with the hash is a candidate before the first empty slot.\<close>

lemma stored_candidate:
  assumes "hinv B ht t" "c \<in># stored ht t" "ht_rehash ht c = hash" "t ! pslot t hash z = 0"
  shows "\<exists>k<z. cand ht t hash k \<and> get_raw_ptr ht (t ! pslot t hash k) = c"
proof -
  have inv: "shape ht t" "masks B ht" "entries_ok B ht t" "all_reachable ht t"
    using assms(1) by (auto simp: hinv_def)
  from assms(2) obtain i where i: "i < length t" "entry_is_valid (t ! i)" "get_raw_ptr ht (t ! i) = c"
    by (auto simp: stored_def in_set_conv_nth)
  have hm: "home ht c = unat hash mod length t" using assms(3) inv(1) by (simp add: home_def shape_def)
  from inv(4) i have "reachable t (home ht c) i" by (auto simp: all_reachable_def)
  then obtain d where d: "d < length t" "i = pslot t hash d" "\<And>m. m < d \<Longrightarrow> t ! pslot t hash m \<noteq> 0"
    unfolding reachable_def hm pslot_def by blast
  have "t ! pslot t hash d \<noteq> 0" using i(2) d(2) by (auto simp: valid_iff)
  with d(3) assms(4) have "d < z" by (metis linorder_neqE_nat)
  moreover have "d = 0 \<longleftrightarrow> i = home ht c"
    using offset_home [OF d(1) home_less [OF inv(1), of c]] d(2) by (simp add: pslot_def hm)
  then have "get_extra_ptr_bits ht (t ! i) = pbits ht hash d"
    using entries_okD(2) [OF inv(3) i(1,2)] i(3) encode_extra [OF inv(2), of i c] assms(3)
    by (simp add: pbits_def)
  then have "cand ht t hash d" using i(2) d(2) by (simp add: cand_def hit_def valid_iff)
  ultimately show ?thesis using i(3) d(2) by auto
qed

text \<open>The whole search of lookup and removal, from the home bucket on.\<close>

definition search_ok :: "'k shl_htable \<Rightarrow> u64 list \<Rightarrow> size_t \<Rightarrow> 'k \<Rightarrow> (ptr \<times> size_t) option \<Rightarrow> bool" where
  "search_ok T t hash obj r \<longleftrightarrow> (case r of
     None \<Rightarrow> \<forall>c. c \<in># stored (htable T) t \<and> ht_rehash (htable T) c = hash \<longrightarrow> \<not> compare T obj c
   | Some (c, i) \<Rightarrow> \<exists>k<length t. i = of_nat k \<and> entry_is_valid (t ! k) \<and>
       c = get_raw_ptr (htable T) (t ! k) \<and> compare T obj c)"

lemma search_correct:
  assumes "hinv B (htable T) t"
  shows "\<exists>c i r. htable_firstval (htable T) hash = Some (c, i) \<and> ht_search T obj hash c i = Some r \<and>
    search_ok T t hash obj r"
proof -
  let ?ht = "htable T"
  have inv: "shape ?ht t" "entries_ok B ?ht t" using assms by (auto simp: hinv_def)
  obtain i0 where "i0 < length t" "t ! i0 = 0" using empty_slot [OF hinv_room [OF assms]] by blast
  from first_offset [of i0 t "\<lambda>e. e = 0" "unat hash mod length t", OF this] obtain z where
    z: "t ! pslot t hash z = 0" "\<And>k. k < z \<Longrightarrow> t ! pslot t hash k \<noteq> 0"
    unfolding pslot_def by blast
  from ht_search_correct [OF inv z, where j = 0 and obj = obj] obtain c i r where
    r: "htable_val ?ht (of_nat (pslot t hash 0)) hash (ht_perfect_bit ?ht) = Some (c, i)"
      "ht_search T obj hash c i = Some r" "found T t hash obj 0 z r" by auto
  have "htable_firstval ?ht hash = Some (c, i)"
    using r(1) hash_bucket_shape [OF inv(1), of hash] by (simp add: htable_firstval_def pslot_def)
  moreover have "pslot t hash k < length t" for k
    using shape_length_pos [OF inv(1)] by (simp add: pslot_def)
  then have "search_ok T t hash obj r"
    using r(3) stored_candidate [OF assms _ _ z(1)]
    by (fastforce simp: found_def search_ok_def split: option.splits prod.splits)
  ultimately show ?thesis using r(2) by blast
qed

lemma search_empty:
  assumes "htable T = htable_init f"
  shows "\<exists>i. htable_firstval (htable T) hash = Some (0, i) \<and> ht_search T obj hash 0 i = Some None"
proof -
  have "hash_bucket (htable T) hash = Some 0"
    by (simp add: assms hash_bucket_def htable_init_eq int_shl1_def)
  moreover have "htable_val_loop (htable T) 0 h2 0 = Some (0, 0)" for h2
    by (subst htable_val_loop.simps) (simp add: assms htable_init_eq tab_read_def)
  ultimately show ?thesis
    by (simp add: htable_firstval_def htable_val_def get_hash_ptr_bits_def assms htable_init_eq ht_search.simps)
qed

lemma htable_lookup_correct:
  assumes "ht_ok B (htable T) S"
  shows "\<exists>r. shl_htable_lookup T obj hash = Some r \<and>
    (case r of None \<Rightarrow> \<forall>c. c \<in># S \<and> ht_rehash (htable T) c = hash \<longrightarrow> \<not> compare T obj c
     | Some c \<Rightarrow> c \<in># S \<and> compare T obj c)"
  using assms [unfolded ht_ok_def]
proof (elim disjE conjE exE)
  assume "htable T = htable_init (ht_rehash (htable T))" "S = {#}"
  with search_empty [of T "ht_rehash (htable T)" hash obj] show ?thesis
    by (auto simp: shl_htable_lookup_def)
next
  fix t assume t: "hinv B (htable T) t" "S = stored (htable T) t"
  from search_correct [OF t(1), of hash obj] obtain c i r where
    "htable_firstval (htable T) hash = Some (c, i)" "ht_search T obj hash c i = Some r"
    "search_ok T t hash obj r" by blast
  then show ?thesis
    using t(2) by (cases r) (auto simp: shl_htable_lookup_def search_ok_def stored_def)
qed

subsection \<open>Removal\<close>

lemma htable_delval_correct:
  assumes "hinv B ht t" "k < length t" "entry_is_valid (t ! k)"
  shows "\<exists>ht'. htable_delval ht (of_nat k) = Some ht' \<and> hinv B ht' (t[k := 1]) \<and>
    stored ht' (t[k := 1]) = stored ht t - {#get_raw_ptr ht (t ! k)#} \<and> ht_rehash ht' = ht_rehash ht"
proof -
  define ht' where "ht' = ht\<lparr>ht_elems := ht_elems ht - 1, ht_table := Some (t[k := 1]), ht_deleted := ht_deleted ht + 1\<rparr>"
  have inv: "shape ht t" "masks B ht" "entries_ok B ht t" "all_reachable ht t" using assms(1) by (auto simp: hinv_def)
  obtain n where n: "size_shl1 (ht_bits ht) = Some n" "unat n = length t"
    using size_shl1_shape [OF inv(1)] by blast
  have "of_nat k < n"
    using n(2) assms(2) shape_length_bound [OF inv(1)] by (simp add: word_less_nat_alt unat_of_nat_idx)
  then have "htable_delval ht (of_nat k) = Some ht'"
    using n(1) assms(2,3) inv(1) tab_read_shape [OF inv(1) assms(2)]
      tab_write_shape [of "ht\<lparr>ht_elems := ht_elems ht - 1\<rparr>" t k HTABLE_DELETED]
    by (simp add: htable_delval_def ht'_def HTABLE_DELETED_def shape_def)
  moreover have st: "stored ht (t[k := 1]) = stored ht t - {#get_raw_ptr ht (t ! k)#}"
    using assms(2,3) by (simp add: stored_update valid_iff)
  moreover have "get_raw_ptr ht (t ! k) \<in># stored ht t" using assms(2,3) by (auto simp: stored_def)
  then have sz: "Suc (size (stored ht (t[k := 1]))) = size (stored ht t)"
    unfolding st by (metis insert_DiffM size_add_mset)
  have el: "unat (ht_elems ht) = size (stored ht t)" using assms(1) by (simp add: hinv_def)
  have "ht_elems ht \<noteq> 0" using el sz by auto
  then have el': "unat (ht_elems ht - 1) = size (stored ht (t[k := 1]))"
    using el sz by (simp add: unat_sub_nowrap word_le_nat_alt)
  have mwd: "unat (ht_elems ht) + unat (ht_deleted ht) \<le> 9 * length t div 10" using assms(1) by (simp add: hinv_def)
  then have "unat (ht_deleted ht) + 1 < 2 ^ 64" using shape_length_bound [OF inv(1)] by simp
  then have de: "unat (ht_deleted ht + 1) = Suc (unat (ht_deleted ht))" by (simp add: unat_add_nowrap)
  have "reachable (t[k := 1]) h i" if "reachable t h i" for h i using that by (rule reachable_update) simp
  then have "all_reachable ht (t[k := 1])"
    using inv(4) by (auto simp: all_reachable_def nth_update_if valid_iff)
  moreover have "entries_ok B ht (t[k := 1])"
    using inv(3) by (rule entries_ok_update) (simp add: valid_iff)
  moreover have "dels (t[k := 1]) \<le> Suc (unat (ht_deleted ht))"
    using assms(1-3) by (simp add: dels_update valid_iff hinv_def)
  ultimately show ?thesis
    using assms(1) el' de sz el unfolding hinv_def by (auto simp: ht'_def shape_def)
qed

lemma htable_remove_correct:
  assumes "ht_ok B (htable T) S"
  shows "\<exists>T' r. shl_htable_remove T obj hash = Some (T', r) \<and> compare T' = compare T \<and>
    ht_rehash (htable T') = ht_rehash (htable T) \<and>
    (case r of
       None \<Rightarrow> T' = T \<and> (\<forall>c. c \<in># S \<and> ht_rehash (htable T) c = hash \<longrightarrow> \<not> compare T obj c)
     | Some c \<Rightarrow> c \<in># S \<and> compare T obj c \<and> ht_ok B (htable T') (S - {#c#}))"
  using assms [unfolded ht_ok_def]
proof (elim disjE conjE exE)
  assume "htable T = htable_init (ht_rehash (htable T))" "S = {#}"
  with search_empty [of T "ht_rehash (htable T)" hash obj] show ?thesis
    by (auto simp: shl_htable_remove_def)
next
  fix t assume t: "hinv B (htable T) t" "S = stored (htable T) t"
  from search_correct [OF t(1), of hash obj] obtain c i r where
    s: "htable_firstval (htable T) hash = Some (c, i)" "ht_search T obj hash c i = Some r"
    "search_ok T t hash obj r" by blast
  show ?thesis
  proof (cases r)
    case None
    with s t(2) show ?thesis by (auto simp: shl_htable_remove_def search_ok_def)
  next
    case (Some ci)
    with s(3) obtain k where k: "k < length t" "ci = (get_raw_ptr (htable T) (t ! k), of_nat k)"
      "entry_is_valid (t ! k)" "compare T obj (get_raw_ptr (htable T) (t ! k))"
      by (cases ci) (auto simp: search_ok_def)
    from htable_delval_correct [OF t(1) k(1,3)] obtain ht' where
      "htable_delval (htable T) (of_nat k) = Some ht'" "hinv B ht' (t[k := 1])"
      "stored ht' (t[k := 1]) = stored (htable T) t - {#get_raw_ptr (htable T) (t ! k)#}"
      "ht_rehash ht' = ht_rehash (htable T)" by blast
    moreover have "get_raw_ptr (htable T) (t ! k) \<in># stored (htable T) t"
      using k(1,3) by (auto simp: stored_def)
    ultimately show ?thesis
      using s(1,2) k t(2) Some by (auto simp: shl_htable_remove_def ht_ok_def)
  qed
qed

end
