(* ===== verification/Shl_Htable_Grow.thy ===== *)
theory Shl_Htable_Grow
  imports Shl_Htable_Find
begin

text \<open>
  The parts of insertion that reorganise the hash table: giving common bits back to the entries,
  doubling the table, and rehashing it in place to get rid of the markers of removed entries. Each
  keeps the stored objects and restores the invariant.
\<close>

subsection \<open>Giving common bits back\<close>

definition core :: "nat \<Rightarrow> htable \<Rightarrow> u64 list \<Rightarrow> bool" where
  "core B ht t \<longleftrightarrow> shape ht t \<and> entries_ok B ht t \<and> all_reachable ht t \<and>
     unat (ht_elems ht) = size (stored ht t) \<and> dels t \<le> unat (ht_deleted ht) \<and>
     unat (ht_elems ht) \<le> unat (ht_max ht) \<and>
     unat (ht_elems ht) + unat (ht_deleted ht) \<le> unat (ht_max_with_deleted ht) \<and>
     unat (ht_max ht) = 3 * length t div 4 \<and> unat (ht_max_with_deleted ht) = 9 * length t div 10"

lemma hinv_core: "hinv B ht t \<longleftrightarrow> core B ht t \<and> masks B ht"
  by (auto simp: hinv_def core_def)

lemma stored_list: "stored ht t = mset (map (get_raw_ptr ht) (filter entry_is_valid t))"
  by (simp add: stored_def)

lemma stored_empty: "stored ht t = {#} \<longleftrightarrow> (\<forall>i<length t. \<not> entry_is_valid (t ! i))"
  by (auto simp: stored_list filter_empty_conv in_set_conv_nth)

lemma top_bit_good:
  assumes "good_ptr B p"
  shows "top_bit 63 p = B"
proof -
  have B: "bit p B" "B \<le> 63" using assms bit_imp_le_length [of p B] by (auto simp: good_ptr_def)
  then have "bit (take_bit (Suc 63) p) B" by (simp add: bit_take_bit_iff)
  then have "take_bit (Suc 63) p \<noteq> 0" by auto
  from bit_top_bit [OF this] have "\<not> B < top_bit 63 p" using assms by (auto simp: good_ptr_def)
  moreover have "\<not> top_bit 63 p < B" using top_bit_above [of 63 p B] B by blast
  ultimately show ?thesis by simp
qed

lemma update_common_first:
  assumes "core B ht t" "ht_elems ht = 0" "good_ptr B p"
  shows "\<exists>ht'. update_common ht p = Some ht' \<and> hinv B ht' t \<and> stored ht' t = stored ht t \<and>
    p AND ht_common_mask ht' = ht_common_bits ht' \<and> ht_rehash ht' = ht_rehash ht \<and>
    ht_elems ht' = ht_elems ht \<and> ht_deleted ht' = ht_deleted ht \<and>
    ht_max ht' = ht_max ht \<and> ht_max_with_deleted ht' = ht_max_with_deleted ht"
proof -
  define m :: u64 where "m = NOT (push_bit B 1)"
  define ht' where "ht' = ht\<lparr>ht_common_mask := m, ht_common_bits := p AND m, ht_perfect_bit := 1\<rparr>"
  have "update_common ht p = Some ht'"
    using assms(2,3) by (simp add: update_common_def top_bit_good ht'_def m_def Let_def)
  moreover have nv: "\<not> entry_is_valid (t ! i)" if "i < length t" for i
    using assms(1,2) that stored_empty [of ht t] by (simp add: core_def)
  then have st: "stored ht' t = {#}" "stored ht t = {#}" unfolding stored_empty by auto
  have "B < 64" "1 \<le> B" using assms(3) bit_imp_le_length [of p B] by (auto simp: good_ptr_def)
  then have "masks B ht'"
    unfolding masks_def sub_mask_iff by (auto simp: ht'_def m_def bit_simps)
  moreover have "core B ht' t"
    using assms(1,2) nv st by (auto simp: core_def ht'_def shape_def entries_ok_def all_reachable_def)
  ultimately show ?thesis using st by (auto simp: hinv_core ht'_def)
qed

text \<open>The loop over the table is a map over its entries.\<close>

definition give_back :: "u64 \<Rightarrow> u64 \<Rightarrow> u64 \<Rightarrow> u64" where
  "give_back md bd e = (if entry_is_valid e then (e AND NOT md) OR bd else e)"

lemma give_back_loop:
  assumes "shape ht t"
  shows "foldM (\<lambda>i ht. do {
      e \<leftarrow> tab_read ht (of_nat i);
      if \<not> entry_is_valid e then Some ht
      else tab_write ht (of_nat i) ((e AND NOT md) OR bd) }) [0..<length t] ht =
    Some (ht\<lparr>ht_table := Some (map (give_back md bd) t)\<rparr>)"
proof -
  let ?f = "\<lambda>i ht. do {
      e \<leftarrow> tab_read ht (of_nat i);
      if \<not> entry_is_valid e then Some ht
      else tab_write ht (of_nat i) ((e AND NOT md) OR bd) }"
  let ?P = "\<lambda>i ht'. ht' = ht\<lparr>ht_table := Some (map (give_back md bd) (take i t) @ drop i t)\<rparr>"
  have "\<exists>s'. foldM ?f [0..<length t] ht = Some s' \<and> ?P (length t) s'"
  proof (rule foldM_upt_inv)
    show "?P 0 ht" using assms by (simp add: shape_def)
    fix i ht' assume i: "i < length t" and P: "?P i ht'"
    let ?t = "map (give_back md bd) (take i t) @ drop i t"
    have sh: "shape ht' ?t" using assms P by (simp add: shape_def)
    have len: "i < length ?t" and nth: "?t ! i = t ! i" using i by (simp_all add: nth_append)
    have upd: "?t[i := give_back md bd (t ! i)] = map (give_back md bd) (take (Suc i) t) @ drop (Suc i) t"
      using i by (simp add: take_Suc_conv_app_nth list_update_append) (metis Cons_nth_drop_Suc list_update_code(2))
    show "\<exists>s'. ?f i ht' = Some s' \<and> ?P (Suc i) s'"
    proof (cases "entry_is_valid (t ! i)")
      case True
      then show ?thesis
        using tab_read_shape [OF sh len] tab_write_shape [OF sh len] P upd nth by (simp add: give_back_def)
    next
      case False
      then have "?t = map (give_back md bd) (take (Suc i) t) @ drop (Suc i) t"
        using upd nth by (metis give_back_def list_update_id)
      with False show ?thesis using tab_read_shape [OF sh len] P nth by simp
    qed
  qed
  then show ?thesis by simp
qed

text \<open>The new masks, and what they do to an entry.\<close>

definition widen :: "htable \<Rightarrow> u64 \<Rightarrow> htable" where
  "widen ht md = ht\<lparr>ht_common_mask := ht_common_mask ht AND NOT md,
     ht_common_bits := ht_common_bits ht AND NOT md, ht_perfect_bit := ht_perfect_bit ht AND NOT md\<rparr>"

lemma widen_masks: "masks B ht \<Longrightarrow> masks B (widen ht md)"
  unfolding masks_def sub_mask_iff widen_def by (auto simp: bit_and_iff)

lemma widen_home [simp]: "home (widen ht md) = home ht" "ht_rehash (widen ht md) = ht_rehash ht"
  by (auto simp: fun_eq_iff home_def widen_def)

lemma widen_raw:
  assumes "masks B ht" "md AND ht_common_mask ht = md" "bd = ht_common_bits ht AND md" "entry_is_valid e"
  shows "get_raw_ptr (widen ht md) (give_back md bd e) = get_raw_ptr ht e"
  using assms unfolding masks_def sub_mask_iff
  by (auto intro!: bit_word_eqI simp: widen_def give_back_def get_raw_ptr_def bit_and_iff bit_or_iff bit_not_iff)

lemma widen_encode:
  assumes "masks B ht" "md AND ht_common_mask ht = md" "bd = ht_common_bits ht AND md"
    and "q AND ht_common_mask ht = ht_common_bits ht" "entry_is_valid (encode ht i q)"
  shows "give_back md bd (encode ht i q) = encode (widen ht md) i q"
proof (rule bit_word_eqI)
  fix n assume "n < LENGTH(64)"
  have q: "bit (ht_common_bits ht) n \<longleftrightarrow> bit q n \<and> bit (ht_common_mask ht) n"
    using assms(4) by (metis bit_and_iff)
  have m: "bit (ht_perfect_bit ht) n \<longrightarrow> bit (ht_common_mask ht) n" "bit md n \<longrightarrow> bit (ht_common_mask ht) n"
    using assms(1,2) unfolding masks_def sub_mask_iff by blast+
  have "bit (give_back md bd (encode ht i q)) n \<longleftrightarrow>
      bit (encode ht i q) n \<and> \<not> bit md n \<or> bit (ht_common_bits ht) n \<and> bit md n"
    using assms(3,5) \<open>n < _\<close> by (simp add: give_back_def bit_and_iff bit_or_iff bit_not_iff)
  moreover have "bit (encode ht i q) n \<longleftrightarrow> bit q n \<and> \<not> bit (ht_common_mask ht) n \<or>
      bit (hbits ht (ht_rehash ht q)) n \<or> i = home ht q \<and> bit (ht_perfect_bit ht) n"
    using \<open>n < _\<close> by (simp add: encode_def make_hval_def bit_and_iff bit_or_iff bit_not_iff)
  moreover have "bit (encode (widen ht md) i q) n \<longleftrightarrow> bit q n \<and> \<not> (bit (ht_common_mask ht) n \<and> \<not> bit md n) \<or>
      bit (hbits (widen ht md) (ht_rehash ht q)) n \<or> i = home ht q \<and> bit (ht_perfect_bit ht) n \<and> \<not> bit md n"
    using \<open>n < _\<close> by (simp add: encode_def make_hval_def bit_and_iff bit_or_iff bit_not_iff)
      (simp add: widen_def bit_and_iff bit_not_iff)
  moreover have "bit (hbits (widen ht md) (ht_rehash ht q)) n \<longleftrightarrow> bit (hbits ht (ht_rehash ht q)) n \<and> \<not> bit md n"
    using \<open>n < _\<close> m by (auto simp: hbits_def widen_def bit_and_iff bit_or_iff bit_not_iff)
  moreover have "bit (hbits ht (ht_rehash ht q)) n \<longrightarrow> bit (ht_common_mask ht) n"
    by (simp add: hbits_def bit_and_iff)
  ultimately show "bit (give_back md bd (encode ht i q)) n = bit (encode (widen ht md) i q) n"
    using q m by blast
qed

lemma give_back_valid:
  assumes "masks B ht" "md AND ht_common_mask ht = md" "good_ptr B (get_raw_ptr ht e)"
  shows "entry_is_valid (give_back md bd e) \<longleftrightarrow> entry_is_valid e"
proof (cases "entry_is_valid e")
  case True
  have B: "\<not> bit (ht_common_mask ht) B" "\<not> bit (ht_common_bits ht) B" "\<not> bit md B"
    using assms(1,2) unfolding masks_def sub_mask_iff by blast+
  then have "bit e B" using assms(3) by (simp add: good_ptr_def get_raw_ptr_def bit_or_iff bit_and_iff)
  then have "bit (give_back md bd e) B"
    using B True bit_imp_le_length [of e B] by (simp add: give_back_def bit_or_iff bit_and_iff bit_not_iff)
  with assms(3) have "entry_is_valid (give_back md bd e)" by (intro bit_valid) (auto simp: good_ptr_def)
  with True show ?thesis by simp
qed (simp add: give_back_def)

lemma give_back_entry:
  assumes "masks B ht" "md AND ht_common_mask ht = md" "entries_ok B ht t" "e \<in> set t"
  shows "entry_is_valid (give_back md bd e) \<longleftrightarrow> entry_is_valid e"
    "give_back md bd e = 0 \<longleftrightarrow> e = 0" "give_back md bd e = 1 \<longleftrightarrow> e = 1"
proof -
  show v: "entry_is_valid (give_back md bd e) \<longleftrightarrow> entry_is_valid e"
  proof (cases "entry_is_valid e")
    case True
    with assms(3,4) have "good_ptr B (get_raw_ptr ht e)" by (metis entries_okD(1) in_set_conv_nth)
    then show ?thesis by (rule give_back_valid [OF assms(1,2)])
  qed (simp add: give_back_def)
  show "give_back md bd e = 0 \<longleftrightarrow> e = 0" "give_back md bd e = 1 \<longleftrightarrow> e = 1"
    using v by (auto simp: valid_iff give_back_def split: if_splits)
qed

lemma give_back_stored:
  assumes "masks B ht" "md AND ht_common_mask ht = md" "bd = ht_common_bits ht AND md" "entries_ok B ht t"
  shows "stored (widen ht md) (map (give_back md bd) t) = stored ht t" "dels (map (give_back md bd) t) = dels t"
proof -
  note entry = give_back_entry [OF assms(1,2,4)]
  have "filter (\<lambda>e. entry_is_valid (give_back md bd e)) t = filter entry_is_valid t"
    using entry(1) by (intro filter_cong) auto
  moreover have "map (\<lambda>e. get_raw_ptr (widen ht md) (give_back md bd e)) (filter entry_is_valid t) =
      map (get_raw_ptr ht) (filter entry_is_valid t)"
    using widen_raw [OF assms(1-3)] by (intro map_cong) auto
  ultimately have "map (\<lambda>e. get_raw_ptr (widen ht md) (give_back md bd e))
      (filter (\<lambda>e. entry_is_valid (give_back md bd e)) t) = map (get_raw_ptr ht) (filter entry_is_valid t)"
    by simp
  then show "stored (widen ht md) (map (give_back md bd) t) = stored ht t"
    by (simp add: stored_list filter_map o_def flip: mset_map)
  have "filter (\<lambda>e. 1 = give_back md bd e) t = filter ((=) 1) t"
    using entry(3) by (intro filter_cong) auto
  then show "dels (map (give_back md bd) t) = dels t"
    unfolding dels_def count_mset by (simp add: count_list_eq_length_filter filter_map o_def)
qed

lemma give_back_ok:
  assumes "masks B ht" "md AND ht_common_mask ht = md" "bd = ht_common_bits ht AND md"
    and "entries_ok B ht t" "all_reachable ht t"
  shows "entries_ok B (widen ht md) (map (give_back md bd) t)"
    "all_reachable (widen ht md) (map (give_back md bd) t)"
proof -
  note entry = give_back_entry [OF assms(1,2,4)]
  have e: "entry_is_valid (t ! i)" "get_raw_ptr (widen ht md) (give_back md bd (t ! i)) = get_raw_ptr ht (t ! i)"
    if "i < length t" "entry_is_valid (give_back md bd (t ! i))" for i
    using that entry(1) [of "t ! i"] widen_raw [OF assms(1-3), of "t ! i"] by simp_all
  show "entries_ok B (widen ht md) (map (give_back md bd) t)"
    unfolding entries_ok_def
    using e entries_okD [OF assms(4)] widen_encode [OF assms(1-3) get_raw_common [OF assms(1)]]
    by auto metis
  have "reachable (map (give_back md bd) t) h i" if "reachable t h i" for h i
  proof -
    from that obtain d where d: "d < length t" "i = (h + d) mod length t"
      "\<forall>m<d. t ! ((h + m) mod length t) \<noteq> 0" unfolding reachable_def by blast
    have "(h + m) mod length t < length t" for m using d(1) by (intro mod_less_divisor) linarith
    with d entry(2) show ?thesis unfolding reachable_def by (auto intro!: exI [of _ d])
  qed
  then show "all_reachable (widen ht md) (map (give_back md bd) t)"
    using assms(5) e by (auto simp: all_reachable_def)
qed

lemma update_common_more:
  assumes "hinv B ht t" "ht_elems ht \<noteq> 0"
  shows "\<exists>ht' t'. update_common ht p = Some ht' \<and> hinv B ht' t' \<and> stored ht' t' = stored ht t \<and>
    p AND ht_common_mask ht' = ht_common_bits ht' \<and> ht_rehash ht' = ht_rehash ht \<and>
    ht_elems ht' = ht_elems ht \<and> ht_deleted ht' = ht_deleted ht \<and>
    ht_max ht' = ht_max ht \<and> ht_max_with_deleted ht' = ht_max_with_deleted ht"
proof -
  have inv: "shape ht t" "masks B ht" "entries_ok B ht t" "all_reachable ht t" "core B ht t"
    using assms(1) by (auto simp: hinv_core core_def)
  define md where "md = ht_common_bits ht XOR (p AND ht_common_mask ht)"
  define bd where "bd = ht_common_bits ht AND md"
  define t' where "t' = map (give_back md bd) t"
  define ht' where "ht' = (widen ht md)\<lparr>ht_table := Some t'\<rparr>"
  obtain n where n: "size_shl1 (ht_bits ht) = Some n" "unat n = length t"
    using size_shl1_shape [OF inv(1)] by blast
  have "update_common ht p = Some ht'"
    using assms(2) n give_back_loop [OF inv(1), of md "ht_common_bits ht AND md"]
    by (simp add: update_common_def Let_def ht'_def widen_def t'_def bd_def flip: md_def)
  moreover have md: "md AND ht_common_mask ht = md"
    using inv(2) unfolding masks_def sub_mask_iff md_def by (auto simp: bit_xor_iff bit_and_iff)
  moreover have st: "stored ht' t' = stored ht t" "dels t' = dels t"
    using give_back_stored [OF inv(2) md bd_def inv(3)] by (simp_all add: ht'_def t'_def)
  moreover have "p AND ht_common_mask ht' = ht_common_bits ht'"
    by (rule bit_word_eqI) (auto simp: ht'_def widen_def md_def bit_and_iff bit_xor_iff bit_not_iff)
  moreover have "hinv B ht' t'"
    using inv(5) st give_back_ok [OF inv(2) md bd_def inv(3,4)] widen_masks [OF inv(2), of md]
    by (auto simp: hinv_core core_def ht'_def t'_def shape_def) (simp_all add: widen_def)
  ultimately show ?thesis
    by (intro exI [of _ ht'] exI [of _ t']) (simp add: ht'_def widen_def)
qed

subsection \<open>Doubling\<close>

lemma table_limits:
  assumes "b \<le> 30"
  shows "unat (push_bit b 3 div 4 :: size_t) = 3 * 2 ^ b div 4"
    "unat (push_bit b 9 div 10 :: size_t) = 9 * 2 ^ b div 10"
proof -
  have b: "(2 :: nat) ^ b \<le> 2 ^ 30" using assms by (intro power_increasing) auto
  have "unat (push_bit b (of_nat c) :: size_t) = c * 2 ^ b" if "c \<le> 9" for c
  proof -
    have "c * 2 ^ b \<le> 9 * 2 ^ 30" using that b by (intro mult_mono) auto
    then have "unat (of_nat (c * 2 ^ b) :: size_t) = c * 2 ^ b" by (subst unat_of_nat) simp
    moreover have "push_bit b (of_nat c) = (of_nat (c * 2 ^ b) :: size_t)" by (simp add: push_bit_eq_mult)
    ultimately show ?thesis by (simp only:)
  qed
  from this [of 3] this [of 9] show "unat (push_bit b 3 div 4 :: size_t) = 3 * 2 ^ b div 4"
    "unat (push_bit b 9 div 10 :: size_t) = 9 * 2 ^ b div 10"
    by (simp_all add: unat_div_distrib)
qed

lemma word_and_bit_zero: "\<not> bit m i \<Longrightarrow> m AND push_bit i 1 = (0 :: u64)"
  by (rule bit_word_eqI) (auto simp: bit_simps)

lemma low_bit_sub: "low_bit m AND m = low_bit m"
proof (cases "find (\<lambda>i. m AND push_bit i 1 \<noteq> 0) [0..<64]")
  case (Some i)
  then have "m AND push_bit i 1 \<noteq> 0" "i < 64" by (auto simp: find_Some_iff)
  then have "bit m i" using word_and_bit_zero by blast
  with Some show ?thesis unfolding sub_mask_iff low_bit_def by (auto simp: bit_simps)
qed (simp add: low_bit_def)

text \<open>The table after the allocation and before the entries are added again.\<close>

definition doubled :: "htable \<Rightarrow> u64 list \<Rightarrow> htable" where
  "doubled ht t = ht\<lparr>ht_table := Some t, ht_bits := ht_bits ht + 1,
     ht_max := push_bit (unat (ht_bits ht + 1)) 3 div 4,
     ht_max_with_deleted := push_bit (unat (ht_bits ht + 1)) 9 div 10,
     ht_perfect_bit := (if ht_perfect_bit ht = 0 \<and> ht_common_mask ht \<noteq> 0
                        then low_bit (ht_common_mask ht) else ht_perfect_bit ht)\<rparr>"

lemma doubled_simps [simp]:
  "ht_rehash (doubled ht t) = ht_rehash ht" "ht_elems (doubled ht t) = ht_elems ht"
  "ht_bits (doubled ht t) = ht_bits ht + 1" "get_raw_ptr (doubled ht t) = get_raw_ptr ht"
  "(doubled ht t)\<lparr>ht_table := Some t\<rparr> = doubled ht t"
  by (auto simp: doubled_def fun_eq_iff get_raw_ptr_def)

lemma doubled_masks: "masks B ht \<Longrightarrow> masks B (doubled ht t)"
  by (auto simp: masks_def doubled_def low_bit_sub)

lemma doubled_bits: "unat (ht_bits ht) \<le> 29 \<Longrightarrow> unat (ht_bits ht + 1) = Suc (unat (ht_bits ht))"
  by (simp add: unat_add_nowrap)

lemma doubled_shape:
  "unat (ht_bits ht) \<le> 29 \<Longrightarrow> length t = 2 * 2 ^ unat (ht_bits ht) \<Longrightarrow>
   shape ((doubled ht t0)\<lparr>ht_table := Some t\<rparr>) t"
  by (simp add: shape_def doubled_bits)

lemma size_int_shl:
  assumes "unat (ht_bits ht) \<le> 29"
  shows "int_shl1 (ht_bits ht + 1) = Some (2 * 2 ^ unat (ht_bits ht))"
    "size_shl1 (ht_bits ht) = Some (2 ^ unat (ht_bits ht))"
    "unat (2 * 2 ^ unat (ht_bits ht) :: size_t) = 2 * 2 ^ unat (ht_bits ht)"
    "ucast (2 * 2 ^ unat (ht_bits ht) :: u32) = (2 * 2 ^ unat (ht_bits ht) :: size_t)"
proof -
  let ?b = "unat (ht_bits ht)"
  show "int_shl1 (ht_bits ht + 1) = Some (2 * 2 ^ ?b)" "size_shl1 (ht_bits ht) = Some (2 ^ ?b)"
    using assms by (auto simp: int_shl1_def size_shl1_def doubled_bits)
  show u: "unat (2 * 2 ^ ?b :: size_t) = 2 * 2 ^ ?b"
    using assms unat_exp [of "Suc ?b", where ?'a = 64] by simp
  have "unat (2 * 2 ^ ?b :: u32) = 2 * 2 ^ ?b"
    using assms unat_exp [of "Suc ?b", where ?'a = 32] by simp
  moreover have "(2 :: nat) * 2 ^ ?b < 2 ^ 64"
    using assms power_strict_increasing [of "Suc ?b" 64 "2 :: nat"] by simp
  ultimately show "ucast (2 * 2 ^ ?b :: u32) = (2 * 2 ^ ?b :: size_t)"
    using u by (intro word_of_unat_eqI) (simp add: unat_ucast_mod)
qed

lemma double_table_unfold:
  assumes "unat (ht_bits ht) \<le> 29" "\<not> alloc_fails env (2 * 2 ^ unat (ht_bits ht) * 8)"
  shows "double_table env ht = do {
     ht \<leftarrow> (case ht_table ht of
        None \<Rightarrow> Some (doubled ht (replicate (2 * 2 ^ unat (ht_bits ht)) 0))
      | Some old \<Rightarrow>
          foldM (\<lambda>i ht. if i < length old then
              let e = old ! i in
              if entry_is_valid e then
                let p = get_raw_ptr ht e in ht_add ht p (ht_rehash ht p)
              else Some ht
            else None) [0..<2 ^ unat (ht_bits ht)] (doubled ht (replicate (2 * 2 ^ unat (ht_bits ht)) 0)));
     Some (ht\<lparr>ht_deleted := 0\<rparr>, True) }"
proof -
  let ?b = "unat (ht_bits ht)"
  show ?thesis
    using assms size_int_shl [OF assms(1)] unat_exp [of ?b, where ?'a = 64]
    by (simp add: double_table_def calloc_tab_def doubled_def Let_def if_distrib cong: option.case_cong)
qed

lemma double_table_fail:
  assumes "unat (ht_bits ht) \<le> 29" "alloc_fails env (2 * 2 ^ unat (ht_bits ht) * 8)"
  shows "double_table env ht = Some (ht, False)"
  using assms size_int_shl [OF assms(1)] by (simp add: double_table_def calloc_tab_def)

text \<open>The entries of the old table, added one after the other to the new one.\<close>

lemma readd_correct:
  assumes "hinv B ht t" "unat (ht_bits ht) \<le> 29"
  defines "t0 \<equiv> replicate (2 * length t) (0 :: u64)"
  defines "h0 \<equiv> doubled ht t0"
  shows "\<exists>t'. foldM (\<lambda>i ht. if i < length t then
      let e = t ! i in
      if entry_is_valid e then
        let p = get_raw_ptr ht e in ht_add ht p (ht_rehash ht p)
      else Some ht
    else None) [0..<length t] h0 = Some (h0\<lparr>ht_table := Some t'\<rparr>) \<and> length t' = 2 * length t \<and>
    entries_ok B h0 t' \<and> all_reachable h0 t' \<and> dels t' = 0 \<and> stored h0 t' = stored ht t"
proof -
  let ?f = "\<lambda>i ht. if i < length t then
      let e = t ! i in
      if entry_is_valid e then
        let p = get_raw_ptr ht e in ht_add ht p (ht_rehash ht p)
      else Some ht
    else None"
  let ?P = "\<lambda>i h. \<exists>t'. h = h0\<lparr>ht_table := Some t'\<rparr> \<and> length t' = 2 * length t \<and> entries_ok B h0 t' \<and>
    all_reachable h0 t' \<and> dels t' = 0 \<and>
    stored h0 t' = mset (map (get_raw_ptr ht) (filter entry_is_valid (take i t)))"
  have inv: "shape ht t" "masks B ht" "entries_ok B ht t" using assms(1) by (auto simp: hinv_def)
  have m: "masks B h0" using inv(2) by (simp add: h0_def doubled_masks)
  have len: "length t = 2 ^ unat (ht_bits ht)" using inv(1) by (simp add: shape_def)
  have "\<exists>h. foldM ?f [0..<length t] h0 = Some h \<and> ?P (length t) h"
  proof (rule foldM_upt_inv [where P = ?P])
    show "?P 0 h0"
      by (intro exI [of _ t0])
         (simp add: h0_def t0_def entries_ok_def all_reachable_def valid_iff dels_def stored_list)
    fix i h assume i: "i < length t" and "?P i h"
    then obtain t' where t': "h = h0\<lparr>ht_table := Some t'\<rparr>" "length t' = 2 * length t" "entries_ok B h0 t'"
      "all_reachable h0 t'" "dels t' = 0"
      "stored h0 t' = mset (map (get_raw_ptr ht) (filter entry_is_valid (take i t)))" by blast
    show "\<exists>h'. ?f i h = Some h' \<and> ?P (Suc i) h'"
    proof (cases "entry_is_valid (t ! i)")
      case False
      with i t' show ?thesis by (auto simp: take_Suc_conv_app_nth)
    next
      case True
      let ?p = "get_raw_ptr ht (t ! i)"
      have sh: "shape h t'"
        using doubled_shape [OF assms(2), of t' t0] t'(1,2) len by (simp add: h0_def)
      have "size (stored h0 t') \<le> i"
        unfolding t'(6) size_mset length_map using length_filter_le [of entry_is_valid "take i t"] i by simp
      then have "size (stored h t') + dels t' < length t'" using t' i by simp
      moreover have "?p AND ht_common_mask h = ht_common_bits h"
        using get_raw_common [OF inv(2), of "t ! i"] t'(1) by (simp add: h0_def doubled_def)
      moreover have "good_ptr B ?p" using entries_okD(1) [OF inv(3) i True] .
      ultimately obtain t2 where
        "ht_add h ?p (ht_rehash h ?p) = Some (h\<lparr>ht_table := Some t2\<rparr>)" "length t2 = length t'"
        "entries_ok B h t2" "stored h t2 = add_mset ?p (stored h t')" "dels t2 \<le> dels t'" "all_reachable h t2"
        using ht_add_correct [OF sh, of B ?p] m t'(1,3,4) by auto
      moreover have "get_raw_ptr h0 = get_raw_ptr ht" by (simp add: h0_def)
      ultimately show ?thesis using True i t'
        by (auto simp: take_Suc_conv_app_nth)
    qed
  qed
  then show ?thesis by (auto simp: stored_list)
qed

text \<open>\<open>room\<close>: there is room for one more entry.\<close>

definition room :: "htable \<Rightarrow> bool" where
  "room ht \<longleftrightarrow> unat (ht_elems ht) + 1 \<le> unat (ht_max ht) \<and>
     unat (ht_elems ht) + 1 + unat (ht_deleted ht) \<le> unat (ht_max_with_deleted ht)"

lemma limits_grow:
  "0 < n \<Longrightarrow> e \<le> 3 * n div 4 \<Longrightarrow> e + 1 \<le> 3 * (2 * n) div 4 \<and> e + 1 \<le> 9 * (2 * n) div (10 :: nat)"
  by (cases "n = 1") (auto simp: less_eq_div_iff_mult_less_eq)

lemma double_table_correct:
  assumes "hinv B ht t" "unat (ht_bits ht) \<le> 29" "\<not> alloc_fails env (2 * 2 ^ unat (ht_bits ht) * 8)"
  shows "\<exists>ht' t'. double_table env ht = Some (ht', True) \<and> hinv B ht' t' \<and> stored ht' t' = stored ht t \<and>
    ht_rehash ht' = ht_rehash ht \<and> room ht'"
proof -
  let ?h0 = "doubled ht (replicate (2 * length t) 0)"
  have inv: "shape ht t" "masks B ht" using assms(1) by (auto simp: hinv_def)
  then have len: "length t = 2 ^ unat (ht_bits ht)" and tab: "ht_table ht = Some t" by (auto simp: shape_def)
  from readd_correct [OF assms(1,2)] obtain t' where
    t': "foldM (\<lambda>i ht. if i < length t then
        let e = t ! i in
        if entry_is_valid e then
          let p = get_raw_ptr ht e in ht_add ht p (ht_rehash ht p)
        else Some ht
      else None) [0..<length t] ?h0 = Some (?h0\<lparr>ht_table := Some t'\<rparr>)" "length t' = 2 * length t"
    "entries_ok B ?h0 t'" "all_reachable ?h0 t'" "dels t' = 0" "stored ?h0 t' = stored ht t" by blast
  define ht' where "ht' = ?h0\<lparr>ht_table := Some t', ht_deleted := 0\<rparr>"
  have "double_table env ht = Some (ht', True)"
    using t'(1) tab len by (simp add: double_table_unfold [OF assms(2,3)] ht'_def)
  moreover have "shape (?h0\<lparr>ht_table := Some t'\<rparr>) t'"
    using doubled_shape [OF assms(2), of t'] t'(2) len by simp
  moreover have lim: "unat (ht_max ht') = 3 * length t' div 4" "unat (ht_max_with_deleted ht') = 9 * length t' div 10"
    using table_limits [of "Suc (unat (ht_bits ht))"] assms(2) t'(2) len
    by (simp_all add: ht'_def doubled_def doubled_bits)
  moreover have "unat (ht_elems ht) \<le> 3 * length t div 4" "unat (ht_elems ht) = size (stored ht t)"
    using assms(1) by (auto simp: hinv_def)
  moreover from this have rm: "unat (ht_elems ht) + 1 \<le> 3 * length t' div 4"
    "unat (ht_elems ht) + 1 \<le> 9 * length t' div 10"
    using t'(2) limits_grow [of "length t" "unat (ht_elems ht)"] shape_length_pos [OF inv(1)] by auto
  ultimately show ?thesis
    using t'(3-6) doubled_masks [OF inv(2)]
    by (intro exI [of _ ht'] exI [of _ t']) (auto simp: hinv_def ht'_def room_def shape_def)
qed

text \<open>The first table, of two entries.\<close>

lemma double_table_first:
  assumes "ht = htable_init f" "\<not> alloc_fails env 16"
  shows "\<exists>ht'. double_table env ht = Some (ht', True) \<and> core B ht' [0, 0] \<and> ht_elems ht' = 0 \<and>
    ht_rehash ht' = f \<and> room ht' \<and> ht_common_bits ht' = 0 \<and> ht_common_mask ht' = - 1"
proof -
  define ht' where "ht' = (doubled ht [0, 0])\<lparr>ht_deleted := 0\<rparr>"
  have b: "unat (ht_bits ht) = 0" "ht_table ht = None" by (simp_all add: assms(1) htable_init_eq)
  have "double_table env ht = Some (ht', True)"
    using b assms(2) by (simp add: double_table_unfold ht'_def numeral_2_eq_2)
  moreover have "shape ht' [0, 0]"
    using b doubled_bits [of ht] by (simp add: ht'_def shape_def) (simp add: doubled_def)
  moreover have "unat (ht_max ht') = 1" "unat (ht_max_with_deleted ht') = 1"
    using table_limits [of 1] b by (simp_all add: ht'_def doubled_def doubled_bits)
  moreover have "ht_elems ht' = 0" "ht_deleted ht' = 0" "ht_rehash ht' = f" "ht_common_bits ht' = 0" "ht_common_mask ht' = - 1"
    by (simp_all add: ht'_def doubled_def assms(1) htable_init_eq)
  ultimately show ?thesis
    by (intro exI [of _ ht']) (auto simp: core_def room_def entries_ok_def all_reachable_def valid_iff
        less_Suc_eq dels_def stored_list)
qed

subsection \<open>Rehashing in place\<close>

text \<open>Slots counted from the empty slot \<open>s\<close> at which the rehash starts.\<close>

definition rslot :: "u64 list \<Rightarrow> nat \<Rightarrow> nat \<Rightarrow> u64" where
  "rslot t s j = t ! ((s + j) mod length t)"

lemma offset_inj: "j < n \<Longrightarrow> k < n \<Longrightarrow> (s + j) mod n = (s + k) mod n \<longleftrightarrow> j = (k :: nat)"
proof
  assume n: "j < n" "k < n" and eq: "(s + j) mod n = (s + k) mod n"
  define u where "u = s mod n"
  have "u < n" using n by (simp add: u_def)
  have m: "(s + x) mod n = (if u + x < n then u + x else u + x - n)" if "x < n" for x
  proof -
    have "(s + x) mod n = (u + x) mod n" by (simp add: u_def mod_add_left_eq)
    then show ?thesis using that \<open>u < n\<close> by (simp add: mod_if)
  qed
  from eq show "j = k" unfolding m [OF n(1)] m [OF n(2)] using n \<open>u < n\<close> by (auto split: if_splits)
qed simp

lemma rslot_update:
  "j < length t \<Longrightarrow> k < length t \<Longrightarrow>
   rslot (t[(s + k) mod length t := v]) s j = (if j = k then v else rslot t s j)"
proof -
  assume j: "j < length t" and k: "k < length t"
  then have "(s + j) mod length t < length t" by (intro mod_less_divisor) linarith
  with offset_inj [OF j k, of s] show ?thesis
    unfolding rslot_def length_list_update by (simp add: nth_update_if)
qed

lemma rslot_index: "i < length t \<Longrightarrow> \<exists>j<length t. t ! i = rslot t s j \<and> i = (s + j) mod length t"
  using cyclic_offset [of i "length t" s] by (metis rslot_def)

text \<open>
  The invariant of the loop after \<open>k\<close> slots: no entry sits before its home bucket (counted from
  \<open>s\<close>), and the entries in the slots already processed are reachable.
\<close>

definition rinv :: "nat \<Rightarrow> htable \<Rightarrow> ptr multiset \<Rightarrow> nat \<Rightarrow> nat \<Rightarrow> u64 list \<Rightarrow> bool" where
  "rinv B ht S s k t \<longleftrightarrow> length t = 2 ^ unat (ht_bits ht) \<and> entries_ok B ht t \<and> stored ht t = S \<and>
     (\<forall>j<k. rslot t s j \<noteq> 1) \<and>
     (\<forall>j<length t. entry_is_valid (rslot t s j) \<longrightarrow>
        (\<exists>a\<le>j. home ht (get_raw_ptr ht (rslot t s j)) = (s + a) mod length t \<and>
           (j < k \<longrightarrow> (\<forall>m. a \<le> m \<and> m < j \<longrightarrow> rslot t s m \<noteq> 0))))"

lemma rinv_start:
  assumes "hinv B ht t" "s < length t" "t ! s = 0"
  shows "rinv B ht (stored ht t) s 0 t"
proof -
  have inv: "shape ht t" "entries_ok B ht t" "all_reachable ht t" using assms(1) by (auto simp: hinv_def)
  have "\<exists>a\<le>j. home ht (get_raw_ptr ht (rslot t s j)) = (s + a) mod length t"
    if j: "j < length t" "entry_is_valid (rslot t s j)" for j
  proof -
    let ?n = "length t" and ?i = "(s + j) mod length t"
    let ?h = "home ht (get_raw_ptr ht (t ! ?i))"
    have "?i < ?n" using j(1) by (intro mod_less_divisor) linarith
    with inv(3) j(2) have "reachable t ?h ?i" by (auto simp: all_reachable_def rslot_def)
    then obtain d where d: "d < ?n" "?i = (?h + d) mod ?n" "\<And>m. m < d \<Longrightarrow> t ! ((?h + m) mod ?n) \<noteq> 0"
      unfolding reachable_def by blast
    obtain a where a: "a < ?n" "(s + a) mod ?n = ?h"
      using cyclic_offset [OF home_less [OF inv(1)]] by metis
    have h: "(?h + m) mod ?n = (s + (a + m)) mod ?n" for m
      unfolding a(2) [symmetric] by (simp add: mod_add_left_eq add.assoc)
    have "a + d < ?n"
    proof (rule ccontr)
      assume "\<not> a + d < ?n"
      then have z: "?n - a \<le> d" "t ! ((?h + (?n - a)) mod ?n) = 0"
        unfolding h using a(1) assms(2,3) by auto
      with d(3) have "d = ?n - a" by (metis le_neq_implies_less)
      then have "t ! ?i = 0" using d(2) z(2) by simp
      with j(2) show False by (simp add: rslot_def valid_iff)
    qed
    with d(2) h [of d] j(1) have "j = a + d" using offset_inj [of j ?n "a + d" s] by simp
    with a(2) show ?thesis by (intro exI [of _ a]) (simp add: rslot_def)
  qed
  with inv show ?thesis by (simp add: rinv_def shape_def)
qed

lemma rinv_end:
  assumes "rinv B ht S s (length t) t"
  shows "all_reachable ht t" "dels t = 0"
proof -
  have *: "reachable t (home ht (get_raw_ptr ht (t ! i))) i" if i: "i < length t" "entry_is_valid (t ! i)" for i
  proof -
    obtain j where j: "j < length t" "t ! i = rslot t s j" "i = (s + j) mod length t"
      using rslot_index [OF i(1)] by blast
    with assms i obtain a where a: "a \<le> j" "home ht (get_raw_ptr ht (t ! i)) = (s + a) mod length t"
      "\<And>m. a \<le> m \<Longrightarrow> m < j \<Longrightarrow> rslot t s m \<noteq> 0" unfolding rinv_def by metis
    have h: "((s + a) mod length t + m) mod length t = (s + (a + m)) mod length t" for m
      by (simp add: mod_add_left_eq add.assoc)
    show ?thesis
      unfolding reachable_def a(2) h using a(1,3) j by (intro exI [of _ "j - a"]) (auto simp: rslot_def)
  qed
  then show "all_reachable ht t" by (simp add: all_reachable_def)
  have "t ! i \<noteq> 1" if "i < length t" for i
    using rslot_index [OF that, of s] assms unfolding rinv_def by auto
  then show "dels t = 0" by (auto simp: dels_def count_eq_zero_iff in_set_conv_nth)
qed

text \<open>One iteration, on each kind of slot.\<close>

lemma rinvD:
  assumes "rinv B ht S s k t" "j < length t" "entry_is_valid (rslot t s j)"
  obtains a where "a \<le> j" "home ht (get_raw_ptr ht (rslot t s j)) = (s + a) mod length t"
    "\<And>m. j < k \<Longrightarrow> a \<le> m \<Longrightarrow> m < j \<Longrightarrow> rslot t s m \<noteq> 0"
  using assms unfolding rinv_def by metis

lemma rinv_keep:
  assumes "rinv B ht S s k t" "k < length t" "rslot t s k \<noteq> 1"
    and "entry_is_valid (rslot t s k) \<Longrightarrow> home ht (get_raw_ptr ht (rslot t s k)) = (s + k) mod length t"
  shows "rinv B ht S s (Suc k) t"
proof -
  have "\<exists>a\<le>j. home ht (get_raw_ptr ht (rslot t s j)) = (s + a) mod length t \<and>
      (j < Suc k \<longrightarrow> (\<forall>m. a \<le> m \<and> m < j \<longrightarrow> rslot t s m \<noteq> 0))"
    if j: "j < length t" "entry_is_valid (rslot t s j)" for j
  proof (cases "j = k")
    case True
    with assms(4) j show ?thesis by (intro exI [of _ k]) auto
  next
    case False
    with rinvD [OF assms(1) j] show ?thesis by (metis less_Suc_eq)
  qed
  with assms(1,3) show ?thesis by (auto simp: rinv_def less_Suc_eq)
qed

text \<open>Clearing the slot that is processed touches no entry processed before.\<close>

lemma rinv_clear:
  assumes "rinv B ht S s k t" "k < length t"
  shows "rinv B ht (S - (if entry_is_valid (rslot t s k) then {#get_raw_ptr ht (rslot t s k)#} else {#}))
    s (Suc k) (t[(s + k) mod length t := 0])"
proof -
  let ?t = "t[(s + k) mod length t := 0]"
  have idx: "(s + k) mod length t < length t" using assms(2) by (intro mod_less_divisor) linarith
  have upd: "rslot ?t s j = (if j = k then 0 else rslot t s j)" if "j < length t" for j
    using rslot_update [OF that assms(2)] by simp
  have "\<exists>a\<le>j. home ht (get_raw_ptr ht (rslot ?t s j)) = (s + a) mod length t \<and>
      (j < Suc k \<longrightarrow> (\<forall>m. a \<le> m \<and> m < j \<longrightarrow> rslot ?t s m \<noteq> 0))"
    if j: "j < length t" "entry_is_valid (rslot ?t s j)" for j
  proof -
    have "j \<noteq> k" using j upd [of j] by (auto simp: valid_iff)
    with j upd have "entry_is_valid (rslot t s j)" by simp
    from rinvD [OF assms(1) j(1) this] obtain a where
      a: "a \<le> j" "home ht (get_raw_ptr ht (rslot t s j)) = (s + a) mod length t"
        "\<And>m. j < k \<Longrightarrow> a \<le> m \<Longrightarrow> m < j \<Longrightarrow> rslot t s m \<noteq> 0" by blast
    with \<open>j \<noteq> k\<close> upd j(1) show ?thesis by (intro exI [of _ a]) auto
  qed
  moreover have "entries_ok B ht ?t" using assms(1) by (auto simp: rinv_def valid_iff intro: entries_ok_update)
  moreover have "stored ht ?t = S - (if entry_is_valid (rslot t s k) then {#get_raw_ptr ht (rslot t s k)#} else {#})"
    using assms(1) idx by (simp add: stored_update rinv_def rslot_def valid_iff)
  moreover have "rslot ?t s j \<noteq> 1" if "j < Suc k" for j
    using that upd [of j] assms by (auto simp: rinv_def less_Suc_eq)
  ultimately show ?thesis using assms(1) by (simp add: rinv_def)
qed

lemma rinv_put:
  assumes "rinv B ht S s k t" "q < length t" "\<not> entry_is_valid (rslot t s q)" "i = (s + q) mod length t"
    and "masks B ht" "good_ptr B p" "p AND ht_common_mask ht = ht_common_bits ht"
    and "a \<le> q" "home ht p = (s + a) mod length t"
    and before: "\<And>j. a \<le> j \<Longrightarrow> j < q \<Longrightarrow> entry_is_valid (rslot t s j)" and "k \<le> length t"
  shows "rinv B ht (add_mset p S) s k (t[i := encode ht i p])"
proof -
  let ?e = "encode ht i p" and ?t = "t[i := encode ht i p]"
  have e: "entry_is_valid ?e" "get_raw_ptr ht ?e = p" using assms(5-7) by (auto intro: encode_valid encode_raw)
  then have e01: "?e \<noteq> 0" "?e \<noteq> 1" by (simp_all add: valid_iff)
  have idx: "i < length t" unfolding assms(4) using assms(2) by (intro mod_less_divisor) linarith
  have upd: "rslot ?t s j = (if j = q then ?e else rslot t s j)" if "j < length t" for j
    using rslot_update [OF that assms(2)] assms(4) by simp
  have "\<exists>a\<le>j. home ht (get_raw_ptr ht (rslot ?t s j)) = (s + a) mod length t \<and>
      (j < k \<longrightarrow> (\<forall>m. a \<le> m \<and> m < j \<longrightarrow> rslot ?t s m \<noteq> 0))"
    if j: "j < length t" "entry_is_valid (rslot ?t s j)" for j
  proof (cases "j = q")
    case True
    with upd assms(8,9) e before e01 j(1) show ?thesis
      by (intro exI [of _ a]) (auto simp: valid_iff)
  next
    case False
    with j upd have "entry_is_valid (rslot t s j)" by simp
    from rinvD [OF assms(1) j(1) this] obtain a where
      "a \<le> j" "home ht (get_raw_ptr ht (rslot t s j)) = (s + a) mod length t"
      "\<And>m. j < k \<Longrightarrow> a \<le> m \<Longrightarrow> m < j \<Longrightarrow> rslot t s m \<noteq> 0" by blast
    with False upd j(1) e01 show ?thesis by (intro exI [of _ a]) auto
  qed
  moreover have "entries_ok B ht ?t"
    using assms(1,6) e by (intro entries_ok_update) (auto simp: rinv_def)
  moreover have "stored ht ?t = add_mset p S"
    using assms(1,3,4) idx e by (simp add: stored_update rinv_def rslot_def)
  moreover have "rslot ?t s j \<noteq> 1" if "j < k" for j
    using that upd [of j] assms(1,11) e01 by (auto simp: rinv_def)
  ultimately show ?thesis using assms(1) by (simp add: rinv_def)
qed

text \<open>Adding the entry again finds a slot between its home bucket and the slot it came from.\<close>

lemma rinv_move:
  assumes "shape ht t" "masks B ht" "rinv B ht S s k t" "k < length t" "entry_is_valid (rslot t s k)"
    and "p = get_raw_ptr ht (rslot t s k)" "t1 = t[(s + k) mod length t := 0]"
  shows "\<exists>t'. ht_add (ht\<lparr>ht_table := Some t1\<rparr>) p (ht_rehash ht p) = Some (ht\<lparr>ht_table := Some t'\<rparr>) \<and>
    rinv B ht S s (Suc k) t'"
proof -
  let ?n = "length t"
  have len: "length t1 = ?n" by (simp add: assms(7))
  have r1: "rinv B ht (S - {#p#}) s (Suc k) t1" using rinv_clear [OF assms(3,4)] assms(5-7) by simp
  from rinvD [OF assms(3,4,5)] obtain a where a: "a \<le> k" "home ht p = (s + a) mod ?n"
    unfolding assms(6) by metis
  have upd: "rslot t1 s j = (if j = k then 0 else rslot t s j)" if "j < ?n" for j
    unfolding assms(7) by (rule rslot_update [OF that assms(4)])
  define q where "q = (LEAST j. a \<le> j \<and> \<not> entry_is_valid (rslot t1 s j))"
  have ex: "a \<le> k \<and> \<not> entry_is_valid (rslot t1 s k)" using a(1) upd [OF assms(4)] by (simp add: valid_iff)
  have q: "a \<le> q" "\<not> entry_is_valid (rslot t1 s q)"
    using LeastI [of "\<lambda>j. a \<le> j \<and> \<not> entry_is_valid (rslot t1 s j)", OF ex] by (simp_all add: q_def)
  have "q \<le> k" unfolding q_def using ex by (rule Least_le)
  have before: "entry_is_valid (rslot t1 s j)" if "a \<le> j" "j < q" for j
    using not_less_Least [of j "\<lambda>j. a \<le> j \<and> \<not> entry_is_valid (rslot t1 s j)"] that by (simp add: q_def)
  define i where "i = (s + q) mod ?n"
  define t' where "t' = t1[i := encode ht i p]"
  have off: "(home ht p + m) mod ?n = (s + (a + m)) mod ?n" for m
    unfolding a(2) by (simp add: mod_add_left_eq add.assoc)
  have sh: "shape (ht\<lparr>ht_table := Some t1\<rparr>) t1" using assms(1) len by (simp add: shape_def)
  have "ht_add (ht\<lparr>ht_table := Some t1\<rparr>) p (ht_rehash (ht\<lparr>ht_table := Some t1\<rparr>) p) =
      Some (ht\<lparr>ht_table := Some t1, ht_table := Some (t1[i := encode (ht\<lparr>ht_table := Some t1\<rparr>) i p])\<rparr>)"
  proof (rule ht_add_shape [OF sh])
    show "q - a < length t1" using \<open>q \<le> k\<close> assms(4) len by simp
    show "i = (home (ht\<lparr>ht_table := Some t1\<rparr>) p + (q - a)) mod length t1"
      using off [of "q - a"] q(1) len by (simp add: i_def)
    show "\<not> entry_is_valid (t1 ! i)" using q(2) len by (simp add: i_def rslot_def)
    show "entry_is_valid (t1 ! ((home (ht\<lparr>ht_table := Some t1\<rparr>) p + m) mod length t1))" if "m < q - a" for m
      using before [of "a + m"] that off [of m] len by (simp add: rslot_def)
  qed
  then have "ht_add (ht\<lparr>ht_table := Some t1\<rparr>) p (ht_rehash ht p) = Some (ht\<lparr>ht_table := Some t'\<rparr>)"
    by (simp add: t'_def)
  moreover have idx: "(s + k) mod ?n < ?n" using assms(4) by (intro mod_less_divisor) linarith
  then have "p \<in># S" using assms(3,5,6) by (auto simp: rinv_def stored_def rslot_def)
  moreover have "entries_ok B ht t" using assms(3) by (simp add: rinv_def)
  from entries_okD(1) [OF this idx] have "good_ptr B p" using assms(5,6) by (simp add: rslot_def)
  then have "rinv B ht (add_mset p (S - {#p#})) s (Suc k) t'"
    unfolding t'_def using r1 q a before \<open>q \<le> k\<close> assms(2,4,6) len get_raw_common [OF assms(2)]
    by (intro rinv_put [where a = a]) (auto simp: i_def)
  ultimately show ?thesis by auto
qed

lemma perfect_home:
  assumes "masks B ht" "entries_ok B ht t" "i < length t" "entry_is_valid (t ! i)" "t ! i AND ht_perfect_bit ht \<noteq> 0"
  shows "home ht (get_raw_ptr ht (t ! i)) = i"
proof (rule ccontr)
  let ?p = "get_raw_ptr ht (t ! i)"
  assume "home ht ?p \<noteq> i"
  then have "get_extra_ptr_bits ht (t ! i) = hbits ht (ht_rehash ht ?p)"
    using encode_extra [OF assms(1), of i ?p] entries_okD(2) [OF assms(2-4)] by simp
  then have "t ! i AND ht_common_mask ht AND ht_perfect_bit ht = hbits ht (ht_rehash ht ?p) AND ht_perfect_bit ht"
    by (simp add: get_extra_ptr_bits_def flip: and.assoc)
  also have "\<dots> = 0" by (rule bit_word_eqI) (auto simp: hbits_def bit_and_iff bit_not_iff)
  finally show False using assms(1,5) by (simp add: masks_def and.commute)
qed

lemma rehash_step_correct:
  assumes "shape ht t" "masks B ht" "rinv B ht S s k t" "k < length t" "s < length t"
  shows "\<exists>t'. rehash_step (of_nat s) k ht = Some (ht\<lparr>ht_table := Some t'\<rparr>) \<and> rinv B ht S s (Suc k) t'"
proof -
  let ?i = "(s + k) mod length t" and ?e = "rslot t s k"
  have i: "?i < length t" using assms(4) by (intro mod_less_divisor) linarith
  obtain m where m: "int_shl1 (ht_bits ht) = Some m" "\<And>h :: size_t. h AND ucast (m - 1) = of_nat (unat h mod length t)"
    using bucket_mask [OF assms(1)] by blast
  have "unat (of_nat (k + s) :: size_t) = s + k"
    using assms(4,5) shape_length_bound [OF assms(1)] by (subst of_nat_inverse) auto
  then have h: "(of_nat k + of_nat s) AND ucast (m - 1) = (of_nat ?i :: size_t)" by (simp add: m(2))
  have rd: "tab_read ht (of_nat ?i) = Some ?e"
    using tab_read_shape [OF assms(1) i] by (simp add: rslot_def)
  have wr: "tab_write ht (of_nat ?i) 0 = Some (ht\<lparr>ht_table := Some (t[?i := 0])\<rparr>)"
    by (rule tab_write_shape [OF assms(1) i])
  have step: "rehash_step (of_nat s) k ht =
     (if ?e = 0 then Some ht
      else if ?e = 1 then Some (ht\<lparr>ht_table := Some (t[?i := 0])\<rparr>)
      else if ?e AND ht_perfect_bit ht = 0 then
        ht_add (ht\<lparr>ht_table := Some (t[?i := 0])\<rparr>) (get_raw_ptr ht ?e) (ht_rehash ht (get_raw_ptr ht ?e))
      else Some ht)"
    using m(1) h rd wr by (simp add: rehash_step_def Let_def HTABLE_DELETED_def)
  have same: "ht\<lparr>ht_table := Some t\<rparr> = ht" using assms(1) by (simp add: shape_def)
  consider "?e = 0" | "?e = 1" | (move) "entry_is_valid ?e" "?e AND ht_perfect_bit ht = 0"
    | (keep) "entry_is_valid ?e" "?e AND ht_perfect_bit ht \<noteq> 0" unfolding valid_iff by blast
  then show ?thesis
  proof cases
    case 1
    with rinv_keep [OF assms(3,4)] step same show ?thesis by (auto simp: valid_iff intro!: exI [of _ t])
  next
    case 2
    with rinv_clear [OF assms(3,4)] step show ?thesis by (auto simp: valid_iff)
  next
    case move
    then have "?e \<noteq> 0" "?e \<noteq> 1" by (simp_all add: valid_iff)
    with rinv_move [OF assms(1-4) move(1) refl refl] step move(2) show ?thesis by simp
  next
    case keep
    have "entries_ok B ht t" using assms(3) by (simp add: rinv_def)
    with keep have "home ht (get_raw_ptr ht ?e) = ?i"
      unfolding rslot_def by (intro perfect_home [OF assms(2) _ i])
    with rinv_keep [OF assms(3,4)] step keep same show ?thesis by (auto simp: valid_iff intro!: exI [of _ t])
  qed
qed

lemma first_empty_shape:
  assumes "shape ht t" "s < length t" "t ! s = 0"
  shows "i \<le> s \<Longrightarrow> (\<And>k. i \<le> k \<Longrightarrow> k < s \<Longrightarrow> t ! k \<noteq> 0) \<Longrightarrow> first_empty ht (of_nat i) = Some (of_nat s)"
proof (induction "s - i" arbitrary: i)
  case 0
  then show ?case
    using tab_read_shape [OF assms(1,2)] assms(3) by (subst first_empty.simps) simp
next
  case (Suc d)
  then have "i < s" "t ! i \<noteq> 0" by auto
  moreover have "first_empty ht (of_nat (Suc i)) = Some (of_nat s)"
    using Suc by (intro Suc.hyps(1)) auto
  ultimately show ?case
    using tab_read_shape [OF assms(1), of i] assms(2) by (subst first_empty.simps) (simp add: add.commute)
qed

lemma rehash_table_correct:
  assumes "hinv B ht t"
  shows "\<exists>ht' t'. rehash_table ht = Some ht' \<and> hinv B ht' t' \<and> stored ht' t' = stored ht t \<and>
    ht_deleted ht' = 0 \<and> ht_elems ht' = ht_elems ht \<and> ht_max ht' = ht_max ht \<and>
    ht_max_with_deleted ht' = ht_max_with_deleted ht \<and> ht_rehash ht' = ht_rehash ht"
proof -
  have inv: "shape ht t" "masks B ht" using assms by (auto simp: hinv_def)
  let ?n = "length t"
  obtain i0 where i0: "i0 < ?n" "t ! i0 = 0" using empty_slot [OF hinv_room [OF assms]] by blast
  from first_offset [of i0 t "\<lambda>e. e = 0" 0, OF i0] obtain s where
    s: "s < ?n" "t ! s = 0" "\<And>k. k < s \<Longrightarrow> t ! k \<noteq> 0" by (metis add_0 less_trans mod_less)
  have start: "first_empty ht 0 = Some (of_nat s)"
    using first_empty_shape [OF inv(1) s(1,2), of 0] s(3) by simp
  obtain n where n: "size_shl1 (ht_bits ht) = Some n" "unat n = ?n" using size_shl1_shape [OF inv(1)] by blast
  let ?P = "\<lambda>k h. \<exists>t'. h = ht\<lparr>ht_table := Some t'\<rparr> \<and> rinv B ht (stored ht t) s k t'"
  have "\<exists>h. foldM (rehash_step (of_nat s)) [0..<?n] ht = Some h \<and> ?P ?n h"
  proof (rule foldM_upt_inv [where P = ?P])
    show "?P 0 ht" using rinv_start [OF assms s(1,2)] inv(1) by (intro exI [of _ t]) (simp add: shape_def)
    fix k h assume k: "k < ?n" and "?P k h"
    then obtain t' where t': "h = ht\<lparr>ht_table := Some t'\<rparr>" "rinv B ht (stored ht t) s k t'" by blast
    have len: "length t' = ?n" using t'(2) inv(1) by (simp add: rinv_def shape_def)
    have "shape h t'" "masks B h" "rinv B h (stored ht t) s k t'"
      using inv t' len by (auto simp: shape_def rinv_def)
    from rehash_step_correct [OF this] k s(1) len obtain t2 where
      "rehash_step (of_nat s) k h = Some (h\<lparr>ht_table := Some t2\<rparr>)" "rinv B h (stored ht t) s (Suc k) t2" by auto
    with t'(1) show "\<exists>h'. rehash_step (of_nat s) k h = Some h' \<and> ?P (Suc k) h'"
      by (auto simp: rinv_def)
  qed
  then obtain t' where
    t': "foldM (rehash_step (of_nat s)) [0..<?n] ht = Some (ht\<lparr>ht_table := Some t'\<rparr>)" "rinv B ht (stored ht t) s ?n t'"
    by blast
  define ht' where "ht' = ht\<lparr>ht_table := Some t', ht_deleted := 0\<rparr>"
  have "rehash_table ht = Some ht'" using start n t'(1) by (simp add: rehash_table_def ht'_def)
  moreover have len: "length t' = ?n" using t'(2) inv(1) by (simp add: rinv_def shape_def)
  then have "all_reachable ht t'" "dels t' = 0" using rinv_end [of B ht "stored ht t" s t'] t'(2) by auto
  moreover have "entries_ok B ht t'" "stored ht t' = stored ht t" using t'(2) by (auto simp: rinv_def)
  ultimately show ?thesis
    using assms len by (intro exI [of _ ht'] exI [of _ t']) (auto simp: hinv_def ht'_def shape_def)
qed

subsection \<open>Insertion\<close>

lemma core_nowrap:
  assumes "core B ht t"
  shows "unat (ht_elems ht + 1) = unat (ht_elems ht) + 1"
    "unat (ht_elems ht + 1 + ht_deleted ht) = unat (ht_elems ht) + 1 + unat (ht_deleted ht)"
proof -
  have "unat (ht_elems ht) + unat (ht_deleted ht) \<le> 9 * length t div 10" "length t \<le> 2 ^ 30"
    using assms shape_length_bound [of ht t] by (auto simp: core_def)
  then have b: "unat (ht_elems ht) + unat (ht_deleted ht) \<le> 2 ^ 30" by linarith
  then have "unat (ht_elems ht) + unat (1 :: size_t) < 2 ^ LENGTH(64)" by simp
  from unat_add_nowrap [OF this] show 1: "unat (ht_elems ht + 1) = unat (ht_elems ht) + 1" by simp
  have "unat (ht_elems ht + 1) + unat (ht_deleted ht) < 2 ^ LENGTH(64)" unfolding 1 using b by simp
  from unat_add_nowrap [OF this] 1
  show "unat (ht_elems ht + 1 + ht_deleted ht) = unat (ht_elems ht) + 1 + unat (ht_deleted ht)" by simp
qed

text \<open>With room for one more entry and a pointer that fits the masks, the entry is added.\<close>

lemma ht_add_room:
  assumes "hinv B ht t" "room ht" "good_ptr B p" "p AND ht_common_mask ht = ht_common_bits ht"
  shows "\<exists>ht' t'. ht_add ht p (ht_rehash ht p) = Some ht' \<and>
    hinv B (ht'\<lparr>ht_elems := ht_elems ht' + 1\<rparr>) t' \<and>
    stored (ht'\<lparr>ht_elems := ht_elems ht' + 1\<rparr>) t' = add_mset p (stored ht t) \<and> ht_rehash ht' = ht_rehash ht"
proof -
  have inv: "shape ht t" "masks B ht" "entries_ok B ht t" "all_reachable ht t" using assms(1) by (auto simp: hinv_def)
  from ht_add_correct [OF inv(1-3) assms(3,4) hinv_room [OF assms(1)]] inv(4) obtain t' where
    t': "ht_add ht p (ht_rehash ht p) = Some (ht\<lparr>ht_table := Some t'\<rparr>)" "length t' = length t"
      "entries_ok B ht t'" "stored ht t' = add_mset p (stored ht t)" "dels t' \<le> dels t" "all_reachable ht t'" by blast
  with core_nowrap(1) [of B ht t] assms(1,2) inv(2) show ?thesis
    by (intro exI [of _ "ht\<lparr>ht_table := Some t'\<rparr>"] exI [of _ t']) (auto simp: hinv_core core_def room_def shape_def)
qed

text \<open>Insertion after the table has been grown, if that was needed.\<close>

definition add_tail :: "htable \<Rightarrow> size_t \<Rightarrow> ptr \<Rightarrow> (htable \<times> bool) option" where
  "add_tail ht hash p = do {
     ht \<leftarrow> (if ht_elems ht + 1 + ht_deleted ht > ht_max_with_deleted ht then rehash_table ht else Some ht);
     if p = 0 then None
     else do {
       ht \<leftarrow> (if p AND ht_common_mask ht \<noteq> ht_common_bits ht then update_common ht p else Some ht);
       ht \<leftarrow> ht_add ht p hash;
       Some (ht\<lparr>ht_elems := ht_elems ht + 1\<rparr>, True) } }"

lemma htable_add_unfold:
  "htable_add env ht hash p = do {
     (ht, b) \<leftarrow> (if ht_elems ht + 1 > ht_max ht then double_table env ht else Some (ht, True));
     if \<not> b then Some (ht, False) else add_tail ht hash p }"
  by (simp add: htable_add_def add_tail_def cong: if_cong)

lemma good_ptr_nonzero: "good_ptr B p \<Longrightarrow> p \<noteq> 0"
  by (auto simp: good_ptr_def)

text \<open>The markers of removed entries are cleared when they take up the room.\<close>

lemma make_room:
  assumes "hinv B ht t" "unat (ht_elems ht) + 1 \<le> unat (ht_max ht)"
  shows "\<exists>ht' t'. (if ht_elems ht + 1 + ht_deleted ht > ht_max_with_deleted ht then rehash_table ht else Some ht)
      = Some ht' \<and> hinv B ht' t' \<and> stored ht' t' = stored ht t \<and> ht_rehash ht' = ht_rehash ht \<and> room ht'"
proof (cases "ht_elems ht + 1 + ht_deleted ht > ht_max_with_deleted ht")
  case True
  have "3 * length t div 4 \<le> 9 * length t div 10" by (simp add: div_le_mono2 less_eq_div_iff_mult_less_eq)
  then have "unat (ht_max ht) \<le> unat (ht_max_with_deleted ht)" using assms(1) by (simp add: hinv_def)
  with True rehash_table_correct [OF assms(1)] assms(2) show ?thesis by (auto simp: room_def)
next
  case False
  moreover have "core B ht t" using assms(1) by (simp add: hinv_core)
  ultimately show ?thesis
    using core_nowrap [of B ht t] assms by (auto simp: room_def word_less_nat_alt)
qed

lemma add_tail_end:
  assumes "core B ht t" "masks B ht \<or> ht_elems ht = 0 \<and> ht_common_bits ht = 0 \<and> ht_common_mask ht = - 1"
    and "room ht" "good_ptr B p" "hash = ht_rehash ht p"
  shows "\<exists>ht' t'. do {
       ht \<leftarrow> (if p AND ht_common_mask ht \<noteq> ht_common_bits ht then update_common ht p else Some ht);
       ht \<leftarrow> ht_add ht p hash;
       Some (ht\<lparr>ht_elems := ht_elems ht + 1\<rparr>, True) } = Some (ht', True) \<and>
     hinv B ht' t' \<and> stored ht' t' = add_mset p (stored ht t) \<and> ht_rehash ht' = ht_rehash ht"
proof -
  have "\<exists>h t'. (if p AND ht_common_mask ht \<noteq> ht_common_bits ht then update_common ht p else Some ht) = Some h \<and>
      hinv B h t' \<and> stored h t' = stored ht t \<and> p AND ht_common_mask h = ht_common_bits h \<and>
      ht_rehash h = ht_rehash ht \<and> room h"
  proof (cases "p AND ht_common_mask ht = ht_common_bits ht")
    case True
    then have "masks B ht" using assms(2) good_ptr_nonzero [OF assms(4)] by auto
    with True assms(1,3) show ?thesis by (auto simp: hinv_core)
  next
    case False
    with update_common_first [OF assms(1) _ assms(4)] update_common_more [of B ht t p] assms(1-3)
    show ?thesis by (cases "ht_elems ht = 0") (fastforce simp: hinv_core room_def)+
  qed
  then obtain h t' where h: "(if p AND ht_common_mask ht \<noteq> ht_common_bits ht then update_common ht p else Some ht) = Some h"
    "hinv B h t'" "stored h t' = stored ht t" "p AND ht_common_mask h = ht_common_bits h"
    "ht_rehash h = ht_rehash ht" "room h" by blast
  from ht_add_room [OF h(2,6) assms(4) h(4)] h assms(5) show ?thesis by auto
qed

lemma add_tail_correct:
  assumes "hinv B ht t \<and> unat (ht_elems ht) + 1 \<le> unat (ht_max ht) \<or>
    core B ht t \<and> room ht \<and> ht_elems ht = 0 \<and> ht_common_bits ht = 0 \<and> ht_common_mask ht = - 1"
    and "good_ptr B p"
  shows "\<exists>ht' t'. add_tail ht (ht_rehash ht p) p = Some (ht', True) \<and> hinv B ht' t' \<and>
    stored ht' t' = add_mset p (stored ht t) \<and> ht_rehash ht' = ht_rehash ht"
  using assms(1)
proof (elim disjE conjE)
  assume "hinv B ht t" "unat (ht_elems ht) + 1 \<le> unat (ht_max ht)"
  from make_room [OF this] obtain h t1 where h:
    "(if ht_elems ht + 1 + ht_deleted ht > ht_max_with_deleted ht then rehash_table ht else Some ht) = Some h"
    "hinv B h t1" "stored h t1 = stored ht t" "ht_rehash h = ht_rehash ht" "room h" by blast
  with add_tail_end [of B h t1 p "ht_rehash ht p"] assms(2) good_ptr_nonzero [OF assms(2)] show ?thesis
    by (simp add: add_tail_def hinv_core cong: if_cong)
next
  assume a: "core B ht t" "room ht" "ht_elems ht = 0" "ht_common_bits ht = 0" "ht_common_mask ht = - 1"
  have "\<not> ht_elems ht + 1 + ht_deleted ht > ht_max_with_deleted ht"
    using a(2) core_nowrap(2) [OF a(1)] by (simp add: room_def word_less_nat_alt)
  with add_tail_end [OF a(1) _ a(2) assms(2) refl] a good_ptr_nonzero [OF assms(2)] show ?thesis
    by (simp add: add_tail_def)
qed

lemma add_tail_ok:
  assumes "hinv B ht t \<and> unat (ht_elems ht) + 1 \<le> unat (ht_max ht) \<or>
    core B ht t \<and> room ht \<and> ht_elems ht = 0 \<and> ht_common_bits ht = 0 \<and> ht_common_mask ht = - 1"
    and "good_ptr B p" "hash = ht_rehash ht p" "S = stored ht t"
  shows "\<exists>ht'. add_tail ht hash p = Some (ht', True) \<and> ht_ok B ht' (add_mset p S) \<and> ht_rehash ht' = ht_rehash ht"
  using add_tail_correct [OF assms(1,2)] unfolding ht_ok_def assms(3,4) by metis

lemma htable_add_correct:
  assumes "ht_ok B ht S" "good_ptr B p" "size S < 3 * 2 ^ 28"
  shows "\<exists>ht' b. htable_add env ht (ht_rehash ht p) p = Some (ht', b) \<and> ht_rehash ht' = ht_rehash ht \<and>
    (if b then ht_ok B ht' (add_mset p S) else ht' = ht) \<and> ((\<forall>n. \<not> alloc_fails env n) \<longrightarrow> b)"
  using assms(1) [unfolded ht_ok_def]
proof (elim disjE conjE exE)
  assume i: "ht = htable_init (ht_rehash ht)" "S = {#}"
  have grow: "ht_elems ht + 1 > ht_max ht" by (subst (1 2) i(1)) (simp add: htable_init_eq)
  have b: "unat (ht_bits ht) = 0" by (subst i(1)) (simp add: htable_init_eq)
  show ?thesis
  proof (cases "alloc_fails env 16")
    case True
    with b double_table_fail [of ht env] grow show ?thesis by (auto simp: htable_add_unfold)
  next
    case False
    from double_table_first [OF i(1) this, of B] obtain h where
      h: "double_table env ht = Some (h, True)" "core B h [0, 0]" "ht_elems h = 0" "ht_rehash h = ht_rehash ht"
        "room h" "ht_common_bits h = 0" "ht_common_mask h = - 1" by blast
    moreover have "stored h [0, 0] = {#}" by (simp add: stored_list valid_iff)
    ultimately obtain ht' where "add_tail h (ht_rehash ht p) p = Some (ht', True)"
      "ht_ok B ht' (add_mset p S)" "ht_rehash ht' = ht_rehash h"
      using add_tail_ok [of B h "[0, 0]" p "ht_rehash ht p" S] assms(2) i(2) by auto
    with grow h(1,4) show ?thesis by (auto simp: htable_add_unfold)
  qed
next
  fix t assume t: "hinv B ht t" "S = stored ht t"
  then have core: "core B ht t" by (simp add: hinv_core)
  show ?thesis
  proof (cases "ht_elems ht + 1 > ht_max ht")
    case False
    then have "unat (ht_elems ht) + 1 \<le> unat (ht_max ht)"
      using core_nowrap(1) [OF core] by (simp add: word_less_nat_alt)
    with add_tail_ok [of B ht t p "ht_rehash ht p" S] t assms(2) False show ?thesis
      by (auto simp: htable_add_unfold)
  next
    case grow: True
    have b: "unat (ht_bits ht) \<le> 29"
    proof (rule ccontr)
      assume "\<not> ?thesis"
      then have "unat (ht_bits ht) = 30" using core by (simp add: core_def shape_def)
      then have "unat (ht_max ht) = 3 * 2 ^ 28" using core by (simp add: core_def shape_def)
      with grow core_nowrap(1) [OF core] assms(3) t(2) core show False
        by (simp add: word_less_nat_alt core_def)
    qed
    show ?thesis
    proof (cases "alloc_fails env (2 * 2 ^ unat (ht_bits ht) * 8)")
      case True
      with double_table_fail [OF b] grow show ?thesis by (auto simp: htable_add_unfold)
    next
      case False
      from double_table_correct [OF t(1) b False] obtain h t1 where
        "double_table env ht = Some (h, True)" "hinv B h t1" "stored h t1 = stored ht t"
        "ht_rehash h = ht_rehash ht" "room h" by blast
      with add_tail_ok [of B h t1 p "ht_rehash ht p" S] t assms(2) grow show ?thesis
        by (auto simp: htable_add_unfold room_def)
    qed
  qed
qed

end
