(* ===== verification/Shl_Htable_Keys.thy ===== *)
theory Shl_Htable_Keys
  imports Shl_Htable_Grow Shl_Dict
begin

text \<open>
  The typed hash tables of \<^verbatim>\<open>src/shl_htable.h\<close>: objects that start with an \<^verbatim>\<open>unsigned int\<close>, an
  \<^verbatim>\<open>unsigned long\<close>, a \<^verbatim>\<open>uint64_t\<close> or a \<^verbatim>\<open>char *\<close>. \<open>mem\<close> reads the key of an object; the compare and
  rehash callbacks are given on the keys they read, so the object a lookup points to (the address of
  a local variable) is its key. All four are interpretations of the contract \<open>bag\<close>.
\<close>

subsection \<open>Comparing and hashing keys\<close>

definition shl_htable_compare_uint :: "u32 \<Rightarrow> u32 \<Rightarrow> bool" where
  "shl_htable_compare_uint a b \<longleftrightarrow> a = b"

definition shl_htable_rehash_uint :: "u32 \<Rightarrow> size_t" where
  "shl_htable_rehash_uint k = ucast k"

definition shl_htable_compare_ulong :: "u64 \<Rightarrow> u64 \<Rightarrow> bool" where
  "shl_htable_compare_ulong a b \<longleftrightarrow> a = b"

definition shl_htable_rehash_ulong :: "u64 \<Rightarrow> size_t" where
  "shl_htable_rehash_ulong k = k"

definition shl_htable_compare_u64 :: "u64 \<Rightarrow> u64 \<Rightarrow> bool" where
  "shl_htable_compare_u64 a b \<longleftrightarrow> a = b"

definition shl__htable_rehash_u64 :: "u64 \<Rightarrow> size_t" where
  "shl__htable_rehash_u64 k = k"

definition shl_htable_rehash_u64 :: "u64 \<Rightarrow> size_t" where
  "shl_htable_rehash_u64 k = shl__htable_rehash_u64 k"

text \<open>A \<^verbatim>\<open>char *\<close> is null or the bytes of a string; \<^verbatim>\<open>char\<close> is signed, so a byte is sign-extended.\<close>

definition shl_htable_compare_str :: "u8 list option \<Rightarrow> u8 list option \<Rightarrow> bool" where
  "shl_htable_compare_str a b =
     (case (a, b) of (Some s, Some t) \<Rightarrow> s = t | _ \<Rightarrow> a = None \<and> b = None)"

definition shl_htable_rehash_str :: "u8 list option \<Rightarrow> size_t" where
  "shl_htable_rehash_str str =
     (case str of None \<Rightarrow> 5381
      | Some s \<Rightarrow> foldl (\<lambda>hash c. push_bit 5 hash + hash + scast c) 5381 s)"

subsection \<open>unsigned int\<close>

definition SHL_HTABLE_INIT_UINT :: "(ptr \<Rightarrow> u32) \<Rightarrow> u32 shl_htable" where
  "SHL_HTABLE_INIT_UINT mem =
     SHL_HTABLE_INIT (\<lambda>k c. shl_htable_compare_uint k (mem c)) (\<lambda>c. shl_htable_rehash_uint (mem c))"

definition shl_htable_init_uint :: "(ptr \<Rightarrow> u32) \<Rightarrow> u32 shl_htable" where
  "shl_htable_init_uint mem =
     shl_htable_init (\<lambda>k c. shl_htable_compare_uint k (mem c)) (\<lambda>c. shl_htable_rehash_uint (mem c))"

definition shl_htable_lookup_uint :: "u32 shl_htable \<Rightarrow> u32 \<Rightarrow> ptr option option" where
  "shl_htable_lookup_uint t key = shl_htable_lookup t key (ucast key)"

definition shl_htable_insert_uint ::
  "(ptr \<Rightarrow> u32) \<Rightarrow> alloc_env \<Rightarrow> u32 shl_htable \<Rightarrow> ptr \<Rightarrow> (u32 shl_htable \<times> unit res) option" where
  "shl_htable_insert_uint mem env t key = shl_htable_insert env t key (ucast (mem key))"

definition shl_htable_remove_uint :: "u32 shl_htable \<Rightarrow> u32 \<Rightarrow> (u32 shl_htable \<times> ptr option) option" where
  "shl_htable_remove_uint t key = shl_htable_remove t key (ucast key)"

definition shl_htable_clear_uint :: "u32 shl_htable \<Rightarrow> bool \<Rightarrow> (u32 shl_htable \<times> ptr list) option" where
  "shl_htable_clear_uint t cb = shl_htable_clear t cb"

definition shl_htable_visit_uint :: "u32 shl_htable \<Rightarrow> bool \<Rightarrow> ptr list option" where
  "shl_htable_visit_uint t cb = shl_htable_visit t cb"

subsection \<open>unsigned long\<close>

definition SHL_HTABLE_INIT_ULONG :: "(ptr \<Rightarrow> u64) \<Rightarrow> u64 shl_htable" where
  "SHL_HTABLE_INIT_ULONG mem =
     SHL_HTABLE_INIT (\<lambda>k c. shl_htable_compare_ulong k (mem c)) (\<lambda>c. shl_htable_rehash_ulong (mem c))"

definition shl_htable_init_ulong :: "(ptr \<Rightarrow> u64) \<Rightarrow> u64 shl_htable" where
  "shl_htable_init_ulong mem =
     shl_htable_init (\<lambda>k c. shl_htable_compare_ulong k (mem c)) (\<lambda>c. shl_htable_rehash_ulong (mem c))"

definition shl_htable_lookup_ulong :: "u64 shl_htable \<Rightarrow> u64 \<Rightarrow> ptr option option" where
  "shl_htable_lookup_ulong t key = shl_htable_lookup t key key"

definition shl_htable_insert_ulong ::
  "(ptr \<Rightarrow> u64) \<Rightarrow> alloc_env \<Rightarrow> u64 shl_htable \<Rightarrow> ptr \<Rightarrow> (u64 shl_htable \<times> unit res) option" where
  "shl_htable_insert_ulong mem env t key = shl_htable_insert env t key (mem key)"

definition shl_htable_remove_ulong :: "u64 shl_htable \<Rightarrow> u64 \<Rightarrow> (u64 shl_htable \<times> ptr option) option" where
  "shl_htable_remove_ulong t key = shl_htable_remove t key key"

definition shl_htable_clear_ulong :: "u64 shl_htable \<Rightarrow> bool \<Rightarrow> (u64 shl_htable \<times> ptr list) option" where
  "shl_htable_clear_ulong t cb = shl_htable_clear t cb"

definition shl_htable_visit_ulong :: "u64 shl_htable \<Rightarrow> bool \<Rightarrow> ptr list option" where
  "shl_htable_visit_ulong t cb = shl_htable_visit t cb"

subsection \<open>uint64\_t\<close>

definition SHL_HTABLE_INIT_U64 :: "(ptr \<Rightarrow> u64) \<Rightarrow> u64 shl_htable" where
  "SHL_HTABLE_INIT_U64 mem =
     SHL_HTABLE_INIT (\<lambda>k c. shl_htable_compare_u64 k (mem c)) (\<lambda>c. shl_htable_rehash_u64 (mem c))"

definition shl_htable_init_u64 :: "(ptr \<Rightarrow> u64) \<Rightarrow> u64 shl_htable" where
  "shl_htable_init_u64 mem =
     shl_htable_init (\<lambda>k c. shl_htable_compare_u64 k (mem c)) (\<lambda>c. shl_htable_rehash_u64 (mem c))"

definition shl_htable_lookup_u64 :: "u64 shl_htable \<Rightarrow> u64 \<Rightarrow> ptr option option" where
  "shl_htable_lookup_u64 t key = shl_htable_lookup t key (shl__htable_rehash_u64 key)"

definition shl_htable_insert_u64 ::
  "(ptr \<Rightarrow> u64) \<Rightarrow> alloc_env \<Rightarrow> u64 shl_htable \<Rightarrow> ptr \<Rightarrow> (u64 shl_htable \<times> unit res) option" where
  "shl_htable_insert_u64 mem env t key = shl_htable_insert env t key (shl__htable_rehash_u64 (mem key))"

definition shl_htable_remove_u64 :: "u64 shl_htable \<Rightarrow> u64 \<Rightarrow> (u64 shl_htable \<times> ptr option) option" where
  "shl_htable_remove_u64 t key = shl_htable_remove t key (shl__htable_rehash_u64 key)"

definition shl_htable_clear_u64 :: "u64 shl_htable \<Rightarrow> bool \<Rightarrow> (u64 shl_htable \<times> ptr list) option" where
  "shl_htable_clear_u64 t cb = shl_htable_clear t cb"

definition shl_htable_visit_u64 :: "u64 shl_htable \<Rightarrow> bool \<Rightarrow> ptr list option" where
  "shl_htable_visit_u64 t cb = shl_htable_visit t cb"

subsection \<open>Strings\<close>

text \<open>
  \<^verbatim>\<open>hash\<close> is an optional cache: null, or a cell that holds 0 or the hash to use. The result is the
  hash and the cell afterwards.
\<close>

definition shl_htable_hash_str :: "u8 list option \<Rightarrow> size_t option \<Rightarrow> size_t \<times> size_t option" where
  "shl_htable_hash_str str hash =
     (case hash of
        None \<Rightarrow> (shl_htable_rehash_str str, None)
      | Some h \<Rightarrow> if h \<noteq> 0 then (h, Some h)
                  else (shl_htable_rehash_str str, Some (shl_htable_rehash_str str)))"

definition SHL_HTABLE_INIT_STR :: "(ptr \<Rightarrow> u8 list option) \<Rightarrow> (u8 list option) shl_htable" where
  "SHL_HTABLE_INIT_STR mem =
     SHL_HTABLE_INIT (\<lambda>k c. shl_htable_compare_str k (mem c)) (\<lambda>c. shl_htable_rehash_str (mem c))"

definition shl_htable_init_str :: "(ptr \<Rightarrow> u8 list option) \<Rightarrow> (u8 list option) shl_htable" where
  "shl_htable_init_str mem =
     shl_htable_init (\<lambda>k c. shl_htable_compare_str k (mem c)) (\<lambda>c. shl_htable_rehash_str (mem c))"

definition shl_htable_lookup_str ::
  "(u8 list option) shl_htable \<Rightarrow> u8 list option \<Rightarrow> size_t option \<Rightarrow> (ptr option \<times> size_t option) option" where
  "shl_htable_lookup_str t str hash =
     (let (h, hash) = shl_htable_hash_str str hash
      in do { r \<leftarrow> shl_htable_lookup t str h; Some (r, hash) })"

definition shl_htable_insert_str ::
  "(ptr \<Rightarrow> u8 list option) \<Rightarrow> alloc_env \<Rightarrow> (u8 list option) shl_htable \<Rightarrow> ptr \<Rightarrow> size_t option \<Rightarrow>
   ((u8 list option) shl_htable \<times> unit res \<times> size_t option) option" where
  "shl_htable_insert_str mem env t str hash =
     (let (h, hash) = shl_htable_hash_str (mem str) hash
      in do { (t, r) \<leftarrow> shl_htable_insert env t str h; Some (t, r, hash) })"

definition shl_htable_remove_str ::
  "(u8 list option) shl_htable \<Rightarrow> u8 list option \<Rightarrow> size_t option \<Rightarrow>
   ((u8 list option) shl_htable \<times> ptr option \<times> size_t option) option" where
  "shl_htable_remove_str t str hash =
     (let (h, hash) = shl_htable_hash_str str hash
      in do { (t, r) \<leftarrow> shl_htable_remove t str h; Some (t, r, hash) })"

definition shl_htable_clear_str :: "(u8 list option) shl_htable \<Rightarrow> bool \<Rightarrow> ((u8 list option) shl_htable \<times> ptr list) option" where
  "shl_htable_clear_str t cb = shl_htable_clear t cb"

definition shl_htable_visit_str :: "(u8 list option) shl_htable \<Rightarrow> bool \<Rightarrow> ptr list option" where
  "shl_htable_visit_str t cb = shl_htable_visit t cb"

text \<open>A table that is initialised statically is one that is initialised by a call.\<close>

lemma typed_static_init:
  "SHL_HTABLE_INIT_UINT = shl_htable_init_uint" "SHL_HTABLE_INIT_ULONG = shl_htable_init_ulong"
  "SHL_HTABLE_INIT_U64 = shl_htable_init_u64" "SHL_HTABLE_INIT_STR = shl_htable_init_str"
  by (simp_all add: fun_eq_iff static_init SHL_HTABLE_INIT_UINT_def shl_htable_init_uint_def
      SHL_HTABLE_INIT_ULONG_def shl_htable_init_ulong_def SHL_HTABLE_INIT_U64_def shl_htable_init_u64_def
      SHL_HTABLE_INIT_STR_def shl_htable_init_str_def)

subsection \<open>Tables of keyed objects\<close>

text \<open>
  What the four have in common: the callbacks compare and hash the key that \<open>mem\<close> reads.
\<close>

definition keyed :: "nat \<Rightarrow> (ptr \<Rightarrow> 'k) \<Rightarrow> ('k \<Rightarrow> size_t) \<Rightarrow> 'k shl_htable \<Rightarrow> ptr multiset \<Rightarrow> bool" where
  "keyed B mem hash t S \<longleftrightarrow> ht_ok B (htable t) S \<and> (\<forall>k c. compare t k c \<longleftrightarrow> k = mem c) \<and>
     (\<forall>c. ht_rehash (htable t) c = hash (mem c))"

lemma keyed_lookup:
  assumes "keyed B mem hash t S"
  shows "\<exists>r. shl_htable_lookup t k (hash k) = Some r \<and>
    (case r of None \<Rightarrow> \<forall>c. c \<in># S \<longrightarrow> mem c \<noteq> k | Some c \<Rightarrow> c \<in># S \<and> mem c = k)"
  using htable_lookup_correct [of B t S k "hash k"] assms
  by (auto simp: keyed_def split: option.splits)

lemma keyed_insert:
  assumes "keyed B mem hash t S" "good_ptr B c" "size S < 3 * 2 ^ 28"
  shows "(\<exists>t'. shl_htable_insert env t c (hash (mem c)) = Some (t', ok) \<and> keyed B mem hash t' (add_mset c S)) \<or>
    shl_htable_insert env t c (hash (mem c)) = Some (t, Inl ENOMEM) \<and> \<not> (\<forall>n. \<not> alloc_fails env n)"
proof -
  from assms(1) have t: "ht_ok B (htable t) S" "\<And>c. ht_rehash (htable t) c = hash (mem c)" by (auto simp: keyed_def)
  from htable_add_correct [OF t(1) assms(2,3), of env] obtain ht' b where
    h: "htable_add env (htable t) (hash (mem c)) c = Some (ht', b)" "ht_rehash ht' = ht_rehash (htable t)"
      "if b then ht_ok B ht' (add_mset c S) else ht' = htable t" "(\<forall>n. \<not> alloc_fails env n) \<longrightarrow> b"
    unfolding t(2) by blast
  have ins: "shl_htable_insert env t c (hash (mem c)) = Some (t\<lparr>htable := ht'\<rparr>, if b then ok else Inl ENOMEM)"
    using h(1) by (simp add: shl_htable_insert_def)
  show ?thesis
  proof (cases b)
    case True
    with ins h assms(1) show ?thesis by (auto simp: keyed_def)
  next
    case False
    with ins h show ?thesis by auto
  qed
qed

lemma keyed_remove:
  assumes "keyed B mem hash t S"
  shows "\<exists>t' r. shl_htable_remove t k (hash k) = Some (t', r) \<and>
    (case r of None \<Rightarrow> keyed B mem hash t' S \<and> (\<forall>c. c \<in># S \<longrightarrow> mem c \<noteq> k)
     | Some c \<Rightarrow> keyed B mem hash t' (S - {#c#}) \<and> c \<in># S \<and> mem c = k)"
proof -
  from assms have t: "ht_ok B (htable t) S" "\<And>k c. compare t k c \<longleftrightarrow> k = mem c"
    "\<And>c. ht_rehash (htable t) c = hash (mem c)" by (auto simp: keyed_def)
  from htable_remove_correct [OF t(1), of k "hash k"] obtain t' r where
    "shl_htable_remove t k (hash k) = Some (t', r)" "compare t' = compare t"
    "ht_rehash (htable t') = ht_rehash (htable t)"
    "case r of
       None \<Rightarrow> t' = t \<and> (\<forall>c. c \<in># S \<and> ht_rehash (htable t) c = hash k \<longrightarrow> \<not> compare t k c)
     | Some c \<Rightarrow> c \<in># S \<and> compare t k c \<and> ht_ok B (htable t') (S - {#c#})" by blast
  with t show ?thesis by (cases r) (auto simp: keyed_def)
qed

lemma keyed_init:
  "(\<And>k c. cmp k c \<longleftrightarrow> k = mem c) \<Longrightarrow> (\<And>c. f c = hash (mem c)) \<Longrightarrow> keyed B mem hash (shl_htable_init cmp f) {#}"
  by (simp add: keyed_def shl_htable_init_def ht_ok_def htable_init_eq)

lemmas keyed_laws = keyed_lookup keyed_insert keyed_remove

interpretation uint_table: bag "keyed B mem shl_htable_rehash_uint" "good_ptr B" mem "3 * 2 ^ 28"
  "\<lambda>env. \<forall>n. \<not> alloc_fails env n" shl_htable_lookup_uint "shl_htable_insert_uint mem" shl_htable_remove_uint for B mem
  by unfold_locales
     (use keyed_laws [of B mem shl_htable_rehash_uint] in
       \<open>simp_all add: shl_htable_lookup_uint_def shl_htable_insert_uint_def shl_htable_remove_uint_def
          shl_htable_rehash_uint_def\<close>)

interpretation ulong_table: bag "keyed B mem shl_htable_rehash_ulong" "good_ptr B" mem "3 * 2 ^ 28"
  "\<lambda>env. \<forall>n. \<not> alloc_fails env n" shl_htable_lookup_ulong "shl_htable_insert_ulong mem" shl_htable_remove_ulong for B mem
  by unfold_locales
     (use keyed_laws [of B mem shl_htable_rehash_ulong] in
       \<open>simp_all add: shl_htable_lookup_ulong_def shl_htable_insert_ulong_def shl_htable_remove_ulong_def
          shl_htable_rehash_ulong_def\<close>)

interpretation u64_table: bag "keyed B mem shl_htable_rehash_u64" "good_ptr B" mem "3 * 2 ^ 28"
  "\<lambda>env. \<forall>n. \<not> alloc_fails env n" shl_htable_lookup_u64 "shl_htable_insert_u64 mem" shl_htable_remove_u64 for B mem
  by unfold_locales
     (use keyed_laws [of B mem shl_htable_rehash_u64] in
       \<open>simp_all add: shl_htable_lookup_u64_def shl_htable_insert_u64_def shl_htable_remove_u64_def
          shl_htable_rehash_u64_def\<close>)

lemma shl_htable_compare_str_eq: "shl_htable_compare_str a b \<longleftrightarrow> a = b"
  by (auto simp: shl_htable_compare_str_def split: option.splits)

text \<open>The string operations without a cached hash.\<close>

definition str_lookup :: "(u8 list option) shl_htable \<Rightarrow> u8 list option \<Rightarrow> ptr option option" where
  "str_lookup t k = map_option fst (shl_htable_lookup_str t k None)"

definition str_insert ::
  "(ptr \<Rightarrow> u8 list option) \<Rightarrow> alloc_env \<Rightarrow> (u8 list option) shl_htable \<Rightarrow> ptr \<Rightarrow>
   ((u8 list option) shl_htable \<times> unit res) option" where
  "str_insert mem env t c = map_option (\<lambda>(t, r, h). (t, r)) (shl_htable_insert_str mem env t c None)"

definition str_remove ::
  "(u8 list option) shl_htable \<Rightarrow> u8 list option \<Rightarrow> ((u8 list option) shl_htable \<times> ptr option) option" where
  "str_remove t k = map_option (\<lambda>(t, r, h). (t, r)) (shl_htable_remove_str t k None)"

lemma str_ops:
  "str_lookup t k = shl_htable_lookup t k (shl_htable_rehash_str k)"
  "str_insert mem env t c = shl_htable_insert env t c (shl_htable_rehash_str (mem c))"
  "str_remove t k = shl_htable_remove t k (shl_htable_rehash_str k)"
  by (auto simp: str_lookup_def shl_htable_lookup_str_def str_insert_def shl_htable_insert_str_def
      str_remove_def shl_htable_remove_str_def shl_htable_hash_str_def split: bind_splits)

interpretation str_table: bag "keyed B mem shl_htable_rehash_str" "good_ptr B" mem "3 * 2 ^ 28"
  "\<lambda>env. \<forall>n. \<not> alloc_fails env n" str_lookup "str_insert mem" str_remove for B mem
  by unfold_locales (use keyed_laws [of B mem shl_htable_rehash_str] in \<open>simp_all add: str_ops\<close>)

subsection \<open>Visiting all objects\<close>

lemma ht_entries_shape:
  assumes "shape ht t"
  shows "ht_entries ht = Some (map (get_raw_ptr ht) (filter entry_is_valid t))"
proof -
  let ?f = "\<lambda>i out. do {
      e \<leftarrow> tab_read ht (of_nat i);
      Some (if entry_is_valid e then out @ [get_raw_ptr ht e] else out) }"
  let ?P = "\<lambda>i out. out = map (get_raw_ptr ht) (filter entry_is_valid (take i t))"
  obtain n where "size_shl1 (ht_bits ht) = Some n" "unat n = length t" using size_shl1_shape [OF assms] by blast
  moreover have "\<exists>out. foldM ?f [0..<length t] [] = Some out \<and> ?P (length t) out"
    by (rule foldM_upt_inv [where P = ?P]) (auto simp: tab_read_shape [OF assms] take_Suc_conv_app_nth)
  ultimately show ?thesis by (simp add: ht_entries_def)
qed

lemma ht_scan_shape:
  assumes "shape ht t" "unat n = length t"
  shows "i \<le> length t \<Longrightarrow> (filter entry_is_valid (drop i t) = [] \<and> ht_scan ht n (of_nat i) = Some (- 1)) \<or>
    (\<exists>j<length t. ht_scan ht n (of_nat i) = Some (of_nat j) \<and> entry_is_valid (t ! j) \<and>
       filter entry_is_valid (drop i t) = t ! j # filter entry_is_valid (drop (Suc j) t))"
proof (induction "length t - i" arbitrary: i)
  case 0
  then have "\<not> of_nat i < n"
    using assms(2) shape_length_bound [OF assms(1)] by (simp add: word_less_nat_alt unat_of_nat_idx)
  with 0 show ?case by (subst (1) ht_scan.simps) simp
next
  case (Suc d)
  then have i: "i < length t" by simp
  then have lt: "of_nat i < n"
    using assms(2) shape_length_bound [OF assms(1)] by (simp add: word_less_nat_alt unat_of_nat_idx)
  have scan: "ht_scan ht n (of_nat i) =
      (if entry_is_valid (t ! i) then Some (of_nat i) else ht_scan ht n (of_nat (Suc i)))"
    using lt tab_read_shape [OF assms(1) i] by (subst ht_scan.simps) (simp add: add.commute)
  have drop: "filter entry_is_valid (drop i t) =
      (if entry_is_valid (t ! i) then [t ! i] else []) @ filter entry_is_valid (drop (Suc i) t)"
    using i by (simp flip: Cons_nth_drop_Suc)
  show ?case
  proof (cases "entry_is_valid (t ! i)")
    case True
    with scan drop i show ?thesis by auto
  next
    case False
    with Suc.hyps(1) [of "Suc i"] Suc.hyps(2) scan drop show ?thesis by simp
  qed
qed

lemma foreach_shape:
  assumes "shape ht t" "entries_ok B ht t" "unat n = length t" "size_shl1 (ht_bits ht) = Some n"
  shows "i \<le> length t \<Longrightarrow> do { i \<leftarrow> ht_scan ht n (of_nat i); SHL_HTABLE_FOREACH ht i out } =
    Some (out @ map (get_raw_ptr ht) (filter entry_is_valid (drop i t)))"
proof (induction "length t - i" arbitrary: i out rule: less_induct)
  case less
  from ht_scan_shape [OF assms(1,3) less.prems] show ?case
  proof (elim disjE conjE exE)
    assume *: "filter entry_is_valid (drop i t) = []" "ht_scan ht n (of_nat i) = Some (- 1)"
    have "\<not> (- 1 :: size_t) < n" by (metis not_le word_order.extremum)
    with * show ?thesis by (simp add: SHL_HTABLE_FOREACH.simps shl_htable_get_entry_def assms(4))
  next
    fix j assume *: "j < length t" "ht_scan ht n (of_nat i) = Some (of_nat j)" "entry_is_valid (t ! j)"
      "filter entry_is_valid (drop i t) = t ! j # filter entry_is_valid (drop (Suc j) t)"
    have "i \<le> j"
    proof (rule ccontr)
      assume "\<not> i \<le> j"
      then have "drop (Suc j) t = take (i - Suc j) (drop (Suc j) t) @ drop i t"
        by (metis Suc_leI append_take_drop_id drop_drop le_add_diff_inverse2 not_le)
      then have "length (filter entry_is_valid (drop i t)) \<le> length (filter entry_is_valid (drop (Suc j) t))"
        by (metis filter_append length_append le_add2)
      with *(4) show False by simp
    qed
    have lt: "of_nat j < n"
      using assms(3) shape_length_bound [OF assms(1)] *(1) by (simp add: word_less_nat_alt unat_of_nat_idx)
    have nz: "get_raw_ptr ht (t ! j) \<noteq> 0"
      using entries_okD(1) [OF assms(2) *(1,3)] good_ptr_nonzero by blast
    have tab: "ht_table ht \<noteq> None" using assms(1) by (simp add: shape_def)
    have "SHL_HTABLE_FOREACH ht (of_nat j) out = do { i \<leftarrow> ht_scan ht n (of_nat (Suc j));
        SHL_HTABLE_FOREACH ht i (out @ [get_raw_ptr ht (t ! j)]) }"
      using lt nz tab *(3) tab_read_shape [OF assms(1) *(1)]
      by (subst SHL_HTABLE_FOREACH.simps)
         (simp add: shl_htable_get_entry_def shl_htable_this_or_next_def assms(4) add.commute)
    also have "\<dots> = Some ((out @ [get_raw_ptr ht (t ! j)]) @ map (get_raw_ptr ht) (filter entry_is_valid (drop (Suc j) t)))"
      using *(1) \<open>i \<le> j\<close> by (intro less.hyps) auto
    finally show ?thesis using *(2,4) by simp
  qed
qed

lemma htable_visit_correct:
  assumes "ht_ok B ht S"
  shows "\<exists>out. htable_visit ht True = Some out \<and> mset out = S \<and> htable_foreach ht = Some out \<and>
    htable_clear ht True = Some (htable_init (ht_rehash ht), out)"
  using assms [unfolded ht_ok_def]
proof (elim disjE conjE exE)
  assume i: "ht = htable_init (ht_rehash ht)" "S = {#}"
  have "ht_table ht = None" by (subst i(1)) (simp add: htable_init_eq)
  moreover have "size_shl1 (ht_bits ht) = Some 1" by (subst i(1)) (simp add: htable_init_eq size_shl1_def)
  ultimately show ?thesis
    using i(2) by (simp add: htable_visit_def htable_clear_def htable_foreach_def shl_htable_this_or_next_def
        SHL_HTABLE_FOREACH.simps shl_htable_get_entry_def)
next
  fix t assume t: "hinv B ht t" "S = stored ht t"
  then have inv: "shape ht t" "entries_ok B ht t" by (auto simp: hinv_def)
  then have tab: "ht_table ht \<noteq> None" by (simp add: shape_def)
  obtain n where n: "size_shl1 (ht_bits ht) = Some n" "unat n = length t" using size_shl1_shape [OF inv(1)] by blast
  from foreach_shape [OF inv n(2,1), of 0 "[]"] ht_entries_shape [OF inv(1)] tab n t(2) show ?thesis
    by (simp add: htable_visit_def htable_clear_def htable_foreach_def shl_htable_this_or_next_def stored_list)
qed

text \<open>The loops with an accessor go over the same objects.\<close>

lemma foreach_macro_raw:
  assumes "SHL_HTABLE_FOREACH ht i out = Some y"
  shows "\<exists>xs. y = out @ xs \<and> (\<forall>acc out. SHL_HTABLE_FOREACH_MACRO acc ht i out =
     Some (out @ map acc (takeWhile (\<lambda>x. acc x \<noteq> 0) xs)))"
  using assms
proof (induction rule: SHL_HTABLE_FOREACH.raw_induct [rotated, consumes 1, case_names step])
  case (step foreach ht i out y)
  from step(2) obtain e where e: "shl_htable_get_entry ht i = Some e" by (cases "shl_htable_get_entry ht i") auto
  show ?case
  proof (cases "e = 0")
    case True
    then have "SHL_HTABLE_FOREACH_MACRO acc ht i out = Some out" for acc out
      using e by (subst SHL_HTABLE_FOREACH_MACRO.simps) simp
    with step(2) e True show ?thesis by simp
  next
    case False
    with step(2) e obtain j where j: "shl_htable_this_or_next ht (i + 1) = Some j" "foreach ht j (out @ [e]) = Some y"
      by (cases "shl_htable_this_or_next ht (i + 1)") auto
    from step(1) [OF j(2)] obtain xs where xs: "y = (out @ [e]) @ xs"
      "\<forall>acc out. SHL_HTABLE_FOREACH_MACRO acc ht j out = Some (out @ map acc (takeWhile (\<lambda>x. acc x \<noteq> 0) xs))" by blast
    then show ?thesis
      using False e j(1) by (intro exI [of _ "e # xs"]) (simp add: SHL_HTABLE_FOREACH_MACRO.simps [of _ ht i])
  qed
qed

lemma foreach_macro:
  "htable_foreach ht = Some xs \<Longrightarrow>
   htable_foreach_macro acc ht = Some (map acc (takeWhile (\<lambda>x. acc x \<noteq> 0) xs))"
  by (cases "shl_htable_this_or_next ht 0")
     (auto simp: htable_foreach_def htable_foreach_macro_def dest!: foreach_macro_raw)

lemma foreach_first:
  "htable_foreach ht = Some xs \<Longrightarrow> SHL_HTABLE_FIRST ht = Some (case xs of [] \<Rightarrow> 0 | x # _ \<Rightarrow> x)"
proof -
  assume f: "htable_foreach ht = Some xs"
  then obtain i where i: "shl_htable_this_or_next ht 0 = Some i" "SHL_HTABLE_FOREACH ht i [] = Some xs"
    by (cases "shl_htable_this_or_next ht 0") (auto simp: htable_foreach_def)
  then obtain e where e: "shl_htable_get_entry ht i = Some e"
    by (cases "shl_htable_get_entry ht i") (auto simp: SHL_HTABLE_FOREACH.simps)
  show ?thesis
  proof (cases "e = 0")
    case True
    with i e show ?thesis by (auto simp: SHL_HTABLE_FIRST_def SHL_HTABLE_FOREACH.simps)
  next
    case False
    with i(2) e obtain j where "SHL_HTABLE_FOREACH ht j [e] = Some xs"
      by (cases "shl_htable_this_or_next ht (i + 1)") (auto simp: SHL_HTABLE_FOREACH.simps [of ht i])
    with foreach_macro_raw obtain ys where "xs = e # ys" by fastforce
    with i e show ?thesis by (simp add: SHL_HTABLE_FIRST_def)
  qed
qed

lemma first_macro: "SHL_HTABLE_FIRST_MACRO acc ht = map_option (\<lambda>e. if e \<noteq> 0 then acc e else 0) (SHL_HTABLE_FIRST ht)"
  by (cases "shl_htable_this_or_next ht 0") (auto simp: SHL_HTABLE_FIRST_MACRO_def SHL_HTABLE_FIRST_def map_option_case split: option.splits)

subsection \<open>The properties of the hash table\<close>

text \<open>Keys and objects of the witnesses: three objects in one range, two of them with the same key.\<close>

definition obj_keys :: "ptr \<Rightarrow> u32" where
  "obj_keys c = (if c = 0x1010 then 7 else 5)"

definition str_keys :: "ptr \<Rightarrow> u8 list option" where
  "str_keys c = (if c = 0x1000 then None else Some [97])"

definition no_fail :: alloc_env where
  "no_fail = \<lparr>alloc_fails = (\<lambda>_. False), junk = (\<lambda>_. 0)\<rparr>"

lemma good_ptr_range: "1 \<le> B \<Longrightarrow> bit p B \<Longrightarrow> drop_bit (Suc B) p = 0 \<Longrightarrow> good_ptr B p"
proof -
  assume *: "1 \<le> B" "bit p B" "drop_bit (Suc B) p = 0"
  have "\<not> bit p n" if "B < n" for n
  proof -
    have "bit p n = bit (drop_bit (Suc B) p) (n - Suc B)" using that by (simp add: bit_drop_bit_eq)
    then show ?thesis by (simp add: *(3))
  qed
  with * show ?thesis by (simp add: good_ptr_def)
qed

lemma good_ptr_examples: "good_ptr 12 0x1000" "good_ptr 12 0x1010" "good_ptr 12 0x1020"
  by (rule good_ptr_range; code_simp)+

text \<open>
  C10. A hash table of \<^verbatim>\<open>unsigned int\<close> keys behaves like a multiset of objects, under the condition
  that the addresses of all inserted objects have the same highest set bit \<open>B\<close> (they lie in one range
  \<open>[2^B, 2^(B+1))\<close>): started empty, every sequence of fewer than \<open>3 * 2^28\<close> insertions, lookups and
  removals of such objects, with any allocator, terminates without undefined behaviour; a lookup finds
  an object with the key exactly when one is stored, a removal takes out one such object, an insertion
  adds the object or fails with \<^verbatim>\<open>-ENOMEM\<close> and changes nothing. Objects from different ranges can be
  lost (\<open>htable_loses_object\<close>).
\<close>

theorem htable_uint_is_bag:
  assumes "list_all (dict_op_ok (\<lambda>_. True) (good_ptr B)) ops" "length ops < 3 * 2 ^ 28"
  shows "\<exists>t rs S. dict_run shl_htable_lookup_uint (shl_htable_insert_uint mem) shl_htable_remove_uint alloc ops
      (shl_htable_init_uint mem) = Some (t, rs) \<and>
    keyed B mem shl_htable_rehash_uint t S \<and> trace (bag_step mem) {#} ops rs S \<and>
    ((\<forall>i s n. \<not> alloc_fails (alloc i s) n) \<longrightarrow> Status (Inl ENOMEM) \<notin> set rs)"
proof -
  have init: "keyed B mem shl_htable_rehash_uint (shl_htable_init_uint mem) {#}"
    unfolding shl_htable_init_uint_def by (rule keyed_init) (simp_all add: shl_htable_compare_uint_def)
  have "size ({#} :: ptr multiset) + 1 * length ops < 3 * 2 ^ 28" using assms(2) by simp
  from uint_table.run_refines [where alloc = alloc, OF init assms(1) _ this] show ?thesis by blast
qed

theorem htable_uint_is_bag_witness:
  "\<exists>t rs S. dict_run shl_htable_lookup_uint (shl_htable_insert_uint obj_keys) shl_htable_remove_uint
      (\<lambda>_ _. no_fail) [Insert 0x1000, Insert 0x1010, Insert 0x1020, Remove 5, Lookup 5]
      (shl_htable_init_uint obj_keys) = Some (t, rs) \<and>
    keyed 12 obj_keys shl_htable_rehash_uint t S \<and>
    trace (bag_step obj_keys) {#} [Insert 0x1000, Insert 0x1010, Insert 0x1020, Remove 5, Lookup 5] rs S"
proof -
  have "list_all (dict_op_ok (\<lambda>_. True) (good_ptr 12)) [Insert 0x1000, Insert 0x1010, Insert 0x1020, Remove 5, Lookup 5]"
    using good_ptr_examples by simp
  from htable_uint_is_bag [OF this, where mem = obj_keys and alloc = "\<lambda>_ _. no_fail"] show ?thesis by fastforce
qed

text \<open>
  C11. The same for tables of strings, where the key is a possibly null \<^verbatim>\<open>char *\<close>, under the same
  conditions (fewer than \<open>3 * 2^28\<close> operations on objects whose addresses have the same highest set bit):
  the table behaves like a multiset of objects, two strings are the same key exactly when their bytes
  are, and the hash of a string depends on its bytes only.
\<close>

theorem htable_str_is_bag:
  assumes "list_all (dict_op_ok (\<lambda>_. True) (good_ptr B)) ops" "length ops < 3 * 2 ^ 28"
  shows "\<exists>t rs S. dict_run str_lookup (str_insert mem) str_remove alloc ops
      (shl_htable_init_str mem) = Some (t, rs) \<and>
    keyed B mem shl_htable_rehash_str t S \<and> trace (bag_step mem) {#} ops rs S \<and>
    ((\<forall>i s n. \<not> alloc_fails (alloc i s) n) \<longrightarrow> Status (Inl ENOMEM) \<notin> set rs)"
proof -
  have init: "keyed B mem shl_htable_rehash_str (shl_htable_init_str mem) {#}"
    unfolding shl_htable_init_str_def by (rule keyed_init) (simp_all add: shl_htable_compare_str_eq)
  have "size ({#} :: ptr multiset) + 1 * length ops < 3 * 2 ^ 28" using assms(2) by simp
  from str_table.run_refines [where alloc = alloc, OF init assms(1) _ this] show ?thesis by blast
qed

theorem htable_str_is_bag_witness:
  "\<exists>t rs S. dict_run str_lookup (str_insert str_keys) str_remove
      (\<lambda>_ _. no_fail) [Insert 0x1000, Insert 0x1010, Lookup (Some [97])]
      (shl_htable_init_str str_keys) = Some (t, rs) \<and>
    trace (bag_step str_keys) {#}
      [Insert 0x1000, Insert 0x1010, Lookup (Some [97])] rs S"
proof -
  have "list_all (dict_op_ok (\<lambda>_. True) (good_ptr 12)) [Insert 0x1000, Insert 0x1010, Lookup (Some [97] :: u8 list option)]"
    using good_ptr_examples by simp
  from htable_str_is_bag [OF this, where mem = str_keys and alloc = "\<lambda>_ _. no_fail"] show ?thesis by fastforce
qed

text \<open>
  C12. On a table of fewer than \<open>3 * 2^28\<close> objects whose addresses all have the same highest set bit,
  inserting another object with that highest bit keeps the invariant and adds exactly the new object,
  through doubling, in-place rehashing and giving back common bits, or returns \<^verbatim>\<open>-ENOMEM\<close> with the
  table unchanged, which only happens when the allocator refuses. An object with another highest bit
  can be reported as inserted and not be found again (\<open>htable_loses_object\<close>).
\<close>

theorem htable_insert_outcomes:
  assumes "ht_ok B (htable t) S" "good_ptr B p" "size S < 3 * 2 ^ 28" "hash = ht_rehash (htable t) p"
  shows "\<exists>t' r. shl_htable_insert env t p hash = Some (t', r) \<and> compare t' = compare t \<and>
    ht_rehash (htable t') = ht_rehash (htable t) \<and>
    (r = ok \<and> ht_ok B (htable t') (add_mset p S) \<or> r = Inl ENOMEM \<and> t' = t \<and> (\<exists>n. alloc_fails env n))"
  using htable_add_correct [OF assms(1-3), of env] assms(4)
  by (fastforce simp: shl_htable_insert_def split: if_splits)

theorem htable_insert_outcomes_witness:
  "\<exists>t' r. shl_htable_insert no_fail (shl_htable_init (=) (\<lambda>c. c)) 0x1000 0x1000 = Some (t', r) \<and>
    compare t' = (=) \<and> r = ok \<and> ht_ok 12 (htable t') {#0x1000#}"
proof -
  let ?t = "shl_htable_init (=) (\<lambda>c :: ptr. c) :: ptr shl_htable"
  have "ht_ok 12 (htable ?t) {#}" "0x1000 = ht_rehash (htable ?t) 0x1000" "compare ?t = (=)"
    by (simp_all add: shl_htable_init_def htable_init_eq ht_ok_def)
  with htable_insert_outcomes [where B = 12 and t = ?t and S = "{#}" and p = "0x1000" and env = no_fail] good_ptr_examples
  show ?thesis by (auto simp: no_fail_def)
qed

text \<open>
  C13. On every table that satisfies the invariant, which implies that the addresses of its objects all
  have the same highest set bit, visiting, iterating with \<^verbatim>\<open>SHL_HTABLE_FOREACH\<close> or its variant with an
  accessor, and clearing all go over the same objects in the same order, each stored object exactly as
  often as it was inserted; \<^verbatim>\<open>SHL_HTABLE_FIRST\<close> is the first of them, null on an empty table, and
  clearing leaves an initialised table. The loop with an accessor ends early where the accessor gives
  null.
\<close>

theorem htable_visits_all:
  assumes "ht_ok B (htable t) S"
  shows "\<exists>out. shl_htable_visit t True = Some out \<and> mset out = S \<and> htable_foreach (htable t) = Some out \<and>
    htable_foreach_macro acc (htable t) = Some (map acc (takeWhile (\<lambda>x. acc x \<noteq> 0) out)) \<and>
    SHL_HTABLE_FIRST (htable t) = Some (case out of [] \<Rightarrow> 0 | x # _ \<Rightarrow> x) \<and>
    shl_htable_clear t True = Some (t\<lparr>htable := htable_init (ht_rehash (htable t))\<rparr>, out)"
proof -
  from htable_visit_correct [OF assms] obtain out where out: "htable_visit (htable t) True = Some out" "mset out = S"
    "htable_foreach (htable t) = Some out" "htable_clear (htable t) True = Some (htable_init (ht_rehash (htable t)), out)"
    by blast
  from foreach_macro [OF out(3)] foreach_first [OF out(3)] out show ?thesis
    by (simp add: shl_htable_visit_def shl_htable_clear_def)
qed

theorem htable_visits_all_witness:
  "\<exists>t1 t out. shl_htable_insert_uint obj_keys no_fail (shl_htable_init_uint obj_keys) 0x1000 = Some (t1, ok) \<and>
    shl_htable_insert_uint obj_keys no_fail t1 0x1010 = Some (t, ok) \<and>
    shl_htable_visit t True = Some out \<and> mset out = {#0x1000, 0x1010#} \<and> htable_foreach (htable t) = Some out \<and>
    shl_htable_clear t True = Some (t\<lparr>htable := htable_init (ht_rehash (htable t))\<rparr>, out)"
proof -
  have none: "\<forall>n. \<not> alloc_fails no_fail n" by (simp add: no_fail_def)
  have "keyed 12 obj_keys shl_htable_rehash_uint (shl_htable_init_uint obj_keys) {#}"
    unfolding shl_htable_init_uint_def by (rule keyed_init) (simp_all add: shl_htable_compare_uint_def)
  from keyed_insert [OF this good_ptr_examples(1), of no_fail] none obtain t1 where
    1: "shl_htable_insert_uint obj_keys no_fail (shl_htable_init_uint obj_keys) 0x1000 = Some (t1, ok)"
      "keyed 12 obj_keys shl_htable_rehash_uint t1 {#0x1000#}"
    by (auto simp: shl_htable_insert_uint_def shl_htable_rehash_uint_def)
  from keyed_insert [OF 1(2) good_ptr_examples(2), of no_fail] none obtain t where
    2: "shl_htable_insert_uint obj_keys no_fail t1 0x1010 = Some (t, ok)" "ht_ok 12 (htable t) {#0x1000, 0x1010#}"
    by (auto simp: shl_htable_insert_uint_def shl_htable_rehash_uint_def keyed_def add_mset_commute)
  from htable_visits_all [OF 2(2)] 1(1) 2(1) show ?thesis by blast
qed

text \<open>
  The assumption on the addresses is needed. The code means to keep one bit of every pointer
  visible so that no entry looks empty or removed, but it keeps the top bit of the first object
  only: after inserting the object at \<open>0x18\<close>, the object at \<open>0x08\<close> with hash 0 is reported as
  inserted and counted, but stored as an empty slot, and no lookup or visit sees it.
\<close>

theorem htable_loses_object:
  "do { (t, r1) \<leftarrow> shl_htable_insert_ulong (\<lambda>_. 0) no_fail (shl_htable_init_ulong (\<lambda>_. 0)) 0x18;
        (t, r2) \<leftarrow> shl_htable_insert_ulong (\<lambda>_. 0) no_fail t 0x08;
        out \<leftarrow> shl_htable_visit t True;
        Some (r1, r2, ht_elems (htable t), out) } = Some (ok, ok, 2, [0x18])"
  by code_simp

end
