(* ===== verification/Shl_Containers.thy ===== *)
theory Shl_Containers
  imports Shl_Trie_Order Shl_Htable_Keys
begin

text \<open>
  The two containers of \<^verbatim>\<open>src/shl_trie.c\<close> and \<^verbatim>\<open>src/shl_htable.c\<close> side by side: used as dictionaries of objects
  with string keys, a client cannot tell them apart, except that the trie refuses a key that is present.
\<close>

subsection \<open>Dictionaries and bags\<close>

text \<open>
  A map from keys to entries and a bag of entries hold the same; \<open>mem\<close> reads the key of an entry.
\<close>

definition same_entries :: "('v \<Rightarrow> 'k option) \<Rightarrow> ('k \<rightharpoonup> 'v) \<Rightarrow> 'v multiset \<Rightarrow> bool" where
  "same_entries mem m M \<longleftrightarrow> (\<forall>k e. m k = Some e \<longrightarrow> mem e = Some k) \<and> (\<forall>e. count M e = of_bool (e \<in> ran m))"

lemma same_entries_in: "same_entries mem m M \<Longrightarrow> e \<in># M \<longleftrightarrow> e \<in> ran m"
  by (simp add: same_entries_def flip: count_greater_zero_iff)

lemma same_entries_key: "same_entries mem m M \<Longrightarrow> e \<in># M \<and> mem e = Some k \<longleftrightarrow> m k = Some e"
  by (auto simp: same_entries_in ran_def) (auto simp: same_entries_def)

lemma same_entries_lookup:
  assumes "same_entries mem m M"
    and "case r of None \<Rightarrow> \<forall>e. e \<in># M \<longrightarrow> mem e \<noteq> Some k | Some e \<Rightarrow> e \<in># M \<and> mem e = Some k"
  shows "r = m k"
proof (cases r)
  case (Some e)
  with assms same_entries_key [OF assms(1), of e k] show ?thesis by simp
next
  case None
  with assms(2) same_entries_key [OF assms(1), of _ k] show ?thesis by (cases "m k") auto
qed

lemma same_entries_insert:
  assumes "same_entries mem m M" "mem e = Some k" "k \<notin> dom m"
  shows "same_entries mem (m(k \<mapsto> e)) (add_mset e M)"
proof -
  have "e \<notin> ran m" using assms by (force simp: same_entries_def ran_def dom_def)
  moreover have "ran (m(k \<mapsto> e)) = insert e (ran m)" using assms(3) by (simp add: ran_map_upd domIff)
  ultimately show ?thesis using assms by (auto simp: same_entries_def)
qed

lemma same_entries_remove:
  assumes "same_entries mem m M" "m k = Some e"
  shows "same_entries mem (m(k := None)) (M - {#e#})"
proof -
  have filed: "mem e = Some k" if "m k = Some e" for k e
    using assms(1) that by (simp add: same_entries_def)
  have "x \<in> ran (m(k := None)) \<longleftrightarrow> x \<in> ran m \<and> x \<noteq> e" for x
  proof
    assume "x \<in> ran (m(k := None))"
    then obtain j where "j \<noteq> k" "m j = Some x" by (auto simp: ran_def split: if_splits)
    then show "x \<in> ran m \<and> x \<noteq> e" using filed [of j x] filed [OF assms(2)] by (auto intro: ranI)
  next
    assume "x \<in> ran m \<and> x \<noteq> e"
    then obtain j where "m j = Some x" "x \<noteq> e" by (auto simp: ran_def)
    with assms(2) have "(m(k := None)) j = Some x" by auto
    then show "x \<in> ran (m(k := None))" by (rule ranI)
  qed
  moreover have "e \<in> ran m" using assms(2) by (rule ranI)
  ultimately show ?thesis
    using assms(1) unfolding same_entries_def by (simp add: filed)
qed

lemma same_entries_absent: "same_entries mem m M \<Longrightarrow> m k = None \<Longrightarrow> same_entries mem (m(k := None)) M"
  by (simp add: fun_upd_idem)

text \<open>One call: unless one of the containers runs out of memory or the map refuses the entry, they agree.\<close>

lemma step_agrees:
  assumes "same_entries mem m M" "dict_step key_of m op r m'" "bag_step mem M (map_dict_op Some id op) r' M'"
    and "\<And>e. op = Insert e \<Longrightarrow> mem e = Some (key_of e)"
    and "r \<notin> {Status (Inl ENOMEM), Status (Inl EALREADY)}" "r' \<noteq> Status (Inl ENOMEM)"
  shows "r' = r \<and> same_entries mem m' M'"
proof (cases op)
  case (Lookup k)
  then have "m' = m" "r = Found (m k)" using assms(2) by auto
  moreover obtain x where "r' = Found x" "M' = M"
    "case x of None \<Rightarrow> \<forall>e. e \<in># M \<longrightarrow> mem e \<noteq> Some k | Some e \<Rightarrow> e \<in># M \<and> mem e = Some k"
    using assms(3) Lookup by (auto simp: bag_step_lookup)
  ultimately show ?thesis using same_entries_lookup [OF assms(1)] assms(1) by auto
next
  case (Insert e)
  then have "key_of e \<notin> dom m" "r = Status ok" "m' = m(key_of e \<mapsto> e)"
    using assms(2,5) by (auto simp: dict_step_insert)
  moreover have "r' = Status ok" "M' = add_mset e M" using assms(3,6) Insert by (auto simp: bag_step_insert)
  ultimately show ?thesis using same_entries_insert [OF assms(1)] assms(4) [OF Insert] by simp
next
  case (Remove k)
  then have m': "m' = m(k := None)" "r = Found (m k)" using assms(2) by auto
  obtain x where x: "r' = Found x" "M' = (case x of None \<Rightarrow> M | Some e \<Rightarrow> M - {#e#})"
    "case x of None \<Rightarrow> \<forall>e. e \<in># M \<longrightarrow> mem e \<noteq> Some k | Some e \<Rightarrow> e \<in># M \<and> mem e = Some k"
    using assms(3) Remove by (auto simp: bag_step_remove)
  then have "x = m k" using same_entries_lookup [OF assms(1)] by blast
  with x m' same_entries_remove [OF assms(1), of k] same_entries_absent [OF assms(1), of k] show ?thesis
    by (cases "m k") auto
qed

lemma trace_agrees:
  assumes "trace (dict_step key_of) m ops rs m'" "trace (bag_step mem) M (map (map_dict_op Some id) ops) rs' M'"
    and "same_entries mem m M" "\<And>e. Insert e \<in> set ops \<Longrightarrow> mem e = Some (key_of e)"
    and "Status (Inl ENOMEM) \<notin> set rs" "Status (Inl EALREADY) \<notin> set rs" "Status (Inl ENOMEM) \<notin> set rs'"
  shows "rs' = rs \<and> same_entries mem m' M'"
  using assms
proof (induction arbitrary: M rs' rule: trace.induct)
  case (trace_nil m)
  then show ?case by (auto elim: trace.cases)
next
  case (trace_cons m op r m1 ops rs m')
  from trace_cons.prems(1) obtain r' rs1 M1 where
    b: "rs' = r' # rs1" "bag_step mem M (map_dict_op Some id op) r' M1"
      "trace (bag_step mem) M1 (map (map_dict_op Some id) ops) rs1 M'"
    unfolding list.map by (rule trace_consE) blast
  have "r' = r \<and> same_entries mem m1 M1"
    using trace_cons.prems trace_cons.hyps(1) b by (intro step_agrees [of mem m M key_of op]) auto
  moreover from this have "rs1 = rs \<and> same_entries mem m' M'"
    using trace_cons.prems(3-6) b(1) by (intro trace_cons.IH [OF b(3)]) auto
  ultimately show ?case using b(1) by simp
qed

subsection \<open>The trie and the table of strings\<close>

lemma ops_for_table:
  "list_all (dict_op_ok cstring (\<lambda>e. entry_ok K e \<and> good_ptr B e)) ops \<Longrightarrow>
   list_all (dict_op_ok cstring (entry_ok K)) ops \<and>
   list_all (dict_op_ok (\<lambda>_. True) (good_ptr B)) (map (map_dict_op Some id) ops)"
proof (induction ops)
  case (Cons op ops)
  then show ?case by (cases op) auto
qed simp

text \<open>Two objects, and an allocator with room for the node they need.\<close>

definition two_objs :: keys where
  "two_objs = [0x1000 \<mapsto> [97], 0x1010 \<mapsto> [97, 98]]"

definition two_nodes :: "nat \<Rightarrow> trie_state \<Rightarrow> ptr option" where
  "two_nodes i s = (if fst s 16 = None then Some 16 else if fst s 24 = None then Some 24 else None)"

lemma length_naddrs: "Suc (length (naddrs t)) = length (leaves t)"
  by (induction t) auto

lemma two_nodes_enough:
  assumes "trie_ok two_objs h root T"
  shows "two_nodes i (h, root) \<noteq> None"
proof (cases T)
  case None
  with assms show ?thesis by (simp add: two_nodes_def)
next
  case (Some t)
  with assms have t: "cwf (kof two_objs) t" "\<forall>e \<in> set (leaves t). entry_ok two_objs e" "dom h = set (naddrs t)" by auto
  have "set (leaves t) \<subseteq> {0x1000, 0x1010}"
    using t(2) by (auto simp: entry_ok_def two_objs_def split: if_splits)
  then have "card (set (leaves t)) \<le> card {0x1000, 0x1010 :: ptr}" by (intro card_mono) auto
  then have "length (naddrs t) \<le> 1"
    using distinct_card [OF cwf_distinct [OF t(1)]] length_naddrs [of t] by simp
  then have "card (dom h) \<le> 1" using card_length [of "naddrs t"] t(3) by simp
  moreover have "card {16, 24 :: ptr} \<le> card (dom h)" if "{16, 24} \<subseteq> dom h"
    using that t(3) by (intro card_mono) simp_all
  ultimately show ?thesis by (auto simp: two_nodes_def)
qed

end
