(* ===== verification/Shl_Atoi.thy ===== *)
theory Shl_Atoi
  imports Shl_Macro
begin

text \<open>
  The strict number parser of \<^verbatim>\<open>src/shl_util.c\<close>. A string is the list of its bytes, without the
  terminating NUL; reading past its end is undefined. \<^verbatim>\<open>*next\<close> is returned as the offset from the
  start of the string, next to the return code and \<^verbatim>\<open>*out\<close>.
\<close>

text \<open>The ranges of characters and the value computed in each; the last branch returns an error.\<close>

definition ctoi_value :: "u8 \<Rightarrow> u32 option" where
  "ctoi_value ch =
     (if 48 \<le> ch \<and> ch \<le> 57 then Some (ucast (ch - 48))
      else if 97 \<le> ch \<and> ch \<le> 122 then Some (ucast (ch - 97) + 10)
      else if 65 \<le> ch \<and> ch \<le> 90 then Some (ucast (ch - 65) + 10)
      else None)"

definition shl_ctoi :: "u8 \<Rightarrow> u32 \<Rightarrow> errno + u32" where
  "shl_ctoi ch base =
     (case ctoi_value ch of
        None \<Rightarrow> Inl EINVAL
      | Some v \<Rightarrow> if v \<ge> base then Inl EINVAL else Inr v)"

definition is_digit :: "u8 \<Rightarrow> u32 \<Rightarrow> bool" where
  "is_digit ch base \<longleftrightarrow> (case shl_ctoi ch base of Inl _ \<Rightarrow> False | Inr _ \<Rightarrow> True)"

text \<open>The result is how far \<^verbatim>\<open>*str\<close> is advanced (and \<^verbatim>\<open>*len\<close> reduced), and the base.\<close>

definition shl__skip_base :: "u8 list \<Rightarrow> size_t \<Rightarrow> (nat \<times> u32) option" where
  "shl__skip_base str len = do {
     octal \<leftarrow> (if len > 1 then do {
         c0 \<leftarrow> char_at str 0;
         if c0 = 48 then do { c1 \<leftarrow> char_at str 1; Some (is_digit c1 8) } else Some False }
       else Some False);
     if octal then Some (1, 8)
     else do {
       hex \<leftarrow> (if len > 2 then do {
           c0 \<leftarrow> char_at str 0;
           c1 \<leftarrow> char_at str 1;
           if c0 = 48 \<and> c1 = 120 then do { c2 \<leftarrow> char_at str 2; Some (is_digit c2 16) } else Some False }
         else Some False);
       Some (if hex then (2, 16) else (0, 10)) } }"

record atoi_state =
  a_huge :: bool
  a_val1 :: u32
  a_val2 :: u64
  a_r :: "unit res"

text \<open>The body of the loop once the digit \<open>c\<close> has been read.\<close>

definition atoi_step :: "u32 \<Rightarrow> u32 \<Rightarrow> atoi_state \<Rightarrow> atoi_state" where
  "atoi_step base c st =
     (if a_r st \<noteq> ok then st
      else
        let st = (if \<not> a_huge st then
               let val2 = ucast (a_val1 st); (val1, r) = shl_mult_u32 (a_val1 st) base in
               if r = ok \<and> val1 + c \<ge> val1 then st\<lparr>a_val1 := val1 + c, a_val2 := val2, a_r := r\<rparr>
               else st\<lparr>a_val1 := val1, a_val2 := val2, a_r := r, a_huge := True\<rparr>
             else st)
        in if a_huge st then
             let (val2, r) = shl_mult_ull (a_val2 st) (ucast base) in
             if r = ok \<and> val2 + ucast c \<ge> val2 then st\<lparr>a_val2 := val2 + ucast c, a_r := r\<rparr>
             else st\<lparr>a_val2 := val2, a_r := r\<rparr>
           else st)"

function atoi_loop :: "u8 list \<Rightarrow> nat \<Rightarrow> u32 \<Rightarrow> nat \<Rightarrow> atoi_state \<Rightarrow> (nat \<times> atoi_state) option" where
  "atoi_loop str len base pos st =
     (if pos < len then do {
        ch \<leftarrow> char_at str pos;
        case shl_ctoi ch base of
          Inl _ \<Rightarrow> Some (pos, st)
        | Inr c \<Rightarrow> atoi_loop str len base (Suc pos) (atoi_step base c st) }
      else Some (pos, st))"
  by pat_completeness auto
termination
  by (relation "measure (\<lambda>(str, len, base, pos, st). len - pos)") auto

declare atoi_loop.simps [simp del]

definition shl_atoi_ulln :: "u8 list \<Rightarrow> size_t \<Rightarrow> u32 \<Rightarrow> (unit res \<times> nat \<times> u64) option" where
  "shl_atoi_ulln str len base =
     (if base > 36 then Some (Inl EINVAL, 0, 0)
      else do {
        (skip, base) \<leftarrow> (if base = 0 then shl__skip_base str len else Some (0, base));
        (pos, st) \<leftarrow> atoi_loop (drop skip str) (unat len - skip) base 0
                       \<lparr>a_huge = False, a_val1 = 0, a_val2 = 0, a_r = ok\<rparr>;
        Some (a_r st, skip + pos,
              if a_r st \<noteq> ok then - 1 else if a_huge st then a_val2 st else ucast (a_val1 st)) })"

definition shl_atoi_uln :: "u8 list \<Rightarrow> size_t \<Rightarrow> u32 \<Rightarrow> (unit res \<times> nat \<times> u64) option" where
  "shl_atoi_uln str len base = do {
     (r, next, val) \<leftarrow> shl_atoi_ulln str len base;
     let r = (if r = ok \<and> val > - 1 then Inl ERANGE else r);
     Some (r, next, shl_min val (- 1)) }"

definition shl_atoi_un :: "u8 list \<Rightarrow> size_t \<Rightarrow> u32 \<Rightarrow> (unit res \<times> nat \<times> u32) option" where
  "shl_atoi_un str len base = do {
     (r, next, val) \<leftarrow> shl_atoi_ulln str len base;
     let r = (if r = ok \<and> val > ucast (- 1 :: u32) then Inl ERANGE else r);
     Some (r, next, ucast (shl_min val (ucast (- 1 :: u32)))) }"

definition shl_atoi_zn :: "u8 list \<Rightarrow> size_t \<Rightarrow> u32 \<Rightarrow> (unit res \<times> nat \<times> size_t) option" where
  "shl_atoi_zn str len base = do {
     (r, next, val) \<leftarrow> shl_atoi_ulln str len base;
     let r = (if r = ok \<and> val > - 1 then Inl ERANGE else r);
     Some (r, next, shl_min val (- 1)) }"

text \<open>The variants that take the length from the string itself.\<close>

definition shl_atoi_ull :: "u8 list \<Rightarrow> u32 \<Rightarrow> (unit res \<times> nat \<times> u64) option" where
  "shl_atoi_ull str base = shl_atoi_ulln str (of_nat (length str)) base"

definition shl_atoi_ul :: "u8 list \<Rightarrow> u32 \<Rightarrow> (unit res \<times> nat \<times> u64) option" where
  "shl_atoi_ul str base = shl_atoi_uln str (of_nat (length str)) base"

definition shl_atoi_u :: "u8 list \<Rightarrow> u32 \<Rightarrow> (unit res \<times> nat \<times> u32) option" where
  "shl_atoi_u str base = shl_atoi_un str (of_nat (length str)) base"

definition shl_atoi_z :: "u8 list \<Rightarrow> u32 \<Rightarrow> (unit res \<times> nat \<times> size_t) option" where
  "shl_atoi_z str base = shl_atoi_zn str (of_nat (length str)) base"

subsection \<open>What the parser computes\<close>

text \<open>
  What digits are, independently of the code: a table of the ASCII characters of the alphabet of digits, with the letters in
  both cases, and the value of each.
\<close>

definition digit_table :: "(u8 \<times> nat) list" where
  "digit_table =
     zip (map of_char ''0123456789abcdefghijklmnopqrstuvwxyz'') [0..<36] @
     zip (map of_char ''ABCDEFGHIJKLMNOPQRSTUVWXYZ'') [10..<36]"

definition digit_value :: "u8 \<Rightarrow> nat option" where
  "digit_value = map_of digit_table"

definition valid_digit :: "u32 \<Rightarrow> u8 \<Rightarrow> bool" where
  "valid_digit base ch = (case digit_value ch of None \<Rightarrow> False | Some v \<Rightarrow> v < unat base)"

text \<open>
  The digits the parser reads are the longest prefix of digits of the base; their value is the
  number they denote. The accumulator works on natural numbers: it fails when the multiplication
  leaves the 64-bit range and drops the digit when only the addition does.
\<close>

definition digit :: "u32 \<Rightarrow> u8 \<Rightarrow> nat" where
  "digit base ch = (case digit_value ch of None \<Rightarrow> 0 | Some v \<Rightarrow> if v < unat base then v else 0)"

definition digits :: "u32 \<Rightarrow> u8 list \<Rightarrow> u8 list" where
  "digits base str = takeWhile (valid_digit base) str"

definition number :: "u32 \<Rightarrow> u8 list \<Rightarrow> nat" where
  "number base ds = foldl (\<lambda>v ch. v * unat base + digit base ch) 0 ds"

definition acc_step :: "u32 \<Rightarrow> u8 \<Rightarrow> nat \<Rightarrow> nat option" where
  "acc_step base ch v =
     (if 2 ^ 64 \<le> v * unat base then None
      else if 2 ^ 64 \<le> v * unat base + digit base ch then Some (v * unat base)
      else Some (v * unat base + digit base ch))"

definition atoi_abs :: "atoi_state \<Rightarrow> nat option \<Rightarrow> bool" where
  "atoi_abs st m \<longleftrightarrow>
     (case m of
        None \<Rightarrow> a_r st = Inl ERANGE
      | Some v \<Rightarrow> a_r st = ok \<and> (if a_huge st then unat (a_val2 st) = v else unat (a_val1 st) = v))"

text \<open>The code agrees with the table on all bytes.\<close>

lemma digit_table_values: "list_all (\<lambda>p. ctoi_value (fst p) = Some (of_nat (snd p)) \<and> snd p < 36) digit_table"
  by code_simp

lemma digit_table_chars:
  "map fst digit_table = map of_nat ([48..<58] @ [97..<123] @ [65..<91])"
  by code_simp

lemma ctoi_value_in_table:
  assumes "ctoi_value ch = Some v"
  shows "ch \<in> set (map fst digit_table)"
proof -
  have "unat ch \<in> set ([48..<58] @ [97..<123] @ [65..<91])"
    unfolding set_append set_upt
    using assms by (auto simp: ctoi_value_def word_le_nat_alt less_Suc_eq_le split: if_splits)
  then have "(of_nat (unat ch) :: u8) \<in> of_nat ` set ([48..<58] @ [97..<123] @ [65..<91])" by (rule imageI)
  moreover have "of_nat (unat ch) = ch" by simp
  ultimately show ?thesis unfolding digit_table_chars set_map by (simp only:)
qed

lemma ctoi_value_spec: "map_option unat (ctoi_value ch) = digit_value ch"
proof (cases "digit_value ch")
  case None
  then have "ch \<notin> set (map fst digit_table)" by (simp add: digit_value_def map_of_eq_None_iff)
  then show ?thesis using None ctoi_value_in_table by (cases "ctoi_value ch") auto
next
  case (Some v)
  then have "(ch, v) \<in> set digit_table" by (auto simp: digit_value_def dest: map_of_SomeD)
  then have "ctoi_value ch = Some (of_nat v)" "v < 36" using digit_table_values by (auto simp: list_all_iff)
  then show ?thesis using Some by (simp add: unat_of_nat)
qed

lemma ctoi_spec:
  "shl_ctoi ch base = (case digit_value ch of
     None \<Rightarrow> Inl EINVAL | Some v \<Rightarrow> if v < unat base then Inr (of_nat v) else Inl EINVAL)"
  unfolding ctoi_value_spec [of ch, symmetric]
  by (auto simp: shl_ctoi_def word_le_nat_alt split: option.splits)

lemma is_digit_spec: "is_digit ch base = valid_digit base ch"
  by (auto simp: is_digit_def valid_digit_def ctoi_spec split: option.splits)

lemma valid_digit_iff: "valid_digit base ch \<longleftrightarrow> (\<exists>c. shl_ctoi ch base = Inr c)"
  by (auto simp: valid_digit_def ctoi_spec split: option.splits)

lemma digit_less:
  assumes "shl_ctoi ch base = Inr c"
  shows "digit base ch = unat c \<and> c < base"
proof -
  have "ctoi_value ch = Some c" "c < base" using assms by (auto simp: shl_ctoi_def split: option.splits if_splits)
  then show ?thesis by (simp add: digit_def ctoi_value_spec [of ch, symmetric] word_less_nat_alt)
qed

lemma atoi_huge_step:
  assumes "a_r st = ok" "a_huge st" "shl_ctoi ch base = Inr c"
  shows "atoi_abs (atoi_step base c st) (acc_step base ch (unat (a_val2 st)))"
proof -
  have b: "unat (ucast base :: u64) = unat base" and c: "unat (ucast c :: u64) = unat c"
    using unat_bound_le [of 64 base] unat_bound_le [of 64 c] by (simp_all add: unat_ucast_up)
  show ?thesis
    using assms digit_less [OF assms(3)]
    by (auto simp: atoi_step_def atoi_abs_def acc_step_def shl_mult_ull_spec checked_mult_def Let_def
        wrap_add_ge b c unat_word_ariths)
qed

lemma atoi_small_step:
  assumes "a_r st = ok" "\<not> a_huge st" "shl_ctoi ch base = Inr c"
  shows "atoi_abs (atoi_step base c st) (acc_step base ch (unat (a_val1 st)))"
proof (cases "unat (a_val1 st) * unat base + unat c < 2 ^ 32")
  case True
  then have "unat (a_val1 st * base) = unat (a_val1 st) * unat base"
    by (simp add: unat_word_ariths)
  with True show ?thesis
    using assms digit_less [OF assms(3)]
    by (auto simp: atoi_step_def atoi_abs_def acc_step_def shl_mult_u32_spec checked_mult_def Let_def
        wrap_add_ge unat_add_nowrap)
next
  case False
  let ?st = "st\<lparr>a_huge := True, a_val2 := ucast (a_val1 st)\<rparr>"
  have "\<not> (shl_mult_u32 (a_val1 st) base = (v, ok) \<and> v \<le> v + c)" for v
    using False by (auto simp: shl_mult_u32_spec wrap_add_ge dest!: checked_mult_exact)
  then have "atoi_abs (atoi_step base c st) m \<longleftrightarrow> atoi_abs (atoi_step base c ?st) m" for m
    using assms(1,2)
    by (cases "shl_mult_u32 (a_val1 st) base")
      (auto simp: atoi_step_def atoi_abs_def Let_def split: prod.splits option.splits)
  moreover have "unat (ucast (a_val1 st) :: u64) = unat (a_val1 st)"
    using unat_bound_le [of 64 "a_val1 st"] by (simp add: unat_ucast_up)
  ultimately show ?thesis
    using atoi_huge_step [of ?st ch base c] assms by simp
qed

lemma atoi_step_refines:
  assumes "atoi_abs st m" "shl_ctoi ch base = Inr c"
  shows "atoi_abs (atoi_step base c st) (Option.bind m (acc_step base ch))"
  using assms atoi_huge_step [of st ch base c] atoi_small_step [of st ch base c]
  by (cases m; cases "a_huge st") (auto simp: atoi_abs_def atoi_step_def)

lemma foldM_Nil_bind [simp]: "Option.bind m (foldM f []) = m"
  by (cases m) auto

lemma foldM_bind: "Option.bind m (foldM f (x # xs)) = Option.bind (Option.bind m (f x)) (foldM f xs)"
  by (cases m) auto

lemma atoi_loop_refines:
  assumes "len \<le> length str" "atoi_abs st m" "pos \<le> len"
  shows "\<exists>st'. atoi_loop str len base pos st =
            Some (pos + length (digits base (drop pos (take len str))), st') \<and>
          atoi_abs st' (Option.bind m (foldM (acc_step base) (digits base (drop pos (take len str)))))"
  using assms
proof (induction str len base pos st arbitrary: m rule: atoi_loop.induct)
  case (1 str len base pos st)
  show ?case
  proof (cases "pos < len")
    case True
    then have d: "drop pos (take len str) = str ! pos # drop (Suc pos) (take len str)"
      and ch: "char_at str pos = Some (str ! pos)"
      using "1.prems" by (simp_all add: char_at_def Cons_nth_drop_Suc [symmetric])
    show ?thesis
    proof (cases "shl_ctoi (str ! pos) base")
      case (Inl e)
      then show ?thesis
        using True "1.prems" ch d by (subst atoi_loop.simps) (auto simp: digits_def valid_digit_iff)
    next
      case (Inr c)
      then have ds: "digits base (drop pos (take len str)) =
          str ! pos # digits base (drop (Suc pos) (take len str))"
        using d by (simp add: digits_def valid_digit_iff)
      from 1(1) [OF True ch Inr "1.prems"(1) atoi_step_refines [OF "1.prems"(2) Inr]] True
      show ?thesis
        using True ch Inr by (subst atoi_loop.simps) (simp add: ds foldM_bind del: foldM.simps)
    qed
  next
    case False
    then show ?thesis
      using "1.prems" by (subst atoi_loop.simps) (auto simp: digits_def)
  qed
qed

text \<open>
  The prefix, when the base is to be found from the string: the number of bytes skipped and the
  base.
\<close>

definition prefix_base :: "u8 list \<Rightarrow> nat \<times> u32" where
  "prefix_base s =
     (case s of
        a # b # t \<Rightarrow>
          if a = 48 \<and> valid_digit 8 b then (1, 8)
          else if a = 48 \<and> b = 120 \<and> t \<noteq> [] \<and> valid_digit 16 (hd t) then (2, 16)
          else (0, 10)
      | _ \<Rightarrow> (0, 10))"

lemma skip_base_spec:
  assumes "unat len \<le> length str"
  shows "shl__skip_base str len = Some (prefix_base (take (unat len) str))"
proof -
  have gt: "1 < len \<longleftrightarrow> 1 < unat len" "2 < len \<longleftrightarrow> 2 < unat len"
    by (simp_all add: word_less_nat_alt)
  consider "unat len \<le> 1" | "unat len = 2" | n where "unat len = Suc (Suc (Suc n))"
  proof -
    have "unat len \<le> 1 \<or> unat len = 2 \<or> unat len = Suc (Suc (Suc (unat len - 3)))" by arith
    with that show thesis by blast
  qed
  then show ?thesis
  proof cases
    case 1
    then have "take (unat len) str = [] \<or> (\<exists>c. take (unat len) str = [c])"
      by (cases "unat len"; cases str) auto
    with 1 show ?thesis by (auto simp: shl__skip_base_def prefix_base_def is_digit_spec gt)
  next
    case 2
    with assms obtain a b t where "str = a # b # t"
      by (cases str; cases "tl str") auto
    with 2 show ?thesis
      by (auto simp: shl__skip_base_def prefix_base_def is_digit_spec gt char_at_def)
  next
    case 3
    with assms obtain a b c t where "str = a # b # c # t"
      by (cases str; cases "tl str"; cases "tl (tl str)") auto
    with 3 show ?thesis
      by (auto simp: shl__skip_base_def prefix_base_def is_digit_spec gt char_at_def)
  qed
qed

lemma prefix_base_bounds:
  "prefix_base s = (k, b) \<Longrightarrow> k \<le> length s \<and> b \<in> {8, 10, 16}"
  by (auto simp: prefix_base_def split: list.splits if_splits)

text \<open>The specification of the whole parser on a valid base.\<close>

definition atoi_result :: "nat \<Rightarrow> u32 \<Rightarrow> u8 list \<Rightarrow> unit res \<times> nat \<times> u64" where
  "atoi_result skip base s =
     (case foldM (acc_step base) (digits base s) 0 of
        None \<Rightarrow> (Inl ERANGE, skip + length (digits base s), - 1)
      | Some v \<Rightarrow> (ok, skip + length (digits base s), of_nat v))"

lemma atoi_ulln_result:
  assumes "unat len \<le> length str" "base \<le> 36"
  shows "shl_atoi_ulln str len base =
     (let s = take (unat len) str; (k, b) = (if base = 0 then prefix_base s else (0, base))
      in Some (atoi_result k b (drop k s)))"
proof -
  let ?s = "take (unat len) str"
  obtain k b where kb: "(if base = 0 then prefix_base ?s else (0, base)) = (k, b)" by fastforce
  then have k: "k \<le> unat len"
    using prefix_base_bounds [of ?s k b] assms(1) by (auto split: if_splits)
  let ?st0 = "\<lparr>a_huge = False, a_val1 = 0, a_val2 = 0, a_r = ok\<rparr>"
  have "atoi_abs ?st0 (Some 0)" by (simp add: atoi_abs_def)
  moreover have "unat len - k \<le> length (drop k str)" using assms(1) by simp
  ultimately obtain st where loop: "atoi_loop (drop k str) (unat len - k) b 0 ?st0 =
        Some (length (digits b (drop k ?s)), st)"
      and abs: "atoi_abs st (foldM (acc_step b) (digits b (drop k ?s)) 0)"
    using atoi_loop_refines [of "unat len - k" "drop k str" ?st0 "Some 0" 0 b] by (auto simp: drop_take)
  have "(if base = 0 then shl__skip_base str len else Some (0, base)) = Some (k, b)"
    using kb skip_base_spec [OF assms(1)] by (auto split: if_splits)
  then show ?thesis
    using kb loop abs assms(2)
    by (auto simp: shl_atoi_ulln_def atoi_result_def Let_def atoi_abs_def split: option.splits)
qed

abbreviation horner :: "u32 \<Rightarrow> nat \<Rightarrow> u8 list \<Rightarrow> nat" where
  "horner base \<equiv> foldl (\<lambda>v ch. v * unat base + digit base ch)"

lemma horner_ge: "base \<noteq> 0 \<Longrightarrow> v \<le> horner base v ds"
proof (induction ds arbitrary: v)
  case (Cons ch ds)
  then have "v \<le> v * unat base + digit base ch"
    by (cases "unat base") (auto simp: unat_eq_zero)
  with Cons show ?case by (fastforce intro: order_trans)
qed simp

lemma acc_exact:
  "base \<noteq> 0 \<Longrightarrow> horner base v ds < 2 ^ 64 \<Longrightarrow> foldM (acc_step base) ds v = Some (horner base v ds)"
proof (induction ds arbitrary: v)
  case (Cons ch ds)
  then have "v * unat base + digit base ch < 2 ^ 64"
    using horner_ge [of base "v * unat base + digit base ch" ds] by simp
  with Cons show ?case by (simp add: acc_step_def)
qed simp

text \<open>A base that divides \<open>2 ^ 64\<close> leaves room for a digit after every multiplication.\<close>

lemma acc_power2:
  assumes "unat base dvd 2 ^ 64" "\<forall>ch \<in> set ds. digit base ch < unat base"
    "v < 2 ^ 64" "foldM (acc_step base) ds v = Some w"
  shows "w = horner base v ds \<and> w < 2 ^ 64"
  using assms(2-)
proof (induction ds arbitrary: v)
  case (Cons ch ds)
  then have lt: "v * unat base < 2 ^ 64" by (auto simp: acc_step_def split: if_splits)
  obtain q where q: "(2::nat) ^ 64 = unat base * q" using assms(1) by (elim dvdE)
  with lt have "v * unat base < q * unat base" by (simp only: mult.commute)
  then have "v < q" by (rule mult_less_cancel2 [THEN iffD1, THEN conjunct2])
  then have "Suc v * unat base \<le> 2 ^ 64" unfolding q by (metis Suc_leI mult.commute mult_le_mono2)
  with Cons.prems have "v * unat base + digit base ch < 2 ^ 64" by auto
  with Cons show ?case by (auto simp: acc_step_def)
qed simp

lemma digits_digit:
  assumes "ch \<in> set (digits base s)"
  shows "digit base ch < unat base"
proof -
  have "valid_digit base ch" using assms by (auto simp: digits_def dest: set_takeWhileD)
  then obtain c where "shl_ctoi ch base = Inr c" by (auto simp: valid_digit_iff)
  then show ?thesis using digit_less by (auto simp: word_less_nat_alt)
qed

lemma prefix_base_nonzero:
  "(k, b) = (if base = 0 then prefix_base s else (0, base)) \<Longrightarrow> b \<noteq> 0"
  using prefix_base_bounds [of s k b] by (auto split: if_splits)

lemma atoi_ulln_skip:
  assumes "unat len \<le> length str" "base \<le> 36"
    "(k, b) = (if base = 0 then prefix_base (take (unat len) str) else (0, base))"
  shows "shl_atoi_ulln str len base = Some (atoi_result k b (drop k (take (unat len) str)))"
  unfolding atoi_ulln_result [OF assms(1,2)] Let_def assms(3) [symmetric] by simp

lemma atoi_ulln_exact:
  assumes "unat len \<le> length str" "base \<le> 36"
    "(k, b) = (if base = 0 then prefix_base (take (unat len) str) else (0, base))"
    "ds = digits b (drop k (take (unat len) str))" "number b ds < 2 ^ 64"
  shows "shl_atoi_ulln str len base = Some (ok, k + length ds, of_nat (number b ds))"
  unfolding atoi_ulln_skip [OF assms(1-3)]
  using acc_exact [OF prefix_base_nonzero [OF assms(3)], of 0 ds] assms(4,5)
  by (simp add: atoi_result_def number_def)

subsection \<open>Properties\<close>

text \<open>
  C15. A number that fits 64 bits is parsed exactly: the parser reads the longest run of digits (0-9 and the letters of either
  case, with the values of the table) after the prefix (if the base was to be detected), returns 0, leaves \<^verbatim>\<open>*next\<close> behind the last digit and
  \<^verbatim>\<open>*out\<close> holds the value; the switch from the 32-bit to the 64-bit accumulator is invisible.
\<close>

theorem atoi_reads_number:
  assumes "unat len \<le> length str" "base \<le> 36"
    "(k, b) = (if base = 0 then prefix_base (take (unat len) str) else (0, base))"
    "ds = digits b (drop k (take (unat len) str))" "number b ds < 2 ^ 64"
  shows "shl_atoi_ulln str len base = Some (ok, k + length ds, of_nat (number b ds))"
  using assms by (rule atoi_ulln_exact)

theorem atoi_reads_number_witness:
  "shl_atoi_ulln [48, 120, 49, 70, 58] 5 0 = Some (ok, 4, 31)"
proof -
  have "number 16 [49, 70] = 31" by code_simp
  moreover have "(2, 16) = (if (0 :: u32) = 0 then prefix_base (take (unat (5 :: size_t)) [48, 120, 49, 70, 58]) else (0, 0))"
    "digits 16 [49, 70, 58] = [49, 70]" by code_simp+
  ultimately show ?thesis
    using atoi_reads_number [of 5 "[48, 120, 49, 70, 58]" 0 2 16 "[49, 70]"] by simp
qed

text \<open>
  C16. In a power-of-two base a number that does not fit 64 bits is always reported: the result is
  \<^verbatim>\<open>-ERANGE\<close> with \<^verbatim>\<open>*out\<close> saturated to \<^verbatim>\<open>ULLONG_MAX\<close>, and parsing goes on, so \<^verbatim>\<open>*next\<close> is still
  behind the last digit.
\<close>

theorem atoi_power2_overflow:
  assumes "unat len \<le> length str" "base \<le> 36"
    "(k, b) = (if base = 0 then prefix_base (take (unat len) str) else (0, base))"
    "ds = digits b (drop k (take (unat len) str))" "2 ^ 64 \<le> number b ds" "unat b dvd 2 ^ 64"
  shows "shl_atoi_ulln str len base = Some (Inl ERANGE, k + length ds, - 1)"
proof (cases "foldM (acc_step b) ds 0")
  case None
  then show ?thesis
    unfolding atoi_ulln_skip [OF assms(1-3)] using assms(4) by (simp add: atoi_result_def)
next
  case (Some w)
  then have "number b ds < 2 ^ 64"
    using acc_power2 [OF assms(6) _ _ Some] digits_digit assms(4) by (auto simp: number_def)
  with assms(5) show ?thesis by simp
qed

theorem atoi_power2_overflow_witness:
  "shl_atoi_ulln ([102, 102, 102, 102, 102, 102, 102, 102, 102, 102, 102, 102, 102, 102, 102, 102, 102] @ [120]) 18 16 =
     Some (Inl ERANGE, 17, - 1)"
proof -
  let ?ds = "[102, 102, 102, 102, 102, 102, 102, 102, 102, 102, 102, 102, 102, 102, 102, 102, 102]"
  have ds: "digits 16 (?ds @ [120]) = ?ds" "digit 16 102 = 15" by code_simp+
  moreover have "(2::nat) ^ 64 \<le> number 16 ?ds" by (simp add: number_def ds(2))
  moreover have "(16::nat) dvd 2 ^ 64" using le_imp_power_dvd [of 4 64 "2 :: nat"] by simp
  ultimately show ?thesis
    using atoi_power2_overflow [of 18 "?ds @ [120]" 16 0 16 ?ds] by (simp add: word_le_nat_alt)
qed

text \<open>
  In base 10 the overflow of the last addition is missed: for \<open>2 ^ 64\<close> the parser returns success
  and the value without the last digit.
\<close>

theorem atoi_decimal_overflow_missed:
  "shl_atoi_ull [49, 56, 52, 52, 54, 55, 52, 52, 48, 55, 51, 55, 48, 57, 53, 53, 49, 54, 49, 54] 10 =
     Some (ok, 20, 18446744073709551610)"
proof -
  have "digits 10 [49, 56, 52, 52, 54, 55, 52, 52, 48, 55, 51, 55, 48, 57, 53, 53, 49, 54, 49, 54] =
      [49, 56, 52, 52, 54, 55, 52, 52, 48, 55, 51, 55, 48, 57, 53, 53, 49, 54, 49, 54]"
    "map (digit 10) [48, 49, 51, 52, 53, 54, 55, 56, 57] = [0, 1, 3, 4, 5, 6, 7, 8, 9]" by code_simp+
  then show ?thesis
    by (simp add: shl_atoi_ull_def atoi_ulln_result atoi_result_def acc_step_def word_le_nat_alt)
qed

text \<open>
  The \<^verbatim>\<open>unsigned int\<close> variant returns the number when it fits 32 bits and saturates to
  \<^verbatim>\<open>UINT_MAX\<close> with \<^verbatim>\<open>-ERANGE\<close> when it does not.
\<close>

theorem atoi_un_clamps:
  assumes "unat len \<le> length str" "base \<le> 36"
    "(k, b) = (if base = 0 then prefix_base (take (unat len) str) else (0, base))"
    "ds = digits b (drop k (take (unat len) str))" "number b ds < 2 ^ 64"
  shows "shl_atoi_un str len base =
     Some (if number b ds < 2 ^ 32 then ok else Inl ERANGE, k + length ds,
           of_nat (min (number b ds) (2 ^ 32 - 1)))"
proof -
  have u: "unat (of_nat (number b ds) :: u64) = number b ds"
    using assms(5) by (simp add: unat_of_nat)
  have m: "unat (ucast (- 1 :: u32) :: u64) = 2 ^ 32 - 1"
    by (simp add: unat_ucast_mod unat_minus_one)
  have "of_nat (number b ds) > (ucast (- 1 :: u32) :: u64) \<longleftrightarrow> \<not> number b ds < 2 ^ 32"
    by (auto simp: word_less_nat_alt u m)
  moreover have "ucast (min (of_nat (number b ds)) (ucast (- 1 :: u32) :: u64)) =
      (of_nat (min (number b ds) (2 ^ 32 - 1)) :: u32)"
  proof (rule word_of_unat_eqI)
    have "unat (min (of_nat (number b ds)) (ucast (- 1 :: u32) :: u64)) = min (number b ds) (2 ^ 32 - 1)"
      by (simp only: unat_min u m)
    then show "unat (ucast (min (of_nat (number b ds)) (ucast (- 1 :: u32) :: u64)) :: u32) =
        unat (of_nat (min (number b ds) (2 ^ 32 - 1)) :: u32)"
      by (simp only: unat_ucast_mod unat_of_nat)
  qed
  ultimately show ?thesis
    by (simp add: shl_atoi_un_def atoi_ulln_exact [OF assms])
qed

theorem atoi_un_clamps_witness:
  "shl_atoi_un [57, 57, 57, 57, 57, 57, 57, 57, 57, 57, 59] 11 10 = Some (Inl ERANGE, 10, - 1)"
proof -
  let ?ds = "[57, 57, 57, 57, 57, 57, 57, 57, 57, 57]"
  have ds: "digits 10 (?ds @ [59]) = ?ds" "digit 10 57 = 9" by code_simp+
  moreover have "number 10 ?ds = 9999999999" by (simp add: number_def ds(2))
  ultimately show ?thesis
    using atoi_un_clamps [of 11 "?ds @ [59]" 10 0 10 ?ds] by (simp add: word_le_nat_alt)
qed

end
