(* ===== verification/Shl_Strv.thy ===== *)
theory Shl_Strv
  imports Shl_Alloc
begin

text \<open>
  Null-terminated vectors of strings (\<^verbatim>\<open>char **strv\<close>) as \<^verbatim>\<open>src/shl_util.c\<close> builds and frees them, and
  the contract its two tokenizers rest on. The array is a list of pointer slots: a slot is
  uninitialised, null, or the string it owns (every string is a fresh block, so there is no
  aliasing). The size in bytes and the number of entries are kept beside it at 64 bits, and the array
  grows through \<^const>\<open>shl_greedy_realloc0\<close>.
\<close>

datatype slot = Junk | Null | Str block

record strv =
  sv_slots :: "slot list"
  sv_num :: size_t
  sv_size :: size_t

text \<open>
  The array as the allocator sees it: eight bytes for each slot. The address of the object in slot \<open>i\<close> is represented by the
  number \<open>i + 1\<close>; whatever the allocator does to the bytes decides which slot ends up where, and bytes that are zero are a null
  pointer.
\<close>

primrec le_bytes :: "nat \<Rightarrow> nat \<Rightarrow> block" where
  "le_bytes 0 v = []"
| "le_bytes (Suc k) v = of_nat v # le_bytes k (v div 256)"

primrec of_le :: "block \<Rightarrow> nat" where
  "of_le [] = 0"
| "of_le (b # bs) = unat b + 256 * of_le bs"

definition slots_mem :: "slot list \<Rightarrow> block" where
  "slots_mem slots = concat (map (\<lambda>i. le_bytes 8 (Suc i)) [0..<length slots])"

definition mem_slots :: "slot list \<Rightarrow> block \<Rightarrow> slot list" where
  "mem_slots slots mem =
     map (\<lambda>j. let a = of_le (take 8 (drop (j * 8) mem)) in if a = 0 then Null else slots ! (a - 1)) [0..<length mem div 8]"

text \<open>\<^verbatim>\<open>shl_greedy_realloc0\<close> on the array.\<close>

definition strv_grow :: "alloc_env \<Rightarrow> strv \<Rightarrow> size_t \<Rightarrow> (strv \<times> unit res) option" where
  "strv_grow env sv need = do {
     (mem, sz, p) \<leftarrow> shl_greedy_realloc0 env (Some (slots_mem (sv_slots sv))) (sv_size sv) need;
     case p of
       None \<Rightarrow> Some (sv, Inl ENOMEM)
     | Some _ \<Rightarrow> Some (sv\<lparr>sv_slots := mem_slots (sv_slots sv) (blk mem), sv_size := sz\<rparr>, ok) }"

text \<open>\<^verbatim>\<open>strv[strv_num] = p\<close>\<close>

definition strv_set :: "strv \<Rightarrow> slot \<Rightarrow> strv option" where
  "strv_set sv p =
     (if unat (sv_num sv) < length (sv_slots sv)
      then Some (sv\<lparr>sv_slots := (sv_slots sv)[unat (sv_num sv) := p]\<rparr>) else None)"

definition free_slot :: "slot \<Rightarrow> unit option" where
  "free_slot p = (case p of Junk \<Rightarrow> None | _ \<Rightarrow> Some ())"

text \<open>The error exit of the tokenizers: the entries are freed, then the array.\<close>

definition strv_abort :: "strv \<Rightarrow> unit option" where
  "strv_abort sv =
     foldM (\<lambda>i _. if i < length (sv_slots sv) then free_slot (sv_slots sv ! i) else None)
       [0..<unat (sv_num sv)] ()"

text \<open>
  \<^verbatim>\<open>shl_strv_free\<close> returns the strings it freed. The index is an \<^verbatim>\<open>unsigned int\<close>: when it wraps, the
  first entry is freed a second time.
\<close>

function strv_free_loop :: "slot list \<Rightarrow> nat \<Rightarrow> block list option" where
  "strv_free_loop strv i =
     (if i < length strv then
        case strv ! i of
          Junk \<Rightarrow> None
        | Null \<Rightarrow> Some []
        | Str s \<Rightarrow> if Suc i = 2 ^ 32 then None else do { rest \<leftarrow> strv_free_loop strv (Suc i); Some (s # rest) }
      else None)"
  by pat_completeness auto
termination
  by (relation "measure (\<lambda>(strv, i). length strv - i)") auto

declare strv_free_loop.simps [simp del]

definition shl_strv_free :: "slot list option \<Rightarrow> block list option" where
  "shl_strv_free strv = (case strv of None \<Rightarrow> Some [] | Some strv \<Rightarrow> strv_free_loop strv 0)"

definition shl_strv_freep :: "slot list option \<Rightarrow> block list option" where
  "shl_strv_freep strv = shl_strv_free strv"

subsection \<open>Loops that can leave with an error\<close>

text \<open>A \<^verbatim>\<open>for\<close> loop whose body may jump to the error exit.\<close>

primrec loop_res :: "('a \<Rightarrow> 's \<Rightarrow> ('s \<times> unit res) option) \<Rightarrow> 'a list \<Rightarrow> 's \<Rightarrow> ('s \<times> unit res) option" where
  "loop_res f [] s = Some (s, ok)"
| "loop_res f (x # xs) s = do { (s, r) \<leftarrow> f x s; if r = ok then loop_res f xs s else Some (s, r) }"

lemma loop_res_snoc:
  "loop_res f (xs @ [x]) s = do { (s, r) \<leftarrow> loop_res f xs s; if r = ok then f x s else Some (s, r) }"
  by (induction xs arbitrary: s) (auto split: bind_splits)

text \<open>The end of both tokenizers: the trailing token, the range check, the terminator.\<close>

definition strv_finish ::
  "(strv \<Rightarrow> nat \<Rightarrow> nat \<Rightarrow> (strv \<times> unit res) option) \<Rightarrow> nat \<Rightarrow> nat \<Rightarrow> strv \<Rightarrow> unit res \<Rightarrow>
   (errno + u32 \<times> slot list) option" where
  "strv_finish push i pos sv r = do {
     (sv, r) \<leftarrow> (if r = ok \<and> i > 0 \<and> pos \<noteq> i then push sv pos (i - pos) else Some (sv, r));
     let r = (if r = ok \<and> sint (ucast (sv_num sv) :: u32) < sint (sv_num sv) then Inl ENOMEM else r);
     case r of
       Inl e \<Rightarrow> do { strv_abort sv; Some (Inl e) }
     | Inr _ \<Rightarrow> do { sv \<leftarrow> strv_set sv Null; Some (Inr (ucast (sv_num sv), sv_slots sv)) } }"

subsection \<open>What a vector holds\<close>

text \<open>A block holds a C string when it starts with the bytes of the string and a NUL.\<close>

definition holds_str :: "slot \<Rightarrow> u8 list \<Rightarrow> bool" where
  "holds_str p t \<longleftrightarrow> (\<exists>rest. p = Str (t @ 0 # rest))"

definition strv_inv :: "strv \<Rightarrow> u8 list list \<Rightarrow> bool" where
  "strv_inv sv toks \<longleftrightarrow>
     8 * length (sv_slots sv) = unat (sv_size sv) \<and> unat (sv_num sv) = length toks \<and>
     length toks < length (sv_slots sv) \<and> list_all2 holds_str (take (length toks) (sv_slots sv)) toks"

text \<open>The vector the tokenizers return: the tokens, then a null pointer.\<close>

definition strv_ok :: "slot list \<Rightarrow> u8 list list \<Rightarrow> bool" where
  "strv_ok strv toks \<longleftrightarrow>
     length toks < length strv \<and> strv ! length toks = Null \<and>
     list_all2 holds_str (take (length toks) strv) toks"

text \<open>No request for up to \<open>n\<close> bytes fails: the tokenizers do not check \<^verbatim>\<open>malloc\<close> for their strings.\<close>

definition mallocs_ok :: "alloc_env \<Rightarrow> nat \<Rightarrow> bool" where
  "mallocs_ok env n \<longleftrightarrow> list_all (\<lambda>k. \<not> alloc_fails env (of_nat k)) [0..<Suc n]"

lemma mallocs_okD: "mallocs_ok env n \<Longrightarrow> k \<le> n \<Longrightarrow> \<not> alloc_fails env (of_nat k)"
  by (auto simp: mallocs_ok_def list_all_iff le_less)

lemma mallocs_ok_mono: "mallocs_ok env n \<Longrightarrow> m \<le> n \<Longrightarrow> mallocs_ok env m"
  by (auto simp: mallocs_ok_def list_all_iff Ball_def simp del: upt_Suc)

lemma greedy_realloc0_size:
  assumes "length (blk mem) = unat sz" "unat need \<le> 2 ^ 63" "shl_greedy_realloc0 env mem sz need = Some (mem', sz', p)"
  shows "sz' = sz \<or> (\<exists>k \<in> {6..63}. sz' = 2 ^ k)"
proof (cases rule: greedy_realloc_cases [OF assms(2), of sz env mem, case_names enough fail grown])
  case enough
  with assms(3) show ?thesis
    by (cases mem) (auto simp: shl_greedy_realloc0_def)
next
  case fail
  with assms(3) show ?thesis by (auto simp: shl_greedy_realloc0_def)
next
  case (grown p k)
  with assms(3) show ?thesis
    by (auto simp: shl_greedy_realloc0_def split: bind_splits if_splits)
qed

lemma length_le_bytes [simp]: "length (le_bytes k v) = k"
  by (induction k arbitrary: v) auto

lemma of_le_le_bytes: "of_le (le_bytes k v) = v mod 256 ^ k"
proof (induction k arbitrary: v)
  case (Suc k)
  have "unat (of_nat v :: u8) = v mod 256" by (simp add: unat_of_nat)
  then show ?case using Suc by (simp add: mod_mult2_eq)
qed simp

lemma of_le_zero [simp]: "of_le (replicate n 0) = 0"
  by (induction n) auto

lemma length_concat_words: "length (concat (map (\<lambda>i. le_bytes 8 (f i)) is)) = 8 * length is"
  by (induction "is") auto

lemma nth_word:
  "j < length is \<Longrightarrow> take 8 (drop (j * 8) (concat (map (\<lambda>i. le_bytes 8 (f i)) is) @ rest)) = le_bytes 8 (f (is ! j))"
proof (induction "is" arbitrary: j)
  case (Cons i "is")
  then show ?case by (cases j) (simp_all add: drop_append)
qed simp

lemma length_slots_mem [simp]: "length (slots_mem slots) = 8 * length slots"
  by (simp add: slots_mem_def length_concat_words)

text \<open>Memory that is kept and extended by zeros holds the old slots and null pointers.\<close>

lemma mem_slots_append:
  assumes "length slots < 2 ^ 63"
  shows "mem_slots slots (slots_mem slots @ replicate n 0) = slots @ replicate (n div 8) Null"
proof (rule nth_equalityI)
  show len: "length (mem_slots slots (slots_mem slots @ replicate n 0)) = length (slots @ replicate (n div 8) Null)"
    by (simp add: mem_slots_def)
  fix j assume "j < length (mem_slots slots (slots_mem slots @ replicate n 0))"
  then have j: "j < length slots + n div 8" using len by simp
  then have at: "mem_slots slots (slots_mem slots @ replicate n 0) ! j =
      (let a = of_le (take 8 (drop (j * 8) (slots_mem slots @ replicate n 0))) in if a = 0 then Null else slots ! (a - 1))"
    by (simp add: mem_slots_def)
  show "mem_slots slots (slots_mem slots @ replicate n 0) ! j = (slots @ replicate (n div 8) Null) ! j"
  proof (cases "j < length slots")
    case True
    then have "take 8 (drop (j * 8) (slots_mem slots @ replicate n 0)) = le_bytes 8 (Suc j)"
      using nth_word [of j "[0..<length slots]" Suc "replicate n 0"] by (simp add: slots_mem_def del: take_append drop_append)
    moreover have "Suc j mod 256 ^ 8 = Suc j" using True assms by simp
    ultimately show ?thesis using True unfolding at by (simp add: of_le_le_bytes nth_append)
  next
    case False
    then have "take 8 (drop (j * 8) (slots_mem slots @ replicate n 0)) = replicate (min 8 (n - (j * 8 - 8 * length slots))) 0"
      by (simp add: drop_append take_replicate min.commute)
    then show ?thesis using False j unfolding at by (simp add: nth_append)
  qed
qed

lemma strv_grow_correct:
  assumes inv: "strv_inv sv toks" and n: "length toks < 2 ^ 59"
  shows "\<exists>sv' r. strv_grow env sv ((sv_num sv + 2) * 8) = Some (sv', r) \<and>
     (r = Inl ENOMEM \<and> sv' = sv \<and> (\<exists>z. alloc_fails env z) \<or>
      r = ok \<and> strv_inv sv' toks \<and> Suc (length toks) < length (sv_slots sv'))"
proof -
  let ?need = "(sv_num sv + 2) * 8" and ?mem = "Some (slots_mem (sv_slots sv)) :: block option"
  have need: "unat ?need = (length toks + 2) * 8"
    using inv n by (simp add: strv_inv_def unat_word_ariths)
  then have le: "unat ?need \<le> 2 ^ 63" using n by simp
  have len: "length (blk ?mem) = unat (sv_size sv)" using inv by (simp add: strv_inv_def)
  from greedy_realloc0_correct [OF len le, of env] obtain mem' sz p where
    g: "shl_greedy_realloc0 env ?mem (sv_size sv) ?need = Some (mem', sz, p)" "sv_size sv \<le> sz"
      "?need \<le> sz \<and> p = mem' \<and> blk mem' = blk ?mem @ replicate (unat sz - unat (sv_size sv)) 0 \<or>
       sv_size sv < ?need \<and> p = None" by blast
  from g(3) show ?thesis
  proof
    assume r: "?need \<le> sz \<and> p = mem' \<and> blk mem' = blk ?mem @ replicate (unat sz - unat (sv_size sv)) 0"
    have pos: "0 < unat (sv_size sv)" using inv by (auto simp: strv_inv_def)
    then have "slots_mem (sv_slots sv) \<noteq> []"
      using inv length_slots_mem [of "sv_slots sv"] by (auto simp: strv_inv_def simp del: length_slots_mem)
    with r obtain b where p: "p = Some b"
      by (cases mem') auto
    have "8 dvd unat sz"
      using greedy_realloc0_size [OF len le g(1)]
    proof
      assume "sz = sv_size sv"
      then show ?thesis using inv by (metis dvd_triv_left strv_inv_def)
    next
      assume "\<exists>k \<in> {6..63}. sz = 2 ^ k"
      then obtain k where k: "k \<in> {6..63}" "sz = 2 ^ k" ..
      then have "unat sz = 2 ^ k" by (simp add: unat_exp)
      moreover have "(2::nat) ^ 3 dvd 2 ^ k" using k(1) by (intro le_imp_power_dvd) auto
      ultimately show ?thesis by simp
    qed
    then have d: "8 * (unat sz div 8) = unat sz" by simp
    have "(length toks + 2) * 8 \<le> unat sz" using r need by (simp add: word_le_nat_alt)
    moreover have "unat (sv_size sv) \<le> unat sz" using g(2) by (simp add: word_le_nat_alt)
    moreover have "mem_slots (sv_slots sv) (blk mem') = sv_slots sv @ replicate (unat sz div 8 - length (sv_slots sv)) Null"
    proof -
      have "8 * length (sv_slots sv) < 2 ^ 64"
        using inv unat_lt_64 [of "sv_size sv"] unfolding strv_inv_def by presburger
      then have "length (sv_slots sv) < 2 ^ 63" by simp
      moreover have "(unat sz - unat (sv_size sv)) div 8 = unat sz div 8 - length (sv_slots sv)"
        using inv d by (auto simp: strv_inv_def)
      ultimately show ?thesis using r mem_slots_append [of "sv_slots sv"] by simp
    qed
    ultimately show ?thesis
      using inv g(1) p d by (auto simp: strv_grow_def strv_inv_def)
  next
    assume "sv_size sv < ?need \<and> p = None"
    moreover from this have "\<exists>z. alloc_fails env z"
      using greedy_realloc0_fails [OF len le, of env] g(1) by simp
    ultimately show ?thesis using g(1) by (simp add: strv_grow_def)
  qed
qed

text \<open>
  Storing a string: the slot behind the last entry takes it. Freeing: the error exit and
  \<^verbatim>\<open>shl_strv_free\<close> only meet slots that hold strings.
\<close>

lemma strv_set_str:
  assumes "strv_inv sv toks" "Suc (length toks) < length (sv_slots sv)" "holds_str p t" "length toks < 2 ^ 59"
  shows "\<exists>sv'. strv_set sv p = Some sv' \<and> strv_inv (sv'\<lparr>sv_num := sv_num sv' + 1\<rparr>) (toks @ [t])"
proof -
  have "unat (sv_num sv + 1) = Suc (length toks)"
    using assms(1,4) by (simp add: strv_inv_def unat_word_ariths)
  moreover have "list_all2 holds_str (take (length toks) (sv_slots sv) @ [p]) (toks @ [t])"
    using assms(1,3) by (auto simp: strv_inv_def intro!: list_all2_appendI)
  ultimately show ?thesis
    using assms(1,2) by (auto simp: strv_set_def strv_inv_def take_Suc_conv_app_nth)
qed

lemma strv_abort_Some:
  assumes "strv_inv sv toks"
  shows "strv_abort sv = Some ()"
proof -
  let ?f = "\<lambda>i (_::unit). if i < length (sv_slots sv) then free_slot (sv_slots sv ! i) else None"
  have str: "holds_str (sv_slots sv ! i) (toks ! i)" if "i < length toks" for i
    using assms that list_all2_nthD2 [of holds_str "take (length toks) (sv_slots sv)" toks i]
    by (simp add: strv_inv_def)
  have "\<exists>s. foldM ?f [0..<length toks] () = Some s \<and> True"
  proof (rule foldM_upt_inv [where P = "\<lambda>_ _. True"])
    fix i and s :: unit assume i: "i < length toks"
    then show "\<exists>s'. ?f i s = Some s' \<and> True"
      using str [OF i] assms by (auto simp: strv_inv_def holds_str_def free_slot_def)
  qed simp
  then show ?thesis
    using assms by (auto simp: strv_abort_def strv_inv_def)
qed

lemma strv_free_loop_ok:
  assumes "strv_ok strv toks" "length toks < 2 ^ 32" "i \<le> length toks"
  shows "\<exists>bs. strv_free_loop strv i = Some bs \<and>
    map Str bs = take (length toks - i) (drop i strv)"
  using assms(3)
proof (induction rule: inc_induct)
  case base
  then show ?case using assms(1) by (subst strv_free_loop.simps) (simp add: strv_ok_def)
next
  case (step n)
  then obtain bs where bs: "strv_free_loop strv (Suc n) = Some bs"
    "map Str bs = take (length toks - Suc n) (drop (Suc n) strv)" by blast
  have n: "n < length strv" using step assms(1) by (simp add: strv_ok_def)
  have "holds_str (strv ! n) (toks ! n)"
    using assms(1) step list_all2_nthD2 [of holds_str "take (length toks) strv" toks n] by (simp add: strv_ok_def)
  then obtain b where b: "strv ! n = Str b" by (auto simp: holds_str_def)
  have "Suc n \<noteq> 2 ^ 32" using step assms(2) by linarith
  then have "strv_free_loop strv n = Some (b # bs)"
    using n b bs(1) by (subst strv_free_loop.simps) simp
  moreover have "take (length toks - n) (drop n strv) = Str b # take (length toks - Suc n) (drop (Suc n) strv)"
    using n b step by (simp add: Cons_nth_drop_Suc [symmetric] flip: Suc_diff_Suc)
  ultimately show ?case using bs(2) by simp
qed

text \<open>The end of a tokenizer, once the loop left with \<open>r\<close>.\<close>

lemma int_trunc_less:
  assumes "unat n < 2 ^ 63"
  shows "sint (ucast (n :: size_t) :: u32) < sint n \<longleftrightarrow> 2 ^ 31 \<le> unat n"
proof -
  have s: "sint n = int (unat n)" using assms by (intro sint_eq_unat) simp
  have u: "unat (ucast n :: u32) = unat n mod 2 ^ 32" by (simp add: unat_ucast_mod)
  show ?thesis
  proof (cases "unat n < 2 ^ 31")
    case True
    then have "sint (ucast n :: u32) = int (unat (ucast n :: u32))"
      using u by (intro sint_eq_unat) simp
    with True s u show ?thesis by simp
  next
    case False
    have "sint (ucast n :: u32) < 2 ^ 31" using sint_lt [of "ucast n :: u32"] by simp
    moreover have "int (2 ^ 31) \<le> int (unat n)" using False by (simp only: of_nat_le_iff not_less)
    ultimately have "sint (ucast n :: u32) < sint n" unfolding s by (simp only: of_nat_power of_nat_numeral)
    with False show ?thesis by (simp only: not_less)
  qed
qed

lemma strv_set_null:
  assumes "strv_inv sv toks"
  shows "\<exists>sv'. strv_set sv Null = Some sv' \<and> sv_num sv' = sv_num sv \<and> strv_ok (sv_slots sv') toks"
  using assms by (auto simp: strv_set_def strv_inv_def strv_ok_def)

subsection \<open>The contract of a tokenizer\<close>

text \<open>
  A tokenizer runs a scanner over the bytes: from its state and a byte the scanner tells the next
  state and whether the byte ends a token. The reference definition collects the non-empty tokens.
\<close>

primrec scan_tokens :: "('q \<Rightarrow> u8 \<Rightarrow> 'q \<times> bool) \<Rightarrow> 'q \<Rightarrow> u8 list \<Rightarrow> u8 list \<Rightarrow> u8 list list" where
  "scan_tokens f q cur [] = (if cur = [] then [] else [cur])"
| "scan_tokens f q cur (c # cs) =
     (let (q', sep) = f q c
      in if sep then (if cur = [] then [] else [cur]) @ scan_tokens f q' [] cs
         else scan_tokens f q' (cur @ [c]) cs)"

text \<open>
  What both tokenizers of the library share: an operation that appends a token of the string to the
  vector (after decoding it), and a loop body that feeds the scanner and appends at separators.
\<close>

locale tokenizer =
  fixes push :: "alloc_env \<Rightarrow> u8 list \<Rightarrow> strv \<Rightarrow> nat \<Rightarrow> nat \<Rightarrow> (strv \<times> unit res) option"
    and scan :: "'p \<Rightarrow> 'q \<Rightarrow> u8 \<Rightarrow> 'q \<times> bool"
    and body :: "alloc_env \<Rightarrow> 'p \<Rightarrow> u8 list \<Rightarrow> nat \<Rightarrow> 'q \<times> nat \<times> strv \<Rightarrow> (('q \<times> nat \<times> strv) \<times> unit res) option"
    and decode :: "u8 list \<Rightarrow> u8 list"
  assumes push:
      "strv_inv sv toks \<Longrightarrow> length toks < 2 ^ 59 \<Longrightarrow> mallocs_ok env (Suc n) \<Longrightarrow>
       off + n \<le> length str \<Longrightarrow> n < 2 ^ 59 \<Longrightarrow>
       \<exists>sv' r. push env str sv off n = Some (sv', r) \<and>
         (r = Inl ENOMEM \<and> sv' = sv \<and> (\<exists>z. alloc_fails env z) \<or>
          r = ok \<and> strv_inv sv' (toks @ [decode (take n (drop off str))]))"
    and body:
      "i < length str \<Longrightarrow> body env p str i (q, pos, sv) =
         (case scan p q (str ! i) of (q', sep) \<Rightarrow>
            if sep \<and> pos \<noteq> i then do {
              (sv, r) \<leftarrow> push env str sv pos (i - pos);
              Some ((q', if r = ok then Suc i else pos, sv), r) }
            else Some ((q', if sep then Suc i else pos, sv), ok))"
begin

text \<open>The loop invariant: the tokens still to come complete the ones already in the vector.\<close>

definition tok_inv :: "'p \<Rightarrow> 'q \<Rightarrow> u8 list \<Rightarrow> nat \<Rightarrow> 'q \<times> nat \<times> strv \<Rightarrow> bool" where
  "tok_inv p q0 s i st \<longleftrightarrow>
     (case st of (q, pos, sv) \<Rightarrow>
        pos \<le> i \<and> (\<exists>prev. strv_inv sv (map decode prev) \<and> length prev \<le> pos \<and>
          scan_tokens (scan p) q0 [] s = prev @ scan_tokens (scan p) q (drop pos (take i s)) (drop i s)))"

definition oom :: "alloc_env \<Rightarrow> strv \<Rightarrow> unit res \<Rightarrow> bool" where
  "oom env sv r \<longleftrightarrow> r = Inl ENOMEM \<and> (\<exists>toks. strv_inv sv toks) \<and> (\<exists>z. alloc_fails env z)"

lemma scan_tokens_step:
  assumes "i < length s" "pos \<le> i" "scan p q (s ! i) = (q', sep)"
  shows "scan_tokens (scan p) q (drop pos (take i s)) (drop i s) =
    (if sep then (if pos = i then [] else [drop pos (take i s)]) @ scan_tokens (scan p) q' [] (drop (Suc i) s)
     else scan_tokens (scan p) q' (drop pos (take (Suc i) s)) (drop (Suc i) s))"
  using assms by (auto simp: Cons_nth_drop_Suc [symmetric] take_Suc_conv_app_nth)

lemma body_inv:
  assumes i: "i < len" "len \<le> length str" and len: "len < 2 ^ 59"
    and env: "mallocs_ok env (Suc len)" and s: "s = take len str" and inv: "tok_inv p q0 s i st"
  shows "\<exists>st' r. body env p str i st = Some (st', r) \<and>
    (r = ok \<and> tok_inv p q0 s (Suc i) st' \<or> oom env (snd (snd st')) r)"
proof -
  obtain q pos sv where st: "st = (q, pos, sv)" by (cases st) auto
  obtain q' sep where sc: "scan p q (str ! i) = (q', sep)" by fastforce
  from inv obtain prev where d: "pos \<le> i" "strv_inv sv (map decode prev)" "length prev \<le> pos"
      "scan_tokens (scan p) q0 [] s = prev @ scan_tokens (scan p) q (drop pos (take i s)) (drop i s)"
    by (auto simp: tok_inv_def st)
  have si: "i < length s" "s ! i = str ! i" "i < length str" using i s by auto
  note step = scan_tokens_step [OF si(1) d(1), of p q q' sep, unfolded si(2), OF sc]
  note b = body [OF si(3), of env p q pos sv, unfolded sc]
  show ?thesis
  proof (cases "sep \<and> pos \<noteq> i")
    case True
    have "length (map decode prev) < 2 ^ 59" "pos + (i - pos) \<le> length str" "i - pos < 2 ^ 59"
      "mallocs_ok env (Suc (i - pos))"
      using d i len mallocs_ok_mono [OF env] by auto
    from push [OF d(2) this(1,4,2,3)] obtain sv' r where
      p: "push env str sv pos (i - pos) = Some (sv', r)"
        "r = Inl ENOMEM \<and> sv' = sv \<and> (\<exists>z. alloc_fails env z) \<or>
         r = ok \<and> strv_inv sv' (map decode prev @ [decode (take (i - pos) (drop pos str))])" by blast
    have tk: "take (i - pos) (drop pos str) = drop pos (take i s)"
      using s i d(1) by (simp add: drop_take min_def)
    from p(2) show ?thesis
    proof
      assume "r = Inl ENOMEM \<and> sv' = sv \<and> (\<exists>z. alloc_fails env z)"
      with True b p(1) d(2) show ?thesis by (auto simp: st oom_def)
    next
      assume r: "r = ok \<and> strv_inv sv' (map decode prev @ [decode (take (i - pos) (drop pos str))])"
      then have "tok_inv p q0 s (Suc i) (q', Suc i, sv')"
        using d True step tk by (auto simp: tok_inv_def intro!: exI [of _ "prev @ [drop pos (take i s)]"])
      with True b p(1) r show ?thesis by (simp add: st)
    qed
  next
    case False
    then have "tok_inv p q0 s (Suc i) (q', if sep then Suc i else pos, sv)"
      using d step by (auto simp: tok_inv_def intro!: exI [of _ "prev"])
    with False b show ?thesis by (auto simp: st)
  qed
qed

lemma loop_inv:
  assumes "len \<le> length str" "len < 2 ^ 59" "mallocs_ok env (Suc len)" "s = take len str"
    "tok_inv p q0 s 0 st" "k \<le> len"
  shows "\<exists>st' r. loop_res (body env p str) [0..<k] st = Some (st', r) \<and>
    (r = ok \<and> tok_inv p q0 s k st' \<or> oom env (snd (snd st')) r)"
  using assms(6)
proof (induction k)
  case (Suc k)
  then obtain st1 r1 where 1: "loop_res (body env p str) [0..<k] st = Some (st1, r1)"
      "r1 = ok \<and> tok_inv p q0 s k st1 \<or> oom env (snd (snd st1)) r1" by fastforce
  from 1(2) show ?case
  proof
    assume "r1 = ok \<and> tok_inv p q0 s k st1"
    with body_inv [of k len str env s p q0 st1] Suc.prems assms(1-4) 1(1) show ?thesis
      by (simp add: loop_res_snoc)
  next
    assume "oom env (snd (snd st1)) r1"
    with 1(1) show ?thesis by (auto simp: loop_res_snoc oom_def)
  qed
qed (use assms(5) in simp)

text \<open>The end: the trailing token, the check of the count and the terminator.\<close>

lemma finish_ok:
  assumes "len \<le> length str" "len < 2 ^ 59" "mallocs_ok env (Suc len)" "s = take len str"
    "tok_inv p q0 s len (q, pos, sv)" "toks = map decode (scan_tokens (scan p) q0 [] s)"
  shows "\<exists>res. strv_finish (push env str) len pos sv ok = Some res \<and>
    (res = Inl ENOMEM \<and> ((\<exists>z. alloc_fails env z) \<or> 2 ^ 31 \<le> length toks) \<or>
     (\<exists>strv. res = Inr (of_nat (length toks), strv) \<and> strv_ok strv toks \<and> length toks < 2 ^ 31))"
proof -
  from assms(5) obtain prev where d: "pos \<le> len" "strv_inv sv (map decode prev)" "length prev \<le> pos"
      "scan_tokens (scan p) q0 [] s = prev @ scan_tokens (scan p) q (drop pos s) []"
    using assms(4) by (auto simp: tok_inv_def)
  have *: "\<exists>sv' r. (if 0 < len \<and> pos \<noteq> len then push env str sv pos (len - pos) else Some (sv, ok)) = Some (sv', r) \<and>
      (r = ok \<and> strv_inv sv' toks \<or> oom env sv' r)"
  proof (cases "pos = len")
    case True
    with d assms(1,4,6) show ?thesis by auto
  next
    case False
    have "length (map decode prev) < 2 ^ 59" "pos + (len - pos) \<le> length str" "len - pos < 2 ^ 59"
      "mallocs_ok env (Suc (len - pos))"
      using d assms(1,2) False mallocs_ok_mono [OF assms(3)] by auto
    from push [OF d(2) this(1,4,2,3)] obtain sv' r where
      p: "push env str sv pos (len - pos) = Some (sv', r)"
        "r = Inl ENOMEM \<and> sv' = sv \<and> (\<exists>z. alloc_fails env z) \<or>
         r = ok \<and> strv_inv sv' (map decode prev @ [decode (take (len - pos) (drop pos str))])" by blast
    have "drop pos s = take (len - pos) (drop pos str)" "drop pos s \<noteq> []"
      using assms(1,4) False d(1) by (auto simp: drop_take)
    with False d p assms(6) show ?thesis by (auto simp: oom_def)
  qed
  then obtain sv' r where sv': "(if 0 < len \<and> pos \<noteq> len then push env str sv pos (len - pos) else Some (sv, ok)) = Some (sv', r)"
      "r = ok \<and> strv_inv sv' toks \<or> oom env sv' r" by blast
  from sv'(2) show ?thesis
  proof
    assume r: "r = ok \<and> strv_inv sv' toks"
    have "length (scan_tokens (scan p) q (drop pos s) []) \<le> 1" by simp
    then have "length toks < 2 ^ 60" using d(1,3,4) assms(1,2,6) by simp
    then have n: "unat (sv_num sv') = length toks" "unat (sv_num sv') < 2 ^ 63"
      using r by (auto simp: strv_inv_def)
    then have u: "ucast (sv_num sv') = (of_nat (length toks) :: u32)"
      by (simp add: unsigned_of_nat flip: n(1))
    obtain sv2 where "strv_set sv' Null = Some sv2" "sv_num sv2 = sv_num sv'" "strv_ok (sv_slots sv2) toks"
      using strv_set_null r by blast
    then show ?thesis
      using sv'(1) r strv_abort_Some [of sv' toks] int_trunc_less [OF n(2)] n(1) u
      by (cases "length toks < 2 ^ 31") (auto simp: strv_finish_def)
  next
    assume r: "oom env sv' r"
    then obtain t where "strv_inv sv' t" by (auto simp: oom_def)
    with r sv'(1) show ?thesis
      by (auto simp: strv_finish_def oom_def strv_abort_Some [of sv' t])
  qed
qed

lemma finish_oom:
  assumes "oom env sv r"
  shows "strv_finish f len pos sv r = Some (Inl ENOMEM)"
proof -
  from assms obtain t where "strv_inv sv t" by (auto simp: oom_def)
  with assms show ?thesis by (auto simp: strv_finish_def oom_def strv_abort_Some [of sv t])
qed

lemma tokenizes:
  assumes "len \<le> length str" "len < 2 ^ 59" "mallocs_ok env (Suc len)"
    "toks = map decode (scan_tokens (scan p) q0 [] (take len str))" "strv_inv sv []"
  shows "\<exists>q pos sv' r res. loop_res (body env p str) [0..<len] (q0, 0, sv) = Some ((q, pos, sv'), r) \<and>
    strv_finish (push env str) len pos sv' r = Some res \<and>
    (res = Inl ENOMEM \<and> ((\<exists>z. alloc_fails env z) \<or> 2 ^ 31 \<le> length toks) \<or>
     (\<exists>strv. res = Inr (of_nat (length toks), strv) \<and> strv_ok strv toks \<and> length toks < 2 ^ 31))"
proof -
  have "tok_inv p q0 (take len str) 0 (q0, 0, sv)" using assms(5) by (simp add: tok_inv_def)
  from loop_inv [OF assms(1-3) refl this order_refl] obtain q pos sv' r where
    l: "loop_res (body env p str) [0..<len] (q0, 0, sv) = Some ((q, pos, sv'), r)"
       "r = ok \<and> tok_inv p q0 (take len str) len (q, pos, sv') \<or> oom env sv' r" by fastforce
  from l(2) show ?thesis
  proof
    assume "r = ok \<and> tok_inv p q0 (take len str) len (q, pos, sv')"
    with finish_ok [OF assms(1-3) refl _ assms(4), of q pos sv'] l(1) show ?thesis by blast
  next
    assume "oom env sv' r"
    with finish_oom [OF this, of "push env str" len pos] l(1) show ?thesis
      by (auto simp: oom_def)
  qed
qed

end

end
