(* ===== verification/Shl_Str.thy ===== *)
theory Shl_Str
  imports Shl_Strv "HOL-Library.Sublist"
begin

text \<open>
  The string helpers of \<^verbatim>\<open>src/shl_util.c\<close> and \<^verbatim>\<open>src/shl_util.h\<close>: concatenation, joining, splitting at
  separator characters, the empty and prefix tests. A string argument is the list of its bytes
  without the terminating NUL, null is \<^const>\<open>None\<close>; a result is the allocated block, terminator
  included. The varargs of \<^verbatim>\<open>shl_strjoin\<close> are the list of arguments before the null sentinel.
\<close>

definition str_or_empty :: "u8 list option \<Rightarrow> u8 list" where
  "str_or_empty s = (case s of None \<Rightarrow> [] | Some s \<Rightarrow> s)"

definition shl_strcat :: "alloc_env \<Rightarrow> u8 list option \<Rightarrow> u8 list option \<Rightarrow> block option option" where
  "shl_strcat env first second =
     (let first = str_or_empty first; second = str_or_empty second;
          flen = of_nat (length first) :: size_t; slen = of_nat (length second)
      in if flen + slen + 1 \<le> flen then Some None
         else case malloc_blk env (flen + slen + 1) of
                None \<Rightarrow> Some None
              | Some str \<Rightarrow> do {
                  str \<leftarrow> mem_write str 0 (first @ [0]);
                  str \<leftarrow> mem_write str (unat flen) (second @ [0]);
                  Some (Some str) })"

text \<open>
  The first loop of \<^verbatim>\<open>shl_strjoin\<close> adds the lengths up; \<^const>\<open>None\<close> is its early return. That return leaves the function without
  the \<^verbatim>\<open>va_end\<close> that has to match its \<^verbatim>\<open>va_start\<close>, which is undefined, so the whole call is.
\<close>

primrec strjoin_len :: "u8 list list \<Rightarrow> size_t \<Rightarrow> size_t option" where
  "strjoin_len [] len = Some len"
| "strjoin_len (arg # args) len =
     (let l = of_nat (length arg)
      in if len + l < len then None else strjoin_len args (len + l))"

definition strjoin_copy :: "u8 list \<Rightarrow> block \<times> nat \<Rightarrow> (block \<times> nat) option" where
  "strjoin_copy arg st =
     (case st of (str, p) \<Rightarrow> do { str \<leftarrow> mem_write str p (arg @ [0]); Some (str, p + length arg) })"

definition shl_strjoin :: "alloc_env \<Rightarrow> u8 list list \<Rightarrow> block option option" where
  "shl_strjoin env args =
     (case strjoin_len args 0 of
        None \<Rightarrow> None
      | Some len \<Rightarrow>
          (case malloc_blk env (len + 1) of
             None \<Rightarrow> Some None
           | Some str \<Rightarrow> do {
               (str, p) \<leftarrow> foldM strjoin_copy args (str, 0);
               str \<leftarrow> mem_write str p [0];
               Some (Some str) }))"

definition shl__split_push ::
  "alloc_env \<Rightarrow> u8 list \<Rightarrow> strv \<Rightarrow> nat \<Rightarrow> nat \<Rightarrow> (strv \<times> unit res) option" where
  "shl__split_push env str sv off len = do {
     (sv, r) \<leftarrow> strv_grow env sv ((sv_num sv + 2) * 8);
     if r \<noteq> ok then Some (sv, Inl ENOMEM)
     else do {
       ns \<leftarrow> malloc_blk env (of_nat len + 1);
       ns \<leftarrow> memcpy_at ns 0 str off len;
       ns \<leftarrow> mem_write ns len [0];
       sv \<leftarrow> strv_set sv (Str ns);
       Some (sv\<lparr>sv_num := sv_num sv + 1\<rparr>, ok) } }"

text \<open>The inner loop over the separators; the state of the outer loop is \<^verbatim>\<open>pos\<close> and the vector.\<close>

primrec sep_match :: "u8 list \<Rightarrow> u8 \<Rightarrow> bool" where
  "sep_match [] ch = False"
| "sep_match (s # sep) ch = (if ch \<noteq> s then sep_match sep ch else True)"

definition strsplit_body ::
  "alloc_env \<Rightarrow> u8 list \<Rightarrow> u8 list \<Rightarrow> nat \<Rightarrow> unit \<times> nat \<times> strv \<Rightarrow> ((unit \<times> nat \<times> strv) \<times> unit res) option" where
  "strsplit_body env sep str i st =
     (case st of (q, pos, sv) \<Rightarrow> do {
        ch \<leftarrow> char_at str i;
        if sep_match sep ch then do {
          (sv, r) \<leftarrow> (if pos \<noteq> i then shl__split_push env str sv pos (i - pos) else Some (sv, ok));
          Some ((q, if r = ok then Suc i else pos, sv), r) }
        else Some (st, ok) })"

definition shl_strsplit_n ::
  "alloc_env \<Rightarrow> u8 list option \<Rightarrow> size_t \<Rightarrow> u8 list option \<Rightarrow> bool \<Rightarrow> (errno + u32 \<times> slot list) option" where
  "shl_strsplit_n env str len sep out =
     (if \<not> out then Some (Inl EINVAL)
      else case sep of
        None \<Rightarrow> Some (Inl EINVAL)
      | Some sep \<Rightarrow>
          (let str = (case str of None \<Rightarrow> [0] | Some s \<Rightarrow> s)
           in case malloc_blk env 8 of
                None \<Rightarrow> Some (Inl ENOMEM)
              | Some _ \<Rightarrow> do {
                  ((_, pos, sv), r) \<leftarrow> loop_res (strsplit_body env sep str) [0..<unat len]
                     ((), 0, \<lparr>sv_slots = [Junk], sv_num = 0, sv_size = 8\<rparr>);
                  strv_finish (shl__split_push env str) (unat len) pos sv r }))"

definition shl_strsplit ::
  "alloc_env \<Rightarrow> u8 list option \<Rightarrow> u8 list option \<Rightarrow> bool \<Rightarrow> (errno + u32 \<times> slot list) option" where
  "shl_strsplit env str sep out =
     shl_strsplit_n env str (case str of None \<Rightarrow> 0 | Some s \<Rightarrow> of_nat (length s)) sep out"

definition shl_isempty :: "u8 list option \<Rightarrow> bool" where
  "shl_isempty str = (case str of None \<Rightarrow> True | Some s \<Rightarrow> s = [])"

text \<open>\<^verbatim>\<open>!strncmp(a, b, n)\<close> on C strings: the end of a string is its NUL.\<close>

fun strneq :: "u8 list \<Rightarrow> u8 list \<Rightarrow> nat \<Rightarrow> bool" where
  "strneq a b 0 = True"
| "strneq [] [] (Suc n) = True"
| "strneq [] (y # b) (Suc n) = False"
| "strneq (x # a) [] (Suc n) = False"
| "strneq (x # a) (y # b) (Suc n) = (x = y \<and> strneq a b n)"

text \<open>The returned pointer is an offset into the string.\<close>

definition shl_startswith :: "u8 list \<Rightarrow> u8 list \<Rightarrow> nat option" where
  "shl_startswith str pre = (if strneq str pre (length pre) then Some (length pre) else None)"

subsection \<open>Splitting\<close>

lemma token_copy:
  assumes "mallocs_ok env (Suc n)" "off + n \<le> length str" "n < 2 ^ 59"
  shows "\<exists>ns ns'. malloc_blk env (of_nat n + 1) = Some ns \<and> memcpy_at ns 0 str off n = Some ns' \<and>
    mem_write ns' n [0] = Some (take n (drop off str) @ [0])"
proof -
  let ?t = "take n (drop off str)"
  have "\<not> alloc_fails env (of_nat (Suc n))" using assms(1,2) by (intro mallocs_okD) auto
  moreover have un: "unat (of_nat n + 1 :: size_t) = Suc n"
    using assms(2,3) by (simp add: unat_word_ariths unat_of_nat)
  ultimately obtain ns where ns: "malloc_blk env (of_nat n + 1) = Some ns" "length ns = Suc n"
    by (auto simp: malloc_blk_def add.commute)
  then have "memcpy_at ns 0 str off n = Some (?t @ drop n ns)"
    using assms(2) by (simp add: memcpy_at_Some)
  moreover have "mem_write (?t @ drop n ns) n [0] = Some (?t @ [0])"
    using ns(2) assms(2) by (simp add: mem_write_def)
  ultimately show ?thesis using ns(1) by blast
qed

lemma split_push_correct:
  assumes "strv_inv sv toks" "length toks < 2 ^ 59" "mallocs_ok env (Suc n)"
    "off + n \<le> length str" "n < 2 ^ 59"
  shows "\<exists>sv' r. shl__split_push env str sv off n = Some (sv', r) \<and>
    (r = Inl ENOMEM \<and> sv' = sv \<and> (\<exists>z. alloc_fails env z) \<or>
     r = ok \<and> strv_inv sv' (toks @ [take n (drop off str)]))"
proof -
  from strv_grow_correct [OF assms(1,2), of env] obtain sv1 r1 where
    g: "strv_grow env sv ((sv_num sv + 2) * 8) = Some (sv1, r1)"
      "r1 = Inl ENOMEM \<and> sv1 = sv \<and> (\<exists>z. alloc_fails env z) \<or>
       r1 = ok \<and> strv_inv sv1 toks \<and> Suc (length toks) < length (sv_slots sv1)" by blast
  from g(2) show ?thesis
  proof
    assume "r1 = Inl ENOMEM \<and> sv1 = sv \<and> (\<exists>z. alloc_fails env z)"
    with g(1) show ?thesis by (auto simp: shl__split_push_def)
  next
    assume r1: "r1 = ok \<and> strv_inv sv1 toks \<and> Suc (length toks) < length (sv_slots sv1)"
    let ?t = "take n (drop off str)"
    from token_copy [OF assms(3-5)] obtain ns ns' where ns:
      "malloc_blk env (of_nat n + 1) = Some ns" "memcpy_at ns 0 str off n = Some ns'"
      "mem_write ns' n [0] = Some (?t @ [0])" by blast
    moreover have "holds_str (Str (?t @ [0])) ?t" by (simp add: holds_str_def)
    ultimately show ?thesis
      using r1 g(1) ns strv_set_str [of sv1 toks "Str (?t @ [0])" ?t] assms(2)
      by (auto simp: shl__split_push_def)
  qed
qed

lemma sep_match_iff [simp]: "sep_match sep ch \<longleftrightarrow> ch \<in> set sep"
  by (induction sep) auto

abbreviation sep_scan :: "u8 list \<Rightarrow> unit \<Rightarrow> u8 \<Rightarrow> unit \<times> bool" where
  "sep_scan sep \<equiv> \<lambda>_ ch. ((), ch \<in> set sep)"

interpretation splitter: tokenizer shl__split_push sep_scan strsplit_body "\<lambda>t. t"
proof unfold_locales
  fix i pos :: nat and str sep :: "u8 list" and env sv and q :: unit
  assume "i < length str"
  then show "strsplit_body env sep str i (q, pos, sv) =
    (case sep_scan sep q (str ! i) of (q', s) \<Rightarrow>
       if s \<and> pos \<noteq> i then do {
         (sv, r) \<leftarrow> shl__split_push env str sv pos (i - pos);
         Some ((q', if r = ok then Suc i else pos, sv), r) }
       else Some ((q', if s then Suc i else pos, sv), ok))"
    by (simp add: strsplit_body_def char_at_def)
qed (simp add: split_push_correct)

text \<open>
  The reference definition of splitting: cut at every separator, drop the empty fields.
\<close>

fun str_fields :: "u8 list \<Rightarrow> u8 list \<Rightarrow> u8 list list" where
  "str_fields sep [] = [[]]"
| "str_fields sep (c # s) =
     (if c \<in> set sep then [] # str_fields sep s else (c # hd (str_fields sep s)) # tl (str_fields sep s))"

definition split_spec :: "u8 list \<Rightarrow> u8 list \<Rightarrow> u8 list list" where
  "split_spec sep s = filter (\<lambda>t. t \<noteq> []) (str_fields sep s)"

lemma str_fields_not_Nil [simp]: "str_fields sep s \<noteq> []"
  by (cases s) auto

lemma scan_tokens_str_fields:
  "scan_tokens (sep_scan sep) q cur s = filter (\<lambda>t. t \<noteq> []) ((cur @ hd (str_fields sep s)) # tl (str_fields sep s))"
proof (induction s arbitrary: q cur)
  case (Cons c s)
  show ?case
    by (cases "str_fields sep s") (use Cons str_fields_not_Nil [of sep s] in auto)
qed auto

lemma scan_tokens_split: "scan_tokens (sep_scan sep) () [] s = split_spec sep s"
  by (cases "str_fields sep s") (use str_fields_not_Nil [of sep s] in \<open>auto simp: scan_tokens_str_fields split_spec_def\<close>)

lemma split_spec_words:
  "concat (split_spec sep s) = filter (\<lambda>c. c \<notin> set sep) s"
  "t \<in> set (split_spec sep s) \<Longrightarrow> t \<noteq> [] \<and> set t \<inter> set sep = {}"
proof -
  have "concat (filter (\<lambda>t. t \<noteq> []) xs) = concat xs" for xs :: "u8 list list"
    by (induction xs) auto
  moreover have "concat (str_fields sep s) = filter (\<lambda>c. c \<notin> set sep) s"
  proof (induction s)
    case (Cons c s)
    then show ?case by (cases "str_fields sep s") (use str_fields_not_Nil [of sep s] in auto)
  qed simp
  ultimately show "concat (split_spec sep s) = filter (\<lambda>c. c \<notin> set sep) s" by (simp add: split_spec_def)
  have "\<forall>t \<in> set (str_fields sep s). set t \<inter> set sep = {}"
  proof (induction s)
    case (Cons c s)
    then show ?case by (cases "str_fields sep s") (use str_fields_not_Nil [of sep s] in auto)
  qed simp
  then show "t \<in> set (split_spec sep s) \<Longrightarrow> t \<noteq> [] \<and> set t \<inter> set sep = {}" by (auto simp: split_spec_def)
qed

lemma strv_inv_init: "strv_inv \<lparr>sv_slots = [Junk], sv_num = 0, sv_size = 8\<rparr> []"
  by (simp add: strv_inv_def)


lemma strsplit_correct:
  assumes "str = str_or_empty mstr" "unat len \<le> length str" "unat len < 2 ^ 59"
    "mallocs_ok env (Suc (unat len))" "toks = split_spec sep (take (unat len) str)"
  shows "\<exists>res. shl_strsplit_n env mstr len (Some sep) True = Some res \<and>
    (res = Inl ENOMEM \<and> ((\<exists>z. alloc_fails env z) \<or> 2 ^ 31 \<le> length toks) \<or>
     (\<exists>strv. res = Inr (of_nat (length toks), strv) \<and> strv_ok strv toks \<and> length toks < 2 ^ 31))"
proof (cases "malloc_blk env 8")
  case None
  then have "alloc_fails env 8" by (simp add: malloc_blk_def split: if_splits)
  with None show ?thesis by (auto simp: shl_strsplit_n_def)
next
  case (Some b)
  let ?s = "case mstr of None \<Rightarrow> [0] | Some s \<Rightarrow> s"
  have s: "take (unat len) ?s = take (unat len) str" "unat len \<le> length ?s"
    using assms(1,2) by (auto simp: str_or_empty_def split: option.splits)
  have "toks = map (\<lambda>t. t) (scan_tokens (sep_scan sep) () [] (take (unat len) ?s))"
    using assms(5) s(1) by (simp add: scan_tokens_split)
  from splitter.tokenizes [OF s(2) assms(3,4) this strv_inv_init] Some show ?thesis
    by (fastforce simp: shl_strsplit_n_def)
qed

subsection \<open>Concatenating and joining\<close>

lemma strcat_correct:
  assumes f: "f = str_or_empty first" and s: "s = str_or_empty second"
    and "length f < 2 ^ 64" "length s < 2 ^ 64"
  shows "shl_strcat env first second =
    (if length f + length s + 1 < 2 ^ 64 \<and> \<not> alloc_fails env (of_nat (length f + length s + 1))
     then Some (Some (f @ s @ [0])) else Some None)"
proof -
  let ?n = "of_nat (length f) + of_nat (length s) + 1 :: size_t"
  have uf: "unat (of_nat (length f) :: size_t) = length f" and us: "unat (of_nat (length s) :: size_t) = length s"
    using assms(3,4) by (simp_all add: unat_of_nat)
  have n: "?n = of_nat (length f + length s + 1)" by simp
  have u: "unat ?n = (length f + length s + 1) mod 2 ^ 64"
    unfolding n unat_of_nat by simp
  show ?thesis
  proof (cases "length f + length s + 1 < 2 ^ 64")
    case True
    then have un: "unat ?n = length f + length s + 1" using u by simp
    then have le: "\<not> ?n \<le> of_nat (length f)" unfolding word_le_nat_alt uf by simp
    show ?thesis
    proof (cases "alloc_fails env ?n")
      case True
      with le show ?thesis
        by (simp add: shl_strcat_def Let_def malloc_blk_def add.commute add.left_commute flip: f s)
    next
      case False
      let ?b = "map (junk env) [0..<length f + length s + 1]"
      have "malloc_blk env ?n = Some ?b" using False un by (simp add: malloc_blk_def)
      moreover have "mem_write ?b 0 (f @ [0]) = Some (f @ [0] @ drop (length f + 1) ?b)"
        by (simp add: mem_write_def)
      moreover have "mem_write (f @ [0] @ drop (length f + 1) ?b) (length f) (s @ [0]) = Some (f @ s @ [0])"
        by (simp add: mem_write_def)
      ultimately show ?thesis
        using False True le uf by (simp add: shl_strcat_def Let_def add.commute add.left_commute flip: f s)
    qed
  next
    case False
    then have "unat ?n = length f + length s + 1 - 2 ^ 64"
      using u assms(3,4) by (simp add: le_mod_geq)
    then have "?n \<le> of_nat (length f)" unfolding word_le_nat_alt uf using False assms(4) by linarith
    with False show ?thesis by (simp add: shl_strcat_def Let_def flip: f s)
  qed
qed

lemma strjoin_len_correct:
  assumes "\<forall>a \<in> set args. length a < 2 ^ 64"
  shows "strjoin_len args len =
    (if unat len + length (concat args) < 2 ^ 64 then Some (len + of_nat (length (concat args))) else None)"
  using assms
proof (induction args arbitrary: len)
  case (Cons a args)
  then have l: "unat (of_nat (length a) :: size_t) = length a" by (simp add: unat_of_nat)
  have ov: "len + of_nat (length a) < len \<longleftrightarrow> \<not> unat len + length a < 2 ^ 64"
    using wrap_add_ge [of len "of_nat (length a)"] l by (simp add: not_le [symmetric])
  show ?case
  proof (cases "unat len + length a < 2 ^ 64")
    case True
    then have "unat (len + of_nat (length a)) = unat len + length a" using l by (subst unat_add_nowrap) auto
    with Cons True ov show ?thesis by (simp add: Let_def add.assoc)
  next
    case False
    with ov show ?thesis by (simp add: Let_def)
  qed
qed simp

lemma strjoin_copy_correct:
  assumes "p + length (concat args) < length str"
  shows "\<exists>rest. foldM strjoin_copy args (str, p) =
    Some (take p str @ concat args @ rest, p + length (concat args)) \<and>
    length rest = length str - (p + length (concat args))"
  using assms
proof (induction args arbitrary: str p)
  case (Cons a args)
  let ?str = "take p str @ (a @ [0]) @ drop (p + length (a @ [0])) str"
  have w: "strjoin_copy a (str, p) = Some (?str, p + length a)"
    using Cons.prems by (simp add: strjoin_copy_def mem_write_def)
  have "p + length a + length (concat args) < length ?str" using Cons.prems by simp
  from Cons.IH [OF this] Cons.prems obtain rest where
    "foldM strjoin_copy args (?str, p + length a) =
       Some (take (p + length a) ?str @ concat args @ rest, p + length a + length (concat args))"
    "length rest = length str - (p + length a + length (concat args))" by auto
  with w Cons.prems show ?case by (auto simp: add.assoc)
qed (auto intro!: exI [of _ "drop p str" for p str])

lemma strjoin_correct:
  assumes "length (concat args) + 1 < 2 ^ 64"
  shows "shl_strjoin env args =
    (if alloc_fails env (of_nat (length (concat args) + 1)) then Some None else Some (Some (concat args @ [0])))"
proof -
  let ?n = "of_nat (length (concat args)) + 1 :: size_t"
  have n: "?n = of_nat (length (concat args) + 1)" by simp
  have u: "unat ?n = length (concat args) + 1"
    unfolding n unat_of_nat using assms by simp
  have l: "strjoin_len args 0 = Some (of_nat (length (concat args)))"
  proof -
    have "length a \<le> length (concat args)" if "a \<in> set args" for a
      using that by (induction args) auto
    then have "\<forall>a \<in> set args. length a < 2 ^ 64" using assms by fastforce
    with strjoin_len_correct [of args 0] assms show ?thesis by simp
  qed
  show ?thesis
  proof (cases "alloc_fails env ?n")
    case True
    with l show ?thesis by (simp add: shl_strjoin_def malloc_blk_def add.commute)
  next
    case False
    let ?b = "map (junk env) [0..<length (concat args) + 1]"
    have m: "malloc_blk env ?n = Some ?b" using False u by (simp only: malloc_blk_def) simp
    from strjoin_copy_correct [of 0 args ?b] obtain rest where
      c: "foldM strjoin_copy args (?b, 0) = Some (concat args @ rest, length (concat args))" "length rest = 1"
      by auto
    then have "mem_write (concat args @ rest) (length (concat args)) [0] = Some (concat args @ [0])"
      by (simp add: mem_write_def)
    with False l m c show ?thesis by (simp add: shl_strjoin_def add.commute)
  qed
qed

text \<open>
  With the terminator the length may just not fit: the request wraps to 0 bytes, and the copy leaves the block. A
  longer total is found by the loop, but its early return is undefined.
\<close>

lemma strjoin_overflow:
  assumes "\<forall>a \<in> set args. length a < 2 ^ 64" "2 ^ 64 \<le> length (concat args) + 1"
  shows "shl_strjoin env args =
    (if length (concat args) + 1 = 2 ^ 64 \<and> alloc_fails env 0 then Some None else None)"
proof (cases "length (concat args) + 1 = 2 ^ 64")
  case True
  then obtain a as where args: "args = a # as" by (cases args) auto
  have "length (concat args) = 2 ^ 64 - 1" using True by simp
  then have "of_nat (length (concat args)) = (- 1 :: size_t)" by (simp only:) simp
  then have len: "strjoin_len args 0 = Some (- 1)" using strjoin_len_correct [OF assms(1), of 0] True by simp
  show ?thesis
  proof (cases "alloc_fails env 0")
    case fails: True
    then show ?thesis using True len by (simp add: shl_strjoin_def malloc_blk_def)
  next
    case False
    then have "malloc_blk env 0 = Some []" by (simp add: malloc_blk_def)
    then show ?thesis using True False len args by (simp add: shl_strjoin_def strjoin_copy_def mem_write_def)
  qed
next
  case False
  then have "\<not> length (concat args) < 2 ^ 64" using assms(2) by simp
  then have "strjoin_len args 0 = None" using strjoin_len_correct [OF assms(1), of 0] by simp
  then show ?thesis using False by (simp add: shl_strjoin_def)
qed

lemma strneq_prefix: "strneq a b (length b) \<longleftrightarrow> prefix b a"
  by (induction a b "length b" rule: strneq.induct) auto

subsection \<open>Properties\<close>

text \<open>
  C17. Under the condition that every request of at most \<open>len + 1\<close> bytes succeeds, splitting a string at
  separator characters returns exactly its non-empty fields, in order, as a null-terminated vector of
  null-terminated strings, with the number of fields as the result, or fails with \<^verbatim>\<open>-ENOMEM\<close> because the
  vector cannot be allocated or grown or there are more than \<^verbatim>\<open>INT_MAX\<close> fields. Freeing a returned vector
  frees exactly its strings. The condition is there because the code does not check the \<^verbatim>\<open>malloc\<close> of a
  field: where that fails it does not return \<^verbatim>\<open>-ENOMEM\<close> but writes through the null pointer
  (\<open>strsplit_malloc_unchecked\<close>).
\<close>

theorem strsplit_splits:
  assumes "str = str_or_empty mstr" "unat len \<le> length str" "unat len < 2 ^ 59"
    "mallocs_ok env (Suc (unat len))" "toks = split_spec sep (take (unat len) str)"
  shows "shl_strsplit_n env mstr len (Some sep) True = Some (Inl ENOMEM) \<and>
      ((\<exists>z. alloc_fails env z) \<or> 2 ^ 31 \<le> length toks) \<or>
    (\<exists>strv bs. shl_strsplit_n env mstr len (Some sep) True = Some (Inr (of_nat (length toks), strv)) \<and>
      strv_ok strv toks \<and> length toks < 2 ^ 31 \<and>
      shl_strv_free (Some strv) = Some bs \<and> map Str bs = take (length toks) strv)"
proof -
  from strsplit_correct [OF assms] obtain res where res: "shl_strsplit_n env mstr len (Some sep) True = Some res"
    "res = Inl ENOMEM \<and> ((\<exists>z. alloc_fails env z) \<or> 2 ^ 31 \<le> length toks) \<or>
     (\<exists>strv. res = Inr (of_nat (length toks), strv) \<and> strv_ok strv toks \<and> length toks < 2 ^ 31)" by blast
  from res(2) show ?thesis
  proof
    assume "\<exists>strv. res = Inr (of_nat (length toks), strv) \<and> strv_ok strv toks \<and> length toks < 2 ^ 31"
    then obtain strv where v: "res = Inr (of_nat (length toks), strv)" "strv_ok strv toks" "length toks < 2 ^ 31" by blast
    with strv_free_loop_ok [OF v(2), of 0] res(1) show ?thesis
      by (auto simp: shl_strv_free_def)
  qed (use res(1) in simp)
qed

theorem strsplit_splits_witness:
  "\<exists>strv. shl_strsplit_n \<lparr>alloc_fails = (\<lambda>_. False), junk = (\<lambda>_. 7)\<rparr> (Some [58, 97, 98, 44, 99]) 5 (Some [44, 58]) True =
     Some (Inr (2, strv)) \<and> strv_ok strv [[97, 98], [99]]"
proof -
  let ?env = "\<lparr>alloc_fails = (\<lambda>_. False), junk = (\<lambda>_. 7)\<rparr>"
  have "split_spec [44, 58] [58, 97, 98, 44, 99] = [[97, 98], [99]]" by code_simp
  moreover have "mallocs_ok ?env 6" by (simp add: mallocs_ok_def list_all_iff)
  ultimately show ?thesis
    using strsplit_splits [of "[58, 97, 98, 44, 99]" "Some [58, 97, 98, 44, 99]" 5 ?env "[[97, 98], [99]]" "[44, 58]"]
    by (auto simp: str_or_empty_def)
qed

text \<open>
  The fields of a string are its maximal runs of characters that are no separators: none is empty or
  holds a separator, and together, in order, they are the string without its separators.
\<close>

theorem split_fields_words:
  assumes "str = str_or_empty mstr" "unat len \<le> length str" "unat len < 2 ^ 59"
    "mallocs_ok env (Suc (unat len))" "shl_strsplit_n env mstr len (Some sep) True = Some (Inr (n, strv))"
  shows "\<exists>toks. strv_ok strv toks \<and> n = of_nat (length toks) \<and>
    concat toks = filter (\<lambda>c. c \<notin> set sep) (take (unat len) str) \<and>
    list_all (\<lambda>t. t \<noteq> [] \<and> set t \<inter> set sep = {}) toks"
proof -
  let ?toks = "split_spec sep (take (unat len) str)"
  from strsplit_correct [OF assms(1-4) refl, of sep] assms(5)
  have "strv_ok strv ?toks" "n = of_nat (length ?toks)" by auto
  then show ?thesis
    using split_spec_words(1) [of sep "take (unat len) str"] split_spec_words(2) [of _ sep "take (unat len) str"]
    by (auto simp: list_all_iff intro!: exI [of _ ?toks])
qed

theorem split_fields_words_witness:
  "\<exists>toks strv. shl_strsplit_n \<lparr>alloc_fails = (\<lambda>_. False), junk = (\<lambda>_. 7)\<rparr> (Some [97, 44]) 2 (Some [44]) True = Some (Inr (1, strv)) \<and>
     strv_ok strv toks \<and> concat toks = [97]"
proof -
  let ?env = "\<lparr>alloc_fails = (\<lambda>_. False), junk = (\<lambda>_. 7)\<rparr>"
  have m: "mallocs_ok ?env 3" by (simp add: mallocs_ok_def list_all_iff)
  have "split_spec [44] [97, 44] = [[97]]" by code_simp
  then obtain strv where r: "shl_strsplit_n ?env (Some [97, 44]) 2 (Some [44]) True = Some (Inr (1, strv))"
    using strsplit_correct [of "[97, 44]" "Some [97, 44]" 2 ?env "[[97]]" "[44]"] m by (auto simp: str_or_empty_def)
  from split_fields_words [of "[97, 44]" "Some [97, 44]" 2 ?env "[44]" 1 strv] r m show ?thesis
    by (auto simp: str_or_empty_def)
qed

text \<open>
  C18. \<^verbatim>\<open>shl_strcat\<close> returns a block of exactly the right size that holds the concatenation of its two arguments (null counts as
  empty), or null when the allocation fails or the length with its terminator does not fit \<^verbatim>\<open>size_t\<close>; it is always defined.
  \<^verbatim>\<open>shl_strjoin\<close> returns the concatenation of all its arguments in the same way, or null when the allocation fails, as long as
  the length with its terminator fits. Longer totals it does not handle: where the terminator alone makes the length wrap it asks
  for 0 bytes and writes outside the block (or returns null if that request fails), and beyond that it leaves through the early
  return without \<^verbatim>\<open>va_end\<close>, which is undefined.
\<close>

theorem strcat_and_strjoin:
  assumes "f = str_or_empty first" "s = str_or_empty second" "length f < 2 ^ 64" "length s < 2 ^ 64"
    "\<forall>a \<in> set args. length a < 2 ^ 64"
  shows "shl_strcat env first second =
      (if length f + length s + 1 < 2 ^ 64 \<and> \<not> alloc_fails env (of_nat (length f + length s + 1))
       then Some (Some (f @ s @ [0])) else Some None) \<and>
    shl_strjoin env args =
      (if length (concat args) + 1 < 2 ^ 64
       then (if alloc_fails env (of_nat (length (concat args) + 1)) then Some None else Some (Some (concat args @ [0])))
       else if length (concat args) + 1 = 2 ^ 64 \<and> alloc_fails env 0 then Some None else None)"
  using strcat_correct [OF assms(1-4)] strjoin_correct [of args env] strjoin_overflow [OF assms(5), of env]
  by (cases "length (concat args) + 1 < 2 ^ 64") simp_all

theorem strcat_and_strjoin_witness:
  "shl_strcat \<lparr>alloc_fails = (\<lambda>_. False), junk = (\<lambda>_. 7)\<rparr> None (Some [97, 98]) = Some (Some [97, 98, 0]) \<and>
   shl_strjoin \<lparr>alloc_fails = (\<lambda>_. False), junk = (\<lambda>_. 7)\<rparr> [[97], [], [98, 99]] = Some (Some [97, 98, 99, 0])"
  using strcat_and_strjoin [of "[]" None "[97, 98]" "Some [97, 98]" "[[97], [], [98, 99]]"
      "\<lparr>alloc_fails = (\<lambda>_. False), junk = (\<lambda>_. 7)\<rparr>"]
  by (simp add: str_or_empty_def)

text \<open>
  The prefix test returns the position behind the prefix exactly when the string starts with it.
\<close>

theorem startswith_prefix:
  "shl_startswith str pre = (if prefix pre str then Some (length pre) else None)"
  by (simp add: shl_startswith_def strneq_prefix)

text \<open>
  The copy of a field is not checked for a failed allocation: here only the request for the two bytes of the field
  fails, and the code writes through a null pointer.
\<close>

lemma strsplit_malloc_unchecked:
  "shl_strsplit \<lparr>alloc_fails = (\<lambda>n. n = 2), junk = (\<lambda>_. 7)\<rparr> (Some [97]) (Some [44]) True = None"
  by code_simp

end
