(* ===== verification/Shl_Qstr.thy ===== *)
theory Shl_Qstr
  imports Shl_Str
begin

text \<open>
  Quoted strings (\<^verbatim>\<open>src/shl_util.c\<close>): decoding a token in place, cutting a line into tokens, encoding
  and joining. Decoding works on the block itself, as the code does, with a read position \<open>i\<close> and a
  write position \<open>pos\<close>. The character codes are 34 for \<^verbatim>\<open>"\<close>, 39 for \<^verbatim>\<open>'\<close>, 92 for the backslash
  and 32 for the space.
\<close>

definition shl_qstr_unescape_char :: "u8 \<Rightarrow> u8" where
  "shl_qstr_unescape_char c =
     (if c = 97 then 7 else if c = 98 then 8 else if c = 102 then 12 else if c = 110 then 10
      else if c = 114 then 13 else if c = 116 then 9 else if c = 118 then 11
      else if c = 34 then 34 else if c = 39 then 39 else if c = 92 then 92 else 0)"

text \<open>\<^verbatim>\<open>*pos++ = c\<close>\<close>

definition put :: "u8 \<Rightarrow> block \<times> nat \<Rightarrow> (block \<times> nat) option" where
  "put c st = (case st of (str, pos) \<Rightarrow> do { str \<leftarrow> mem_write str pos [c]; Some (str, Suc pos) })"

definition decode_body ::
  "nat \<Rightarrow> (block \<times> nat) \<times> u8 \<times> bool \<Rightarrow> ((block \<times> nat) \<times> u8 \<times> bool) option" where
  "decode_body i st =
     (case st of ((str, pos), quoted, escaped) \<Rightarrow> do {
        ch \<leftarrow> char_at str i;
        if escaped then
          (let c = shl_qstr_unescape_char ch
           in if c \<noteq> 0 then do { w \<leftarrow> put c (str, pos); Some (w, quoted, False) }
              else if ch = 0 then Some ((str, pos), quoted, False)
              else do {
                w \<leftarrow> put 92 (str, pos);
                ch \<leftarrow> char_at (fst w) i;
                w \<leftarrow> put ch w;
                Some (w, quoted, False) })
        else if quoted \<noteq> 0 then
          (if ch = 92 then Some ((str, pos), quoted, True)
           else if ch = 34 \<and> quoted = 34 then Some ((str, pos), 0, False)
           else if ch = 39 \<and> quoted = 39 then Some ((str, pos), 0, False)
           else if ch = 0 then Some ((str, pos), quoted, False)
           else do { w \<leftarrow> put ch (str, pos); Some (w, quoted, False) })
        else
          (if ch = 92 then Some ((str, pos), quoted, True)
           else if ch = 34 \<or> ch = 39 then Some ((str, pos), ch, False)
           else if ch = 0 then Some ((str, pos), quoted, False)
           else do { w \<leftarrow> put ch (str, pos); Some (w, quoted, False) }) })"

definition shl_qstr_decode_n :: "block \<Rightarrow> nat \<Rightarrow> block option" where
  "shl_qstr_decode_n str len = do {
     (w, quoted, escaped) \<leftarrow> foldM decode_body [0..<len] ((str, 0), 0, False);
     (str, pos) \<leftarrow> (if escaped then put 92 w else Some w);
     mem_write str pos [0] }"

definition shl__qstr_push ::
  "alloc_env \<Rightarrow> u8 list \<Rightarrow> strv \<Rightarrow> nat \<Rightarrow> nat \<Rightarrow> (strv \<times> unit res) option" where
  "shl__qstr_push env str sv off len = do {
     (sv, r) \<leftarrow> strv_grow env sv ((sv_num sv + 2) * 8);
     if r \<noteq> ok then Some (sv, Inl ENOMEM)
     else do {
       ns \<leftarrow> malloc_blk env (of_nat len + 1);
       ns \<leftarrow> memcpy_at ns 0 str off len;
       ns \<leftarrow> mem_write ns len [0];
       ns \<leftarrow> shl_qstr_decode_n ns len;
       sv \<leftarrow> strv_set sv (Str ns);
       Some (sv\<lparr>sv_num := sv_num sv + 1\<rparr>, ok) } }"

text \<open>
  The loop of the tokenizer. \<^verbatim>\<open>quoted\<close> is only ever set in branches that require it to be set already.
\<close>

definition tokenize_body ::
  "alloc_env \<Rightarrow> unit \<Rightarrow> u8 list \<Rightarrow> nat \<Rightarrow> (u8 \<times> bool) \<times> nat \<times> strv \<Rightarrow>
   (((u8 \<times> bool) \<times> nat \<times> strv) \<times> unit res) option" where
  "tokenize_body env _ str i st =
     (case st of ((quoted, escaped), pos, sv) \<Rightarrow> do {
        ch \<leftarrow> char_at str i;
        if escaped then Some (((quoted, False), pos, sv), ok)
        else if ch = 92 then Some (((quoted, True), pos, sv), ok)
        else if quoted \<noteq> 0 then
          (if ch = 34 \<and> quoted = 34 then Some (((0, escaped), pos, sv), ok)
           else if ch = 39 \<and> quoted = 39 then Some (((0, escaped), pos, sv), ok)
           else Some (st, ok))
        else if ch = 34 \<and> quoted = 34 then Some (((34, escaped), pos, sv), ok)
        else if ch = 39 \<and> quoted = 39 then Some (((39, escaped), pos, sv), ok)
        else if ch = 32 then do {
          (sv, r) \<leftarrow> (if pos \<noteq> i then shl__qstr_push env str sv pos (i - pos) else Some (sv, ok));
          Some (((quoted, escaped), if r = ok then Suc i else pos, sv), r) }
        else Some (st, ok) })"

definition shl_qstr_tokenize_n ::
  "alloc_env \<Rightarrow> u8 list option \<Rightarrow> size_t \<Rightarrow> bool \<Rightarrow> (errno + u32 \<times> slot list) option" where
  "shl_qstr_tokenize_n env str len out =
     (if \<not> out then Some (Inl EINVAL)
      else let str = (case str of None \<Rightarrow> [0] | Some s \<Rightarrow> s)
           in case malloc_blk env 8 of
                None \<Rightarrow> Some (Inl ENOMEM)
              | Some _ \<Rightarrow> do {
                  ((_, pos, sv), r) \<leftarrow> loop_res (tokenize_body env () str) [0..<unat len]
                     ((0, False), 0, \<lparr>sv_slots = [Junk], sv_num = 0, sv_size = 8\<rparr>);
                  strv_finish (shl__qstr_push env str) (unat len) pos sv r })"

definition shl_qstr_tokenize ::
  "alloc_env \<Rightarrow> u8 list option \<Rightarrow> bool \<Rightarrow> (errno + u32 \<times> slot list) option" where
  "shl_qstr_tokenize env str out =
     shl_qstr_tokenize_n env str (case str of None \<Rightarrow> 0 | Some s \<Rightarrow> of_nat (length s)) out"

subsection \<open>Encoding\<close>

definition encode_char :: "u8 \<Rightarrow> block \<times> nat \<Rightarrow> (block \<times> nat) option" where
  "encode_char c w =
     (if c = 92 \<or> c = 34 then do { w \<leftarrow> put 92 w; put c w } else put c w)"

text \<open>The destination is \<^verbatim>\<open>line + off\<close>; the result is the block and the number of bytes written.\<close>

definition shl__qstr_encode :: "block \<Rightarrow> nat \<Rightarrow> u8 list \<Rightarrow> bool \<Rightarrow> (block \<times> nat) option" where
  "shl__qstr_encode line off src need_quote = do {
     w \<leftarrow> (if need_quote then put 34 (line, off) else Some (line, off));
     w \<leftarrow> foldM encode_char src w;
     (line, pos) \<leftarrow> (if need_quote then put 34 w else Some w);
     Some (line, pos - off) }"

primrec qstr_length_loop :: "u8 list \<Rightarrow> size_t \<Rightarrow> bool \<Rightarrow> size_t \<times> bool" where
  "qstr_length_loop [] l need_quote = (l, need_quote)"
| "qstr_length_loop (c # str) l need_quote =
     (let need_quote = (if c = 32 \<or> c = 9 \<or> c = 10 \<or> c = 11 then True else need_quote); l = l + 1
      in if l \<noteq> 0 then qstr_length_loop str l need_quote else (l - 1, need_quote))"

definition shl__qstr_length :: "u8 list \<Rightarrow> size_t \<times> bool" where
  "shl__qstr_length str = qstr_length_loop str 0 False"

type_synonym join_state = "block option \<times> size_t \<times> size_t"

definition join_body :: "alloc_env \<Rightarrow> u8 list \<Rightarrow> join_state \<Rightarrow> (join_state \<times> unit res) option" where
  "join_body env s st =
     (case st of (line, sz, len) \<Rightarrow>
      (case shl__qstr_length s of (l, need_quote) \<Rightarrow>
        if l * 2 < l then Some (st, Inl ENOMEM)
        else let need = l * 2 in
        if need + len < need then Some (st, Inl ENOMEM)
        else let need = need + len in
        if need + 4 < len then Some (st, Inl ENOMEM)
        else let need = need + 4 in do {
          (line, sz, p) \<leftarrow> SHL_GREEDY_REALLOC_T env 1 line sz need;
          case p of
            None \<Rightarrow> Some ((line, sz, len), Inl ENOMEM)
          | Some _ \<Rightarrow> do {
              (b, pos) \<leftarrow> (if len \<noteq> 0 then put 32 (blk line, unat len) else Some (blk line, unat len));
              (b, n) \<leftarrow> shl__qstr_encode b pos s need_quote;
              Some ((Some b, sz, of_nat pos + of_nat n), ok) } }))"

definition shl_qstr_join :: "alloc_env \<Rightarrow> u8 list list \<Rightarrow> (errno + u32 \<times> block) option" where
  "shl_qstr_join env strv = do {
     (line, sz, p) \<leftarrow> SHL_GREEDY_REALLOC_T env 1 None 0 1;
     case p of
       None \<Rightarrow> Some (Inl ENOMEM)
     | Some b \<Rightarrow> do {
         b \<leftarrow> mem_write b 0 [0];
         ((line, sz, len), r) \<leftarrow> loop_res (join_body env) strv (Some b, sz, 0);
         if r \<noteq> ok \<or> scast (ucast len :: u32) \<noteq> len then Some (Inl ENOMEM)
         else do {
           b \<leftarrow> mem_write (blk line) (unat len) [0];
           Some (Inr (ucast len, b)) } } }"

subsection \<open>The decoder as a function\<close>

text \<open>
  The reference definition: the decoded bytes, from the state of the decoder (the open quote, or 0, and
  whether the last byte was a backslash) and the rest of the input.
\<close>

text \<open>The escapes of C and the bytes they stand for: the control characters by name, quotes and backslash for themselves.\<close>

definition escape_table :: "(u8 \<times> u8) list" where
  "escape_table = zip (map of_char ''abtnvfr'') [7, 8, 9, 10, 11, 12, 13] @ map (\<lambda>c. (c, c)) [34, 39, 92]"

definition unesc :: "u8 \<Rightarrow> u8 list" where
  "unesc c = (case map_of escape_table c of Some v \<Rightarrow> [v] | None \<Rightarrow> if c = 0 then [] else [92, c])"

lemma unescape_char_spec:
  "shl_qstr_unescape_char c = (case map_of escape_table c of None \<Rightarrow> 0 | Some v \<Rightarrow> v)"
  "map_of escape_table c \<noteq> Some 0"
  by (simp_all add: shl_qstr_unescape_char_def escape_table_def of_char_def)

lemma unesc_eq:
  "unesc c = (if shl_qstr_unescape_char c \<noteq> 0 then [shl_qstr_unescape_char c] else if c = 0 then [] else [92, c])"
  using unescape_char_spec [of c] by (auto simp: unesc_def split: option.splits)

fun qdec :: "u8 \<Rightarrow> bool \<Rightarrow> u8 list \<Rightarrow> u8 list" where
  "qdec q esc [] = (if esc then [92] else [])"
| "qdec q True (c # s) = unesc c @ qdec q False s"
| "qdec q False (c # s) =
     (if c = 92 then qdec q True s
      else if q \<noteq> 0 then
        (if c = q \<and> (c = 34 \<or> c = 39) then qdec 0 False s
         else (if c = 0 then [] else [c]) @ qdec q False s)
      else if c = 34 \<or> c = 39 then qdec c False s
      else (if c = 0 then [] else [c]) @ qdec 0 False s)"

lemma put_Some: "pos < length str \<Longrightarrow> put c (str, pos) = Some (str[pos := c], Suc pos)"
  by (simp add: put_def mem_write_single)

definition dec_inv :: "block \<Rightarrow> nat \<Rightarrow> nat \<Rightarrow> (block \<times> nat) \<times> u8 \<times> bool \<Rightarrow> bool" where
  "dec_inv b n i st \<longleftrightarrow>
     (case st of ((str, pos), q, esc) \<Rightarrow>
        length str = length b \<and> (if esc then Suc pos else pos) \<le> i \<and> drop i str = drop i b \<and>
        qdec 0 False (take n b) = take pos str @ qdec q esc (drop i (take n b)))"

lemma take_Suc_update: "pos < length str \<Longrightarrow> take (Suc pos) (str[pos := c]) = take pos str @ [c]"
  by (simp add: take_Suc_conv_app_nth)

lemma decode_body_inv:
  assumes "dec_inv b n i st" "i < n" "n < length b"
  shows "\<exists>st'. decode_body i st = Some st' \<and> dec_inv b n (Suc i) st'"
proof -
  obtain str pos q esc where st: "st = ((str, pos), q, esc)" by (metis prod.exhaust)
  note inv = assms(1) [unfolded dec_inv_def st, simplified]
  have ch: "char_at str i = Some (b ! i)" and d: "drop i (take n b) = b ! i # drop (Suc i) (take n b)"
    and ds: "drop (Suc i) str = drop (Suc i) b" and pos: "pos \<le> i" "i < length str"
  proof -
    show "pos \<le> i" "i < length str" using inv assms(2,3) by (auto split: if_splits)
    moreover have "str ! i = b ! i" using inv assms(2,3) by (metis hd_drop_conv_nth less_trans)
    ultimately show "char_at str i = Some (b ! i)" by (simp add: char_at_def)
    show "drop i (take n b) = b ! i # drop (Suc i) (take n b)"
      using assms(2,3) by (simp add: Cons_nth_drop_Suc [symmetric])
    show "drop (Suc i) str = drop (Suc i) b" using inv by (metis drop_Suc tl_drop)
  qed
  show ?thesis
  proof (cases esc)
    case True
    let ?c = "b ! i" and ?u = "shl_qstr_unescape_char (b ! i)"
    have p: "Suc pos \<le> i" "Suc pos < length str" "pos < length str" using inv True pos by auto
    have q: "qdec 0 False (take n b) = take pos str @ unesc ?c @ qdec q False (drop (Suc i) (take n b))"
      using inv True d by simp
    have ch2: "char_at (str[pos := 92]) i = Some ?c"
      using ch p by (auto simp: char_at_def split: if_splits)
    consider "?u \<noteq> 0" | "?u = 0" "?c = 0" | "?u = 0" "?c \<noteq> 0" by blast
    then show ?thesis
    proof cases
      case 1
      then have "decode_body i st = Some ((str[pos := ?u], Suc pos), q, False)"
        using True ch p by (simp add: st decode_body_def put_Some)
      moreover have "dec_inv b n (Suc i) ((str[pos := ?u], Suc pos), q, False)"
        using 1 q ds inv p by (simp add: dec_inv_def unesc_eq take_Suc_update)
      ultimately show ?thesis by blast
    next
      case 2
      then have "decode_body i st = Some ((str, pos), q, False)"
        using True ch by (simp add: st decode_body_def)
      moreover have "dec_inv b n (Suc i) ((str, pos), q, False)"
        using 2 q ds inv p by (simp add: dec_inv_def unesc_eq)
      ultimately show ?thesis by blast
    next
      case 3
      then have "decode_body i st = Some (((str[pos := 92])[Suc pos := ?c], Suc (Suc pos)), q, False)"
        using True ch ch2 p by (simp add: st decode_body_def put_Some)
      moreover have "take (Suc (Suc pos)) ((str[pos := 92])[Suc pos := ?c]) = take pos str @ [92, ?c]"
        using p by (subst take_Suc_update) (simp_all add: take_Suc_update)
      then have "dec_inv b n (Suc i) (((str[pos := 92])[Suc pos := ?c], Suc (Suc pos)), q, False)"
        using 3 q ds inv p by (simp add: dec_inv_def unesc_eq)
      ultimately show ?thesis by blast
    qed
  next
    case False
    let ?R = "drop (Suc i) (take n b)"
    have p: "pos < length str" "length str = length b" using pos inv by simp_all
    have q: "qdec 0 False (take n b) = take pos str @ qdec q False (b ! i # ?R)"
      using inv False d by simp
    have skip: "dec_inv b n (Suc i) ((str, pos), q', e)"
      if "qdec q False (b ! i # ?R) = qdec q' e ?R" for q' e
      using that q ds p(2) pos by (simp add: dec_inv_def)
    have emit: "dec_inv b n (Suc i) ((str[pos := b ! i], Suc pos), q', False)"
      if "qdec q False (b ! i # ?R) = b ! i # qdec q' False ?R" for q'
      using that q ds p pos by (simp add: dec_inv_def take_Suc_update)
    consider (esc) "b ! i = 92" | (cls) "b ! i \<noteq> 92" "q \<noteq> 0" "b ! i = q" "q = 34 \<or> q = 39"
      | (opn) "q = 0" "b ! i = 34 \<or> b ! i = 39" | (nul) "b ! i = 0"
      | (plain) "b ! i \<noteq> 92" "b ! i \<noteq> 0" "q = 0 \<Longrightarrow> b ! i \<noteq> 34 \<and> b ! i \<noteq> 39"
          "q \<noteq> 0 \<Longrightarrow> \<not> (b ! i = q \<and> (q = 34 \<or> q = 39))"
      by metis
    then show ?thesis
    proof cases
      case esc
      then have "decode_body i st = Some ((str, pos), q, True)" using False ch by (simp add: st decode_body_def)
      then show ?thesis using skip [of q True] esc by simp
    next
      case cls
      then have "decode_body i st = Some ((str, pos), 0, False)" using False ch by (auto simp: st decode_body_def)
      then show ?thesis using skip [of 0 False] cls by simp
    next
      case opn
      then have "decode_body i st = Some ((str, pos), b ! i, False)" using False ch by (auto simp: st decode_body_def)
      then show ?thesis using skip [of "b ! i" False] opn by auto
    next
      case nul
      then have "decode_body i st = Some ((str, pos), q, False)" using False ch by (simp add: st decode_body_def)
      then show ?thesis using skip [of q False] nul by auto
    next
      case plain
      then have "decode_body i st = Some ((str[pos := b ! i], Suc pos), q, False)"
        using False ch put_Some [OF p(1), of "b ! i"] by (auto simp: st decode_body_def)
      moreover have "qdec q False (b ! i # ?R) = b ! i # qdec q False ?R"
        using plain by (cases "q = 0") auto
      ultimately show ?thesis using emit by blast
    qed
  qed
qed

lemma decode_correct:
  assumes "n < length b"
  shows "\<exists>rest. shl_qstr_decode_n b n = Some (qdec 0 False (take n b) @ 0 # rest) \<and>
    length (qdec 0 False (take n b)) \<le> n"
proof -
  have "dec_inv b n 0 ((b, 0), 0, False)" by (simp add: dec_inv_def)
  then obtain st where f: "foldM decode_body [0..<n] ((b, 0), 0, False) = Some st" "dec_inv b n n st"
    using foldM_upt_inv [where P = "dec_inv b n", of "((b, 0), 0, False)" n decode_body] decode_body_inv assms
    by blast
  obtain str pos q esc where st: "st = ((str, pos), q, esc)" by (metis prod.exhaust)
  note inv = f(2) [unfolded dec_inv_def st, simplified]
  define fin where "fin = (if esc then (str[pos := 92], Suc pos) else (str, pos))"
  have fin: "snd fin \<le> n" "length (fst fin) = length b" "take (snd fin) (fst fin) = qdec 0 False (take n b)"
    using inv assms by (auto simp: fin_def take_Suc_update)
  moreover have "(if esc then put 92 (str, pos) else Some (str, pos)) = Some fin"
    using inv assms put_Some [of pos str 92] by (auto simp: fin_def)
  moreover have "length (qdec 0 False (take n b)) \<le> n"
    unfolding fin(3) [symmetric] using fin(1) by simp
  ultimately show ?thesis
    using f(1) assms
    by (auto simp: shl_qstr_decode_n_def st mem_write_single upd_conv_take_nth_drop split: prod.splits)
qed

subsection \<open>Tokens\<close>

lemma qstr_push_correct:
  assumes "strv_inv sv toks" "length toks < 2 ^ 59" "mallocs_ok env (Suc n)"
    "off + n \<le> length str" "n < 2 ^ 59"
  shows "\<exists>sv' r. shl__qstr_push env str sv off n = Some (sv', r) \<and>
    (r = Inl ENOMEM \<and> sv' = sv \<and> (\<exists>z. alloc_fails env z) \<or>
     r = ok \<and> strv_inv sv' (toks @ [qdec 0 False (take n (drop off str))]))"
proof -
  from strv_grow_correct [OF assms(1,2), of env] obtain sv1 r1 where
    g: "strv_grow env sv ((sv_num sv + 2) * 8) = Some (sv1, r1)"
      "r1 = Inl ENOMEM \<and> sv1 = sv \<and> (\<exists>z. alloc_fails env z) \<or>
       r1 = ok \<and> strv_inv sv1 toks \<and> Suc (length toks) < length (sv_slots sv1)" by blast
  from g(2) show ?thesis
  proof
    assume "r1 = Inl ENOMEM \<and> sv1 = sv \<and> (\<exists>z. alloc_fails env z)"
    with g(1) show ?thesis by (auto simp: shl__qstr_push_def)
  next
    assume r1: "r1 = ok \<and> strv_inv sv1 toks \<and> Suc (length toks) < length (sv_slots sv1)"
    let ?t = "take n (drop off str)"
    from token_copy [OF assms(3-5)] obtain ns ns' where ns:
      "malloc_blk env (of_nat n + 1) = Some ns" "memcpy_at ns 0 str off n = Some ns'"
      "mem_write ns' n [0] = Some (?t @ [0])" by blast
    from decode_correct [of n "?t @ [0]"] assms(4) obtain rest where
      "shl_qstr_decode_n (?t @ [0]) n = Some (qdec 0 False ?t @ 0 # rest)" by auto
    moreover have "holds_str (Str (qdec 0 False ?t @ 0 # rest)) (qdec 0 False ?t)" by (simp add: holds_str_def)
    ultimately show ?thesis
      using r1 g(1) ns strv_set_str [of sv1 toks "Str (qdec 0 False ?t @ 0 # rest)" "qdec 0 False ?t"] assms(2)
      by (auto simp: shl__qstr_push_def)
  qed
qed

definition qscan :: "unit \<Rightarrow> u8 \<times> bool \<Rightarrow> u8 \<Rightarrow> (u8 \<times> bool) \<times> bool" where
  "qscan _ st ch =
     (case st of (quoted, escaped) \<Rightarrow>
        if escaped then ((quoted, False), False)
        else if ch = 92 then ((quoted, True), False)
        else if quoted \<noteq> 0 then
          ((if ch = 34 \<and> quoted = 34 \<or> ch = 39 \<and> quoted = 39 then 0 else quoted, False), False)
        else ((quoted, False), ch = 32))"

interpretation qtok: tokenizer shl__qstr_push qscan tokenize_body "qdec 0 False"
proof unfold_locales
  fix i pos :: nat and str :: "u8 list" and env sv and p :: unit and q :: "u8 \<times> bool"
  assume "i < length str"
  then show "tokenize_body env p str i (q, pos, sv) =
    (case qscan p q (str ! i) of (q', s) \<Rightarrow>
       if s \<and> pos \<noteq> i then do {
         (sv, r) \<leftarrow> shl__qstr_push env str sv pos (i - pos);
         Some ((q', if r = ok then Suc i else pos, sv), r) }
       else Some ((q', if s then Suc i else pos, sv), ok))"
    by (cases q) (auto simp: tokenize_body_def qscan_def char_at_def)
qed (rule qstr_push_correct)

text \<open>The tokens of a line: its words between unescaped spaces, decoded.\<close>

definition line_tokens :: "u8 list \<Rightarrow> u8 list list" where
  "line_tokens s = map (qdec 0 False) (scan_tokens (qscan ()) (0, False) [] s)"

lemma tokenize_correct:
  assumes "str = str_or_empty mstr" "unat len \<le> length str" "unat len < 2 ^ 59"
    "mallocs_ok env (Suc (unat len))" "toks = line_tokens (take (unat len) str)"
  shows "\<exists>res. shl_qstr_tokenize_n env mstr len True = Some res \<and>
    (res = Inl ENOMEM \<and> ((\<exists>z. alloc_fails env z) \<or> 2 ^ 31 \<le> length toks) \<or>
     (\<exists>strv. res = Inr (of_nat (length toks), strv) \<and> strv_ok strv toks \<and> length toks < 2 ^ 31))"
proof (cases "malloc_blk env 8")
  case None
  then have "alloc_fails env 8" by (simp add: malloc_blk_def split: if_splits)
  with None show ?thesis by (auto simp: shl_qstr_tokenize_n_def)
next
  case (Some b)
  let ?s = "case mstr of None \<Rightarrow> [0] | Some s \<Rightarrow> s"
  have s: "take (unat len) ?s = take (unat len) str" "unat len \<le> length ?s"
    using assms(1,2) by (auto simp: str_or_empty_def split: option.splits)
  have "toks = map (qdec 0 False) (scan_tokens (qscan ()) (0, False) [] (take (unat len) ?s))"
    using assms(5) s(1) by (simp add: line_tokens_def)
  from qtok.tokenizes [OF s(2) assms(3,4) this strv_inv_init] Some show ?thesis
    by (fastforce simp: shl_qstr_tokenize_n_def)
qed

subsection \<open>Encoding and joining\<close>

definition esc1 :: "u8 \<Rightarrow> u8 list" where
  "esc1 c = (if c = 92 \<or> c = 34 then [92, c] else [c])"

definition needs_quote :: "u8 list \<Rightarrow> bool" where
  "needs_quote s \<longleftrightarrow> list_ex (\<lambda>c. c = 32 \<or> c = 9 \<or> c = 10 \<or> c = 11) s"

definition qenc :: "u8 list \<Rightarrow> u8 list" where
  "qenc s = (if needs_quote s then [34] @ concat (map esc1 s) @ [34] else concat (map esc1 s))"

definition join_spec :: "u8 list list \<Rightarrow> u8 list" where
  "join_spec strv = foldl (\<lambda>line s. if line = [] then qenc s else line @ [32] @ qenc s) [] strv"

lemma length_esc: "length (concat (map esc1 s)) \<le> 2 * length s"
  by (induction s) (auto simp: esc1_def)

lemma length_qenc: "length (qenc s) \<le> 2 * length s + 2"
  using length_esc [of s] by (simp add: qenc_def)

lemma qstr_length_correct:
  assumes "length s < 2 ^ 63"
  shows "shl__qstr_length s = (of_nat (length s), needs_quote s)"
proof -
  have "qstr_length_loop s l nq = (l + of_nat (length s), nq \<or> needs_quote s)" if "unat l + length s < 2 ^ 64" for l nq
    using that
  proof (induction s arbitrary: l nq)
    case (Cons c s)
    then have u: "unat (l + 1) = Suc (unat l)" by (simp add: unat_word_ariths)
    then have "l + 1 \<noteq> 0" by (metis Zero_not_Suc unat_0)
    with Cons u show ?case by (auto simp: Let_def needs_quote_def)
  qed (simp add: needs_quote_def)
  from this [of 0 False] assms show ?thesis by (simp add: shl__qstr_length_def)
qed

text \<open>Writing a list of bytes one by one is one write.\<close>

lemma put_all:
  "pos + length xs \<le> length b \<Longrightarrow> foldM put xs (b, pos) = Some (take pos b @ xs @ drop (pos + length xs) b, pos + length xs)"
proof (induction xs arbitrary: b pos)
  case (Cons x xs)
  then show ?case
    using Cons.IH [of "Suc pos" "b[pos := x]"] by (simp add: put_Some take_Suc_update)
qed simp

lemma encode_char_put: "encode_char c w = foldM put (esc1 c) w"
  by (auto simp: encode_char_def esc1_def split: bind_splits)

lemma foldM_concat: "foldM (\<lambda>x. foldM f (g x)) xs s = foldM f (concat (map g xs)) s"
  by (induction xs arbitrary: s) (auto simp: foldM_append split: bind_splits)

lemma encode_correct:
  assumes "off + length (qenc s) \<le> length b"
  shows "shl__qstr_encode b off s (needs_quote s) =
    Some (take off b @ qenc s @ drop (off + length (qenc s)) b, length (qenc s))"
proof -
  have e: "foldM encode_char s = foldM put (concat (map esc1 s))"
    by (rule ext) (simp add: foldM_concat [symmetric] encode_char_put [abs_def])
  have "shl__qstr_encode b off s (needs_quote s) =
      do { (line, pos) \<leftarrow> foldM put (qenc s) (b, off); Some (line, pos - off) }"
    by (auto simp: shl__qstr_encode_def qenc_def e foldM_append split: bind_splits)
  with put_all [OF assms] show ?thesis by simp
qed

text \<open>Growing the line: with one-byte elements the array variant is the plain one.\<close>

definition join_inv :: "u8 list \<Rightarrow> join_state \<Rightarrow> bool" where
  "join_inv acc st \<longleftrightarrow>
     (case st of (line, sz, len) \<Rightarrow>
        (\<exists>b. line = Some b \<and> length b = unat sz \<and> unat len = length acc \<and> length acc < length b \<and>
             take (length acc) b = acc))"

lemma join_body_correct:
  assumes inv: "join_inv acc st" and len: "2 * length s + length acc + 4 \<le> 2 ^ 63"
  shows "\<exists>st' r. join_body env s st = Some (st', r) \<and>
    (r = Inl ENOMEM \<and> (\<exists>z. alloc_fails env z) \<or>
     r = ok \<and> join_inv (if acc = [] then qenc s else acc @ [32] @ qenc s) st')"
proof -
  obtain b sz ln where st: "st = (Some b, sz, ln)" "length b = unat sz" "unat ln = length acc"
      "length acc < length b" "take (length acc) b = acc"
    using inv by (auto simp: join_inv_def)
  let ?l = "of_nat (length s) :: size_t"
  have ul: "unat ?l = length s" using len by (simp add: unat_of_nat)
  then have u2: "unat (?l * 2) = length s * 2" using len by (simp add: unat_word_ariths)
  then have u3: "unat (?l * 2 + ln) = length s * 2 + length acc" using len st(3) by (simp add: unat_word_ariths)
  then have u4: "unat (?l * 2 + ln + 4) = length s * 2 + length acc + 4" using len by (simp add: unat_word_ariths)
  have guards: "\<not> ?l * 2 < ?l" "\<not> ?l * 2 + ln < ?l * 2" "\<not> ?l * 2 + ln + 4 < ln"
    unfolding word_less_nat_alt ul u2 u3 u4 st(3) by simp_all
  have need: "unat (?l * 2 + ln + 4) \<le> 2 ^ 63" using u4 len by simp
  have ql: "shl__qstr_length s = (?l, needs_quote s)" using len by (intro qstr_length_correct) simp
  have bl: "length (blk (Some b)) = unat sz" using st(2) by simp
  have body: "join_body env s st = do {
      (line, sz, p) \<leftarrow> shl_greedy_realloc env (Some b) sz (?l * 2 + ln + 4);
      case p of
        None \<Rightarrow> Some ((line, sz, ln), Inl ENOMEM)
      | Some _ \<Rightarrow> do {
          (b, pos) \<leftarrow> (if ln \<noteq> 0 then put 32 (blk line, unat ln) else Some (blk line, unat ln));
          (b, n) \<leftarrow> shl__qstr_encode b pos s (needs_quote s);
          Some ((Some b, sz, of_nat pos + of_nat n), ok) } }"
    using guards by (simp add: join_body_def st(1) ql SHL_GREEDY_REALLOC_T_def greedy_realloc_t_one Let_def)
  from greedy_realloc_correct [OF bl need, of env] obtain m2 sz2 p where
    g: "shl_greedy_realloc env (Some b) sz (?l * 2 + ln + 4) = Some (m2, sz2, p)"
      "length (blk m2) = unat sz2" "take (unat sz) (blk m2) = b"
      "?l * 2 + ln + 4 \<le> sz2 \<and> p = m2 \<or> sz < ?l * 2 + ln + 4 \<and> p = None \<and> m2 = Some b \<and> sz2 = sz"
    by auto
  from g(4) show ?thesis
  proof
    assume "?l * 2 + ln + 4 \<le> sz2 \<and> p = m2"
    then have room: "length s * 2 + length acc + 4 \<le> length (blk m2)" and p: "p = m2"
      using u4 g(2) by (simp_all add: word_le_nat_alt)
    then obtain c where c: "m2 = Some c" by (cases m2) auto
    have tc: "take (length acc) c = acc"
      using g(3) st(2,4,5) c by (metis blk_simps'(2) min.strict_order_iff take_take)
    define c1 where "c1 = (if acc = [] then c else c[length acc := 32])"
    define t1 where "t1 = (if acc = [] then acc else acc @ [32])"
    have c1: "(if ln \<noteq> 0 then put 32 (c, unat ln) else Some (c, unat ln)) = Some (c1, length t1)"
      "take (length t1) c1 = t1" "length c1 = length c" "length t1 \<le> Suc (length acc)"
      using st(3) room c tc put_Some [of "length acc" c 32]
      by (auto simp: c1_def t1_def take_Suc_update unat_eq_zero)
    have fit: "length t1 + length (qenc s) < length c1"
      using room c c1(3,4) length_qenc [of s] by simp
    have "length t1 + length (qenc s) < 2 ^ 64" using length_qenc [of s] len c1(4) by simp
    then have "unat (of_nat (length t1) + of_nat (length (qenc s)) :: size_t) = length (t1 @ qenc s)"
      by (simp add: unat_word_ariths unat_of_nat)
    then have "join_inv (t1 @ qenc s) (Some (take (length t1) c1 @ qenc s @ drop (length t1 + length (qenc s)) c1),
        sz2, of_nat (length t1) + of_nat (length (qenc s)))"
      using fit c1 g(2) c by (simp add: join_inv_def)
    moreover have "t1 @ qenc s = (if acc = [] then qenc s else acc @ [32] @ qenc s)" by (simp add: t1_def)
    moreover have "join_body env s st = Some ((Some (take (length t1) c1 @ qenc s @ drop (length t1 + length (qenc s)) c1),
        sz2, of_nat (length t1) + of_nat (length (qenc s))), ok)"
      using encode_correct [OF less_imp_le [OF fit]]
      by (simp only: body g(1) p c c1(1) option.case prod.case blk_simps' bind.bind_lunit)
    ultimately show ?thesis by auto
  next
    assume "sz < ?l * 2 + ln + 4 \<and> p = None \<and> m2 = Some b \<and> sz2 = sz"
    moreover from this have "\<exists>z. alloc_fails env z"
      using g(1) by (cases rule: greedy_realloc_cases [OF need, of sz env "Some b", case_names enough fail grown]) auto
    ultimately show ?thesis using body g(1) by simp
  qed
qed

abbreviation join_step :: "u8 list \<Rightarrow> u8 list \<Rightarrow> u8 list" where
  "join_step \<equiv> \<lambda>line s. if line = [] then qenc s else line @ [32] @ qenc s"

definition join_bound :: "u8 list list \<Rightarrow> nat" where
  "join_bound strv = sum_list (map (\<lambda>s. 2 * length s + 4) strv)"

lemma join_loop_correct:
  assumes "join_inv acc st" "length acc + join_bound strv \<le> 2 ^ 62"
  shows "\<exists>st' r. loop_res (join_body env) strv st = Some (st', r) \<and>
    (r = Inl ENOMEM \<and> (\<exists>z. alloc_fails env z) \<or> r = ok \<and> join_inv (foldl join_step acc strv) st')"
  using assms
proof (induction strv arbitrary: acc st)
  case (Cons s strv)
  let ?t = "join_step acc s"
  have b: "2 * length s + length acc + 4 \<le> 2 ^ 63" "length ?t + join_bound strv \<le> 2 ^ 62"
    using Cons.prems(2) length_qenc [of s] by (auto simp: join_bound_def)
  from join_body_correct [OF Cons.prems(1) b(1), of env] obtain st1 r1 where
    1: "join_body env s st = Some (st1, r1)"
       "r1 = Inl ENOMEM \<and> (\<exists>z. alloc_fails env z) \<or> r1 = ok \<and> join_inv ?t st1" by blast
  from 1(2) show ?case
  proof
    assume "r1 = ok \<and> join_inv ?t st1"
    with Cons.IH [of ?t st1] b(2) 1(1) show ?thesis by simp
  next
    assume "r1 = Inl ENOMEM \<and> (\<exists>z. alloc_fails env z)"
    with 1(1) show ?thesis by (cases st1) simp
  qed
qed simp

lemma scast_int_trunc:
  assumes "unat (n :: size_t) < 2 ^ 63"
  shows "scast (ucast n :: u32) \<noteq> n \<longleftrightarrow> 2 ^ 31 \<le> unat n"
proof -
  have up: "sint (scast (ucast n :: u32) :: size_t) = sint (ucast n :: u32)"
    by (rule sint_up_scast) (simp add: is_up)
  show ?thesis
  proof (cases "unat n < 2 ^ 31")
    case True
    have "sint (ucast n :: u32) = int (unat n)"
      using True sint_eq_unat [of "ucast n :: u32"] by (simp add: unat_ucast_mod)
    moreover have "sint n = int (unat n)" using assms by (intro sint_eq_unat) simp
    ultimately have "scast (ucast n :: u32) = n" using up by (intro signed_word_eqI [where 'a = int]) simp
    with True show ?thesis by simp
  next
    case False
    then have "sint (scast (ucast n :: u32) :: size_t) \<noteq> sint n"
      using int_trunc_less [OF assms] up by simp
    with False show ?thesis by auto
  qed
qed

lemma length_foldl_join: "length (foldl join_step acc strv) \<le> length acc + join_bound strv"
proof (induction strv arbitrary: acc)
  case (Cons s strv)
  have "length (join_step acc s) \<le> length acc + (2 * length s + 4)" using length_qenc [of s] by simp
  then show ?case using Cons.IH [of "join_step acc s"] by (simp add: join_bound_def)
qed (simp add: join_bound_def)

lemma join_correct:
  assumes "join_bound strv \<le> 2 ^ 62" "line = join_spec strv"
  shows "\<exists>res. shl_qstr_join env strv = Some res \<and>
    (res = Inl ENOMEM \<and> ((\<exists>z. alloc_fails env z) \<or> 2 ^ 31 \<le> length line) \<or>
     (\<exists>rest. res = Inr (of_nat (length line), line @ 0 # rest) \<and> length line < 2 ^ 31))"
proof -
  have one: "unat (1 :: size_t) \<le> 2 ^ 63" by simp
  show ?thesis
  proof (cases rule: greedy_realloc_cases [OF one, of 0 env None, case_names enough fail grown])
    case fail
    then show ?thesis by (simp add: shl_qstr_join_def SHL_GREEDY_REALLOC_T_def greedy_realloc_t_one)
  next
    case (grown p k)
    have k: "unat ((2::size_t) ^ k) = 2 ^ k" using grown(2) by (simp add: unat_exp)
    have lp: "length p = 2 ^ k" using length_realloc_blk [OF grown(5)] k by simp
    have w: "mem_write p 0 [0] = Some (p[0 := 0])" using lp by (simp add: mem_write_single)
    have "join_inv [] (Some (p[0 := 0]), 2 ^ k, 0)" using lp k by (auto simp: join_inv_def)
    moreover have "length ([] :: u8 list) + join_bound strv \<le> 2 ^ 62" using assms(1) by simp
    ultimately have "\<exists>st r. loop_res (join_body env) strv (Some (p[0 := 0]), 2 ^ k, 0) = Some (st, r) \<and>
         (r = Inl ENOMEM \<and> (\<exists>z. alloc_fails env z) \<or> r = ok \<and> join_inv line st)"
      unfolding assms(2) join_spec_def by (rule join_loop_correct)
    then obtain st r where l': "loop_res (join_body env) strv (Some (p[0 := 0]), 2 ^ k, 0) = Some (st, r)"
         "r = Inl ENOMEM \<and> (\<exists>z. alloc_fails env z) \<or> r = ok \<and> join_inv line st" by blast
    obtain ln sz len where st: "st = (ln, sz, len)" by (cases st) auto
    note l = l' [unfolded st]
    from l(2) show ?thesis
    proof
      assume "r = Inl ENOMEM \<and> (\<exists>z. alloc_fails env z)"
      with l(1) grown(6) w show ?thesis by (simp add: shl_qstr_join_def SHL_GREEDY_REALLOC_T_def greedy_realloc_t_one)
    next
      assume r: "r = ok \<and> join_inv line (ln, sz, len)"
      then obtain b where b: "ln = Some b" "unat len = length line" "length line < length b" "take (length line) b = line"
        by (auto simp: join_inv_def)
      have "length line \<le> 2 ^ 62"
        using length_foldl_join [of "[]" strv] assms by (simp add: join_spec_def)
      then have "scast (ucast len :: u32) \<noteq> len \<longleftrightarrow> 2 ^ 31 \<le> length line"
        using scast_int_trunc [of len] b(2) by simp
      moreover have "mem_write b (unat len) [0] = Some (line @ 0 # drop (Suc (length line)) b)"
        using b by (simp add: mem_write_single upd_conv_take_nth_drop)
      moreover have "ucast len = (of_nat (length line) :: u32)"
        by (simp add: unsigned_of_nat flip: b(2))
      ultimately show ?thesis
        using l(1) grown(6) w r b(1)
        by (cases "2 ^ 31 \<le> length line") (auto simp: shl_qstr_join_def SHL_GREEDY_REALLOC_T_def greedy_realloc_t_one)
    qed
  qed simp
qed

subsection \<open>Round trips\<close>

lemma qdec_esc:
  assumes "0 \<notin> set s" "q = 34 \<or> q = 0 \<and> 39 \<notin> set s"
  shows "qdec q False (concat (map esc1 s) @ r) = s @ qdec q False r"
  using assms by (induction s) (auto simp: esc1_def unesc_eq shl_qstr_unescape_char_def)

lemma qdec_qenc:
  assumes "0 \<notin> set s" "needs_quote s \<or> 39 \<notin> set s"
  shows "qdec 0 False (qenc s) = s"
  using qdec_esc [of s 34 "[34]"] qdec_esc [of s 0 "[]"] assms by (auto simp: qenc_def)

text \<open>A string that survives joining and tokenizing.\<close>

definition plain_arg :: "u8 list \<Rightarrow> bool" where
  "plain_arg s \<longleftrightarrow> s \<noteq> [] \<and> 0 \<notin> set s \<and> 32 \<notin> set s \<and> (needs_quote s \<or> 39 \<notin> set s)"

lemma scan_esc:
  "32 \<notin> set s \<Longrightarrow>
   scan_tokens (qscan ()) (0, False) cur (concat (map esc1 s) @ r) =
   scan_tokens (qscan ()) (0, False) (cur @ concat (map esc1 s)) r"
  by (induction s arbitrary: cur) (auto simp: esc1_def qscan_def)

lemma scan_qenc:
  "32 \<notin> set s \<Longrightarrow>
   scan_tokens (qscan ()) (0, False) cur (qenc s @ r) = scan_tokens (qscan ()) (0, False) (cur @ qenc s) r"
  using scan_esc [of s "cur @ [34]" "34 # r"] scan_esc [of s cur r] by (auto simp: qenc_def qscan_def)

lemma qenc_Nil_iff: "qenc s = [] \<longleftrightarrow> s = []"
  by (cases s) (auto simp: qenc_def esc1_def needs_quote_def)

lemma scan_rest:
  assumes "list_all plain_arg ss" "cur \<noteq> []"
  shows "scan_tokens (qscan ()) (0, False) cur (concat (map (\<lambda>s. 32 # qenc s) ss)) = cur # map qenc ss"
  using assms
proof (induction ss arbitrary: cur)
  case (Cons s ss)
  then have s: "plain_arg s" "qenc s \<noteq> []" by (auto simp: plain_arg_def qenc_Nil_iff)
  have "scan_tokens (qscan ()) (0, False) cur (32 # qenc s @ r) =
      cur # scan_tokens (qscan ()) (0, False) (qenc s) r" for r
    using scan_qenc [of s "[]" r] s(1) Cons.prems(2) by (simp add: plain_arg_def qscan_def)
  with Cons s(2) show ?case by simp
qed simp

lemma foldl_join_step:
  "line \<noteq> [] \<Longrightarrow> foldl join_step line ss = line @ concat (map (\<lambda>s. 32 # qenc s) ss)"
  by (induction ss arbitrary: line) auto

lemma line_tokens_join:
  assumes "list_all plain_arg strv"
  shows "line_tokens (join_spec strv) = strv"
proof (cases strv)
  case (Cons s ss)
  with assms have s: "plain_arg s" "list_all plain_arg ss" "qenc s \<noteq> []"
    by (auto simp: plain_arg_def qenc_Nil_iff)
  have "join_spec strv = qenc s @ concat (map (\<lambda>s. 32 # qenc s) ss)"
    using foldl_join_step [OF s(3), of ss] by (simp add: join_spec_def Cons)
  then have "scan_tokens (qscan ()) (0, False) [] (join_spec strv) = map qenc strv"
    using scan_qenc [of s "[]"] scan_rest [OF s(2,3)] s(1) Cons by (simp add: plain_arg_def)
  moreover have "map (qdec 0 False) (map qenc strv) = strv"
    using assms by (auto simp: list_all_iff plain_arg_def qdec_qenc intro!: map_idI)
  ultimately show ?thesis by (simp add: line_tokens_def)
qed (simp add: join_spec_def line_tokens_def)

subsection \<open>Properties\<close>

text \<open>
  C19. Decoding in place computes the reference decoder: whatever bytes the token holds, all accesses stay
  in the block, the decoded string is no longer than the token and is terminated by a NUL.
\<close>

theorem decode_in_place:
  assumes "n < length b"
  shows "\<exists>rest. shl_qstr_decode_n b n = Some (qdec 0 False (take n b) @ 0 # rest) \<and>
    length (qdec 0 False (take n b)) \<le> n"
  using assms by (rule decode_correct)

theorem decode_in_place_witness:
  "\<exists>rest. shl_qstr_decode_n [34, 97, 92, 110, 34, 98, 0] 6 = Some ([97, 10, 98] @ 0 # rest)"
proof -
  have "qdec 0 False [34, 97, 92, 110, 34, 98] = [97, 10, 98]" by code_simp
  then show ?thesis using decode_in_place [of 6 "[34, 97, 92, 110, 34, 98, 0]"] by auto
qed

text \<open>
  C20. Under the condition that every request of at most \<open>len + 1\<close> bytes succeeds, a line is cut at its
  unescaped spaces and every word is decoded: the tokenizer returns exactly these tokens as a
  null-terminated vector, or \<^verbatim>\<open>-ENOMEM\<close> because the vector cannot be allocated or grown or the count
  exceeds \<^verbatim>\<open>INT_MAX\<close>. The condition is there because the code does not check the \<^verbatim>\<open>malloc\<close> of a token:
  where that fails it does not return \<^verbatim>\<open>-ENOMEM\<close> but writes through the null pointer
  (\<open>tokenize_malloc_unchecked\<close>).
\<close>

theorem tokenize_cuts_lines:
  assumes "str = str_or_empty mstr" "unat len \<le> length str" "unat len < 2 ^ 59"
    "mallocs_ok env (Suc (unat len))" "toks = line_tokens (take (unat len) str)"
  shows "\<exists>res. shl_qstr_tokenize_n env mstr len True = Some res \<and>
    (res = Inl ENOMEM \<and> ((\<exists>z. alloc_fails env z) \<or> 2 ^ 31 \<le> length toks) \<or>
     (\<exists>strv. res = Inr (of_nat (length toks), strv) \<and> strv_ok strv toks \<and> length toks < 2 ^ 31))"
  using assms by (rule tokenize_correct)

theorem tokenize_cuts_lines_witness:
  "\<exists>strv. shl_qstr_tokenize_n \<lparr>alloc_fails = (\<lambda>_. False), junk = (\<lambda>_. 7)\<rparr> (Some [97, 32, 32, 98, 92, 32, 99]) 7 True =
     Some (Inr (2, strv)) \<and> strv_ok strv [[97], [98, 92, 32, 99]]"
proof -
  let ?env = "\<lparr>alloc_fails = (\<lambda>_. False), junk = (\<lambda>_. 7)\<rparr>"
  have "line_tokens [97, 32, 32, 98, 92, 32, 99] = [[97], [98, 92, 32, 99]]" by code_simp
  moreover have "mallocs_ok ?env 8" by (simp add: mallocs_ok_def list_all_iff)
  ultimately show ?thesis
    using tokenize_cuts_lines [of "[97, 32, 32, 98, 92, 32, 99]" "Some [97, 32, 32, 98, 92, 32, 99]" 7 ?env
        "[[97], [98, 92, 32, 99]]"]
    by (auto simp: str_or_empty_def)
qed

text \<open>
  Quotes do not protect a space: the branches that would open a quote require it to be open already,
  so the line \<^verbatim>\<open>"a b"\<close> gives the two tokens \<^verbatim>\<open>a\<close> and \<^verbatim>\<open>b\<close>.
\<close>

theorem tokenize_ignores_quotes:
  "\<exists>strv. shl_qstr_tokenize \<lparr>alloc_fails = (\<lambda>_. False), junk = (\<lambda>_. 7)\<rparr> (Some [34, 97, 32, 98, 34]) True =
     Some (Inr (2, strv)) \<and> strv_ok strv [[97], [98]]"
proof -
  let ?env = "\<lparr>alloc_fails = (\<lambda>_. False), junk = (\<lambda>_. 7)\<rparr>"
  have "line_tokens [34, 97, 32, 98, 34] = [[97], [98]]" by code_simp
  moreover have "mallocs_ok ?env 6" by (simp add: mallocs_ok_def list_all_iff)
  ultimately show ?thesis
    using tokenize_correct [of "[34, 97, 32, 98, 34]" "Some [34, 97, 32, 98, 34]" 5 ?env "[[97], [98]]"]
    by (auto simp: str_or_empty_def shl_qstr_tokenize_def)
qed

text \<open>
  C21. Joining writes the encoded strings, separated by single spaces, into a buffer that is always large
  enough, terminates it and returns the length; the only failure is \<^verbatim>\<open>-ENOMEM\<close>, when an allocation fails
  or the line is longer than \<^verbatim>\<open>INT_MAX\<close>.
\<close>

theorem join_writes_line:
  assumes "join_bound strv \<le> 2 ^ 62" "line = join_spec strv"
  shows "\<exists>res. shl_qstr_join env strv = Some res \<and>
    (res = Inl ENOMEM \<and> ((\<exists>z. alloc_fails env z) \<or> 2 ^ 31 \<le> length line) \<or>
     (\<exists>rest. res = Inr (of_nat (length line), line @ 0 # rest) \<and> length line < 2 ^ 31))"
  using assms by (rule join_correct)

theorem join_writes_line_witness:
  "\<exists>rest. shl_qstr_join \<lparr>alloc_fails = (\<lambda>_. False), junk = (\<lambda>_. 7)\<rparr> [[97], [98, 9]] = Some (Inr (6, [97, 32, 34, 98, 9, 34, 0] @ rest))"
proof -
  have "join_spec [[97], [98, 9]] = [97, 32, 34, 98, 9, 34]" "join_bound [[97], [98, 9]] = 14" by code_simp+
  then show ?thesis
    using join_writes_line [of "[[97], [98, 9]]" _ "\<lparr>alloc_fails = (\<lambda>_. False), junk = (\<lambda>_. 7)\<rparr>"] by auto
qed

text \<open>
  C22. Joining and tokenizing are inverse on arguments that are not empty, hold no space and no NUL, and no
  single quote (unless another blank makes the encoder quote the argument): with an allocator that
  does not fail, the joined line is cut back into exactly the arguments.
\<close>

theorem join_tokenize_roundtrip:
  assumes "list_all plain_arg strv" "join_bound strv < 2 ^ 31" "\<forall>z. \<not> alloc_fails env z"
  shows "\<exists>n line vec. shl_qstr_join env strv = Some (Inr (n, line)) \<and>
    shl_qstr_tokenize_n env (Some line) (ucast n) True = Some (Inr (of_nat (length strv), vec)) \<and>
    strv_ok vec strv"
proof -
  let ?l = "join_spec strv"
  have bound: "join_bound strv \<le> 2 ^ 62" "length ?l < 2 ^ 31"
    using assms(2) length_foldl_join [of "[]" strv] by (auto simp: join_spec_def)
  have many: "length strv < 2 ^ 31"
    using assms(2) sum_list_mono [of strv "\<lambda>_. 1" "\<lambda>s. 2 * length s + 4"] by (simp add: join_bound_def sum_list_triv)
  obtain rest where j: "shl_qstr_join env strv = Some (Inr (of_nat (length ?l), ?l @ 0 # rest))"
    using join_correct [OF bound(1) refl, of env] assms(3) bound(2) by auto
  have u: "unat (ucast (of_nat (length ?l) :: u32) :: size_t) = length ?l"
    using bound(2) by (simp add: unat_ucast_mod unat_of_nat)
  have m: "mallocs_ok env (Suc (length ?l))" using assms(3) by (simp add: mallocs_ok_def list_all_iff)
  have "take (length ?l) (?l @ 0 # rest) = ?l" by simp
  then have "strv = line_tokens (take (unat (ucast (of_nat (length ?l) :: u32) :: size_t)) (?l @ 0 # rest))"
    using line_tokens_join [OF assms(1)] u by simp
  from tokenize_correct [OF _ _ _ _ this, of "Some (?l @ 0 # rest)" env] assms(3) many u m bound(2) j
  show ?thesis by (fastforce simp: str_or_empty_def)
qed

theorem join_tokenize_roundtrip_witness:
  "\<exists>n line vec. shl_qstr_join \<lparr>alloc_fails = (\<lambda>_. False), junk = (\<lambda>_. 7)\<rparr> [[97, 92], [98, 9, 39]] = Some (Inr (n, line)) \<and>
    shl_qstr_tokenize_n \<lparr>alloc_fails = (\<lambda>_. False), junk = (\<lambda>_. 7)\<rparr> (Some line) (ucast n) True = Some (Inr (2, vec)) \<and>
    strv_ok vec [[97, 92], [98, 9, 39]]"
proof -
  have "list_all plain_arg [[97, 92], [98, 9, 39]]" "join_bound [[97, 92], [98, 9, 39]] = 18" by code_simp+
  then show ?thesis
    using join_tokenize_roundtrip [of "[[97, 92], [98, 9, 39]]" "\<lparr>alloc_fails = (\<lambda>_. False), junk = (\<lambda>_. 7)\<rparr>"]
    by simp
qed

text \<open>
  Outside these arguments the round trip fails: single quotes are not escaped and empty arguments leave no trace, so
  \<^verbatim>\<open>i's\<close> followed by an empty argument comes back as \<^verbatim>\<open>is\<close> alone.
\<close>

lemma join_loses_quote_and_empty:
  "\<exists>n line vec. shl_qstr_join \<lparr>alloc_fails = (\<lambda>_. False), junk = (\<lambda>_. 7)\<rparr> [[105, 39, 115], []] = Some (Inr (n, line)) \<and>
    shl_qstr_tokenize_n \<lparr>alloc_fails = (\<lambda>_. False), junk = (\<lambda>_. 7)\<rparr> (Some line) (ucast n) True = Some (Inr (1, vec)) \<and>
    strv_ok vec [[105, 115]]"
proof -
  let ?env = "\<lparr>alloc_fails = (\<lambda>_. False), junk = (\<lambda>_. 7)\<rparr>" and ?line = "[105, 39, 115, 32] :: u8 list"
  have l: "join_spec [[105, 39, 115], []] = ?line" "join_bound [[105, 39, 115], []] = 14" by code_simp+
  from join_correct [OF _ l(1) [symmetric], of ?env] l(2) obtain rest where
    j: "shl_qstr_join ?env [[105, 39, 115], []] = Some (Inr (4, ?line @ 0 # rest))" by auto
  have "mallocs_ok ?env 5" by (simp add: mallocs_ok_def list_all_iff)
  moreover have "line_tokens ?line = [[105, 115]]" by code_simp
  ultimately show ?thesis
    using tokenize_correct [of "?line @ 0 # rest" "Some (?line @ 0 # rest)" 4 ?env "[[105, 115]]"] j
    by (auto simp: str_or_empty_def)
qed

text \<open>As in the splitter, the copy of a token is not checked for a failed allocation.\<close>

lemma tokenize_malloc_unchecked:
  "shl_qstr_tokenize \<lparr>alloc_fails = (\<lambda>n. n = 2), junk = (\<lambda>_. 7)\<rparr> (Some [97]) True = None"
  by code_simp

end
