(* ===== verification/Shl_Path.thy ===== *)
theory Shl_Path
  imports Shl_Str
begin

text \<open>
  Creating directories (\<^verbatim>\<open>src/shl_util.c\<close>). A path is a C string, the list of its bytes without the
  NUL; 47 is the slash. The system calls are parameters: \<open>stat fs p\<close> is an error or whether \<open>p\<close> is a
  directory, \<open>mkdir fs p mode\<close> is the new file system and the result.
\<close>

type_synonym 'fs stat_call = "'fs \<Rightarrow> u8 list \<Rightarrow> errno + bool"
type_synonym 'fs mkdir_call = "'fs \<Rightarrow> u8 list \<Rightarrow> u32 \<Rightarrow> 'fs \<times> unit res"

definition shl__is_dir :: "'fs stat_call \<Rightarrow> 'fs \<Rightarrow> u8 list \<Rightarrow> errno + bool" where
  "shl__is_dir stat fs path = (case stat fs path of Inl e \<Rightarrow> Inl e | Inr d \<Rightarrow> Inr d)"

text \<open>\<^verbatim>\<open>strspn(s, "/")\<close> and \<^verbatim>\<open>strcspn(s, "/")\<close>\<close>

definition strspn :: "u8 list \<Rightarrow> nat" where
  "strspn s = length (takeWhile (\<lambda>c. c = 47) s)"

definition strcspn :: "u8 list \<Rightarrow> nat" where
  "strcspn s = length (takeWhile (\<lambda>c. c \<noteq> 47) s)"

lemma strspn_le: "strspn s \<le> length s"
  by (simp add: strspn_def length_takeWhile_le)

lemma strcspn_le: "strcspn s \<le> length s"
  by (simp add: strcspn_def length_takeWhile_le)

lemma strspn_nth: "i < strspn s \<Longrightarrow> s ! i = 47"
  by (induction s arbitrary: i) (auto simp: strspn_def nth_Cons' split: if_splits)

lemma strcspn_after_slashes: "drop (strspn s) s = c # t \<Longrightarrow> 0 < strcspn (drop (strspn s) s)"
  by (induction s) (auto simp: strspn_def strcspn_def split: if_splits)

lemma starts_step_less:
  assumes "drop (strspn s) s \<noteq> []"
  shows "length s - (strcspn (drop (strspn s) s) + strspn s) < length s"
proof -
  obtain c t where "drop (strspn s) s = c # t" using assms by (cases "drop (strspn s) s") auto
  then have "0 < strcspn (drop (strspn s) s)" by (rule strcspn_after_slashes)
  moreover have "0 < length s" using assms by auto
  ultimately show ?thesis by linarith
qed

function starts_loop :: "u8 list \<Rightarrow> u8 list \<Rightarrow> u8 list option" where
  "starts_loop path pre =
     (let path = drop (strspn path) path; pre = drop (strspn pre) pre
      in if pre = [] then Some path
         else if path = [] then None
         else let pathl = strcspn path; prefixl = strcspn pre
              in if pathl \<noteq> prefixl \<or> take pathl path \<noteq> take pathl pre then None
                 else starts_loop (drop pathl path) (drop prefixl pre))"
  by pat_completeness auto
termination
  by (relation "measure (\<lambda>(path, pre). length pre)") (use starts_step_less in auto)

declare starts_loop.simps [simp del]

definition is_abs :: "u8 list \<Rightarrow> bool" where
  "is_abs s \<longleftrightarrow> s \<noteq> [] \<and> hd s = 47"

text \<open>The result is the rest of the path.\<close>

definition shl__path_startswith :: "u8 list option \<Rightarrow> u8 list option \<Rightarrow> u8 list option" where
  "shl__path_startswith path pre =
     (case path of
        None \<Rightarrow> None
      | Some path \<Rightarrow>
          (case pre of
             None \<Rightarrow> Some path
           | Some pre \<Rightarrow> if is_abs path \<noteq> is_abs pre then None else starts_loop path pre))"

text \<open>\<^verbatim>\<open>strrchr(path, '/')\<close> as an index\<close>

definition strrchr :: "u8 list \<Rightarrow> nat option" where
  "strrchr s = (if 47 \<in> set s then Some (length s - 1 - strcspn (rev s)) else None)"

lemma parents_step_less:
  assumes "e = p + strcspn (drop p path)" "p' = e + strspn (drop e path)" "p' < length path"
  shows "p < p'"
proof (rule ccontr)
  assume "\<not> p < p'"
  then have "strcspn (drop p path) = 0" "strspn (drop p path) = 0" using assms(1,2) by auto
  moreover have "drop p path \<noteq> []" using assms \<open>\<not> p < p'\<close> by auto
  ultimately show False by (cases "drop p path") (auto simp: strcspn_def strspn_def split: if_splits)
qed

function parents_loop ::
  "'fs mkdir_call \<Rightarrow> u8 list option \<Rightarrow> u8 list \<Rightarrow> u32 \<Rightarrow> nat \<Rightarrow> 'fs \<Rightarrow> 'fs \<times> unit res" where
  "parents_loop mkdir pre path mode p fs =
     (let e = p + strcspn (drop p path); p' = e + strspn (drop e path)
      in if p' \<ge> length path then (fs, ok)
         else let t = take e path
              in if pre \<noteq> None \<and> shl__path_startswith pre (Some t) \<noteq> None
                 then parents_loop mkdir pre path mode p' fs
                 else case mkdir fs t mode of
                        (fs, Inr _) \<Rightarrow> parents_loop mkdir pre path mode p' fs
                      | (fs, Inl errno) \<Rightarrow>
                          if errno \<noteq> EEXIST then (fs, Inl errno)
                          else parents_loop mkdir pre path mode p' fs)"
  by pat_completeness auto
termination
  by (relation "measure (\<lambda>(mkdir, pre, path, mode, p, fs). length path - p)")
    (use parents_step_less in \<open>auto simp: not_le intro!: diff_less_mono2\<close>)

declare parents_loop.simps [simp del]

definition shl__mkdir_parents ::
  "'fs stat_call \<Rightarrow> 'fs mkdir_call \<Rightarrow> u8 list option \<Rightarrow> u8 list option \<Rightarrow> u32 \<Rightarrow> 'fs \<Rightarrow> 'fs \<times> unit res" where
  "shl__mkdir_parents stat mkdir pre path mode fs =
     (if shl__path_startswith path pre = None then (fs, Inl ENOTDIR)
      else case path of
        None \<Rightarrow> (fs, Inl ENOTDIR)
      | Some path \<Rightarrow>
          (case strrchr path of
             None \<Rightarrow> (fs, ok)
           | Some e \<Rightarrow>
               if e = 0 then (fs, ok)
               else case shl__is_dir stat fs (take e path) of
                      Inr True \<Rightarrow> (fs, ok)
                    | Inr False \<Rightarrow> (fs, Inl ENOTDIR)
                    | Inl _ \<Rightarrow> parents_loop mkdir pre path mode (strspn path) fs))"

text \<open>
  \<^verbatim>\<open>errno\<close> is what the last failing call left: a failing \<^verbatim>\<open>stat\<close> overwrites the \<^verbatim>\<open>EEXIST\<close> of \<^verbatim>\<open>mkdir\<close>.
\<close>

definition shl__mkdir_p ::
  "'fs stat_call \<Rightarrow> 'fs mkdir_call \<Rightarrow> u8 list option \<Rightarrow> u8 list option \<Rightarrow> u32 \<Rightarrow> 'fs \<Rightarrow> 'fs \<times> unit res" where
  "shl__mkdir_p stat mkdir pre path mode fs =
     (case shl__mkdir_parents stat mkdir pre path mode fs of
        (fs, Inl e) \<Rightarrow> (fs, Inl e)
      | (fs, Inr _) \<Rightarrow>
          (case path of
             None \<Rightarrow> (fs, Inl EFAULT)
           | Some path \<Rightarrow>
               (case mkdir fs path mode of
                  (fs, Inr _) \<Rightarrow> (fs, ok)
                | (fs, Inl errno) \<Rightarrow>
                    if errno \<noteq> EEXIST then (fs, Inl errno)
                    else case shl__is_dir stat fs path of
                           Inl errno \<Rightarrow> (fs, Inl errno)
                         | Inr d \<Rightarrow> if d then (fs, ok) else (fs, Inl errno))))"

definition shl_mkdir_p ::
  "'fs stat_call \<Rightarrow> 'fs mkdir_call \<Rightarrow> u8 list option \<Rightarrow> u32 \<Rightarrow> 'fs \<Rightarrow> 'fs \<times> unit res" where
  "shl_mkdir_p stat mkdir path mode fs = shl__mkdir_p stat mkdir None path mode fs"

definition shl_mkdir_p_prefix ::
  "'fs stat_call \<Rightarrow> 'fs mkdir_call \<Rightarrow> u8 list option \<Rightarrow> u8 list option \<Rightarrow> u32 \<Rightarrow> 'fs \<Rightarrow> 'fs \<times> unit res" where
  "shl_mkdir_p_prefix stat mkdir pre path mode fs = shl__mkdir_p stat mkdir pre path mode fs"

subsection \<open>Components\<close>

text \<open>The components of a path are its non-empty fields between slashes.\<close>

definition comps :: "u8 list \<Rightarrow> u8 list list" where
  "comps s = split_spec [47] s"

lemma comps_Nil [simp]: "comps [] = []"
  by (simp add: comps_def split_spec_def)

lemma comps_slash [simp]: "comps (47 # s) = comps s"
  by (simp add: comps_def split_spec_def)

lemma comps_slashes: "comps (drop (strspn s) s) = comps s"
  by (induction s) (auto simp: strspn_def)

lemma str_fields_noslash_append:
  "47 \<notin> set w \<Longrightarrow> str_fields [47] (w @ s) = (w @ hd (str_fields [47] s)) # tl (str_fields [47] s)"
  by (induction w) auto

lemma comps_word:
  assumes "47 \<notin> set w" "w \<noteq> []" "s = [] \<or> hd s = 47"
  shows "comps (w @ s) = w # comps s"
  using assms str_fields_noslash_append [of w s] by (cases s) (auto simp: comps_def split_spec_def)

lemma comps_cspn:
  assumes "0 < strcspn s"
  shows "comps s = take (strcspn s) s # comps (drop (strcspn s) s)"
proof -
  let ?w = "takeWhile (\<lambda>c. c \<noteq> 47) s"
  have w: "47 \<notin> set ?w" by (auto dest: set_takeWhileD)
  have ne: "?w \<noteq> []" using assms by (auto simp: strcspn_def)
  have t: "take (strcspn s) s = ?w" "drop (strcspn s) s = dropWhile (\<lambda>c. c \<noteq> 47) s"
    by (simp_all add: strcspn_def takeWhile_eq_take [symmetric] dropWhile_eq_drop)
  have "dropWhile (\<lambda>c. c \<noteq> 47) s = [] \<or> hd (dropWhile (\<lambda>c. c \<noteq> 47) s) = 47"
    using hd_dropWhile [of "\<lambda>c. c \<noteq> 47" s] by auto
  from comps_word [OF w ne this] show ?thesis by (simp add: t)
qed

lemma comps_empty_iff: "comps s = [] \<longleftrightarrow> drop (strspn s) s = []"
proof (cases "drop (strspn s) s")
  case Nil
  then show ?thesis using comps_slashes [of s] by simp
next
  case (Cons c t)
  then show ?thesis
    using comps_cspn [OF strcspn_after_slashes [OF Cons]] comps_slashes [of s] by auto
qed

lemma starts_loop_comps:
  "(case starts_loop path pre of
      None \<Rightarrow> \<not> prefix (comps pre) (comps path)
    | Some rest \<Rightarrow> comps path = comps pre @ comps rest)"
proof (induction path pre rule: starts_loop.induct)
  case (1 path pre)
  let ?p = "drop (strspn path) path" and ?q = "drop (strspn pre) pre"
  note unf = starts_loop.simps [of path pre, unfolded Let_def]
  consider "?q = []" | "?q \<noteq> []" "?p = []" | "?q \<noteq> []" "?p \<noteq> []" by blast
  then show ?case
  proof cases
    case 1
    then show ?thesis using comps_slashes [of path] comps_empty_iff [of pre] unf by simp
  next
    case 2
    then show ?thesis using comps_empty_iff [of path] comps_empty_iff [of pre] unf by simp
  next
    case 3
    let ?n = "strcspn ?p" and ?m = "strcspn ?q"
    from 3 have pos: "0 < ?n" "0 < ?m"
      using strcspn_after_slashes by (metis neq_Nil_conv)+
    have cp: "comps path = take ?n ?p # comps (drop ?n ?p)" and cq: "comps pre = take ?m ?q # comps (drop ?m ?q)"
      using comps_cspn [OF pos(1)] comps_cspn [OF pos(2)] by (simp_all add: comps_slashes)
    show ?thesis
    proof (cases "?n \<noteq> ?m \<or> take ?n ?p \<noteq> take ?n ?q")
      case True
      then have "take ?n ?p \<noteq> take ?m ?q"
        using strcspn_le [of ?p] strcspn_le [of ?q] by (metis length_take min.absorb2)
      with True 3 show ?thesis using unf by (simp add: cp cq)
    next
      case False
      with 3 have "starts_loop path pre = starts_loop (drop ?n ?p) (drop ?m ?q)" using unf by simp
      with 1 [OF refl refl 3 refl refl False] False show ?thesis by (simp add: cp cq split: option.splits)
    qed
  qed
qed

subsection \<open>The directories the parent loop creates\<close>

text \<open>The reference: create a list of directories in order, an existing one is no error.\<close>

primrec mkdir_all :: "'fs mkdir_call \<Rightarrow> u32 \<Rightarrow> u8 list list \<Rightarrow> 'fs \<Rightarrow> 'fs \<times> unit res" where
  "mkdir_all mkdir mode [] fs = (fs, ok)"
| "mkdir_all mkdir mode (t # ts) fs =
     (case mkdir fs t mode of (fs, r) \<Rightarrow>
        if r = ok \<or> r = Inl EEXIST then mkdir_all mkdir mode ts fs else (fs, r))"


function ancestors_from :: "u8 list \<Rightarrow> nat \<Rightarrow> u8 list list" where
  "ancestors_from path p =
     (let e = p + strcspn (drop p path); p' = e + strspn (drop e path)
      in if p' \<ge> length path then [] else take e path # ancestors_from path p')"
  by pat_completeness auto
termination
  by (relation "measure (\<lambda>(path, p). length path - p)")
    (use parents_step_less in \<open>auto simp: not_le intro!: diff_less_mono2\<close>)

declare ancestors_from.simps [simp del]

definition ancestors :: "u8 list \<Rightarrow> u8 list list" where
  "ancestors path = ancestors_from path (strspn path)"

definition covered :: "u8 list option \<Rightarrow> u8 list \<Rightarrow> bool" where
  "covered pre t \<longleftrightarrow> pre \<noteq> None \<and> shl__path_startswith pre (Some t) \<noteq> None"

lemma parents_loop_all:
  "parents_loop mkdir pre path mode p fs =
     mkdir_all mkdir mode (filter (\<lambda>t. \<not> covered pre t) (ancestors_from path p)) fs"
proof (induction mkdir pre path mode p fs rule: parents_loop.induct)
  case (1 mkdir pre path mode p fs)
  let ?e = "p + strcspn (drop p path)"
  let ?p = "?e + strspn (drop ?e path)" and ?t = "take ?e path"
  note unf = parents_loop.simps [of mkdir pre path mode p fs, unfolded Let_def, folded covered_def]
    ancestors_from.simps [of path p, unfolded Let_def]
  show ?case
  proof (cases "length path \<le> ?p")
    case False
    note IH = 1 [OF refl refl False refl, folded covered_def]
    show ?thesis
    proof (cases "covered pre ?t")
      case True
      with False IH(1) unf show ?thesis by simp
    next
      case nc: False
      obtain fs' r where m: "mkdir fs ?t mode = (fs', r)" by fastforce
      show ?thesis
        using IH(2) IH(3) nc False unf m by (cases r) auto
    qed
  qed (simp add: unf)
qed

lemma str_fields_slash: "str_fields [47] (x @ 47 # y) = str_fields [47] x @ str_fields [47] y"
proof (induction x)
  case (Cons c x)
  then show ?case by (cases "str_fields [47] x") auto
qed simp

lemma comps_append_slash: "comps (x @ 47 # y) = comps x @ comps y"
  by (simp add: comps_def split_spec_def str_fields_slash)

lemma comps_append:
  assumes "x = [] \<or> last x = 47 \<or> y = [] \<or> hd y = 47"
  shows "comps (x @ y) = comps x @ comps y"
proof -
  consider "x = []" | x' where "x = x' @ [47]" | "y = []" | y' where "y = 47 # y'"
    using assms by (metis append_butlast_last_id list.collapse)
  then show ?thesis
    by cases (use comps_append_slash in \<open>auto simp: comps_append_slash [of _ "[]", simplified]\<close>)
qed

text \<open>A position where a component starts: the parent loop only stops at such positions.\<close>

definition at_comp :: "u8 list \<Rightarrow> nat \<Rightarrow> bool" where
  "at_comp path p \<longleftrightarrow> p < length path \<and> path ! p \<noteq> 47 \<and> (p = 0 \<or> path ! (p - 1) = 47)"

lemma at_comp_next:
  assumes "at_comp path p" "e = p + strcspn (drop p path)" "p' = e + strspn (drop e path)" "p' < length path"
  shows "at_comp path p'" "comps (take e path) = comps (take p path) @ [take (e - p) (drop p path)]"
    "comps (take p' path) = comps (take e path)" "comps (drop p path) = take (e - p) (drop p path) # comps (drop p' path)"
    "is_abs (take e path) = is_abs path"
proof -
  let ?D = "drop p path"
  have D: "?D = path ! p # drop (Suc p) path" "path ! p \<noteq> 47"
    using assms(1) by (auto simp: at_comp_def Cons_nth_drop_Suc)
  then have n: "0 < strcspn ?D" by (simp add: strcspn_def)
  have e: "p < e" "e - p = strcspn ?D" using n assms(2) by auto
  let ?w = "take (e - p) ?D"
  have w: "?w = takeWhile (\<lambda>c. c \<noteq> 47) ?D" using e(2) by (simp add: strcspn_def takeWhile_eq_take [symmetric])
  have R: "drop e path = dropWhile (\<lambda>c. c \<noteq> 47) ?D" using assms(2) by (simp add: strcspn_def dropWhile_eq_drop add.commute)
  have eR: "e < length path" using assms(3,4) by simp
  then have h1: "drop e path \<noteq> []" by simp
  have h: "drop e path \<noteq> []" "hd (drop e path) = 47"
    using h1 hd_dropWhile [of "\<lambda>c. c \<noteq> 47" ?D] h1 [unfolded R] R by simp_all
  have tp: "take p path = [] \<or> last (take p path) = 47"
    using assms(1) by (cases p) (auto simp: at_comp_def take_Suc_conv_app_nth)
  have te: "take e path = take p path @ ?w"
    using e(1) by (metis add_diff_inverse_nat less_imp_not_less take_add)
  have "47 \<notin> set ?w" "?w \<noteq> []" unfolding w using D by (auto dest: set_takeWhileD)
  then have "comps ?w = [?w]" using comps_word [of ?w "[]"] by simp
  then show ce: "comps (take e path) = comps (take p path) @ [?w]"
    using comps_append [of "take p path" ?w] tp te by auto
  have tp': "take p' path = take e path @ take (strspn (drop e path)) (drop e path)"
    using assms(3) by (simp add: take_add)
  have sl: "take (strspn (drop e path)) (drop e path) = takeWhile (\<lambda>c. c = 47) (drop e path)"
    by (simp add: strspn_def takeWhile_eq_take [symmetric])
  have "comps (takeWhile (\<lambda>c. c = 47) s) = []" for s by (induction s) auto
  moreover have "hd (takeWhile (\<lambda>c. c = 47) (drop e path)) = 47" using h by (cases "drop e path") auto
  ultimately show "comps (take p' path) = comps (take e path)"
    using comps_append [of "take e path" "takeWhile (\<lambda>c. c = 47) (drop e path)"] tp' sl by simp
  have dp': "drop p' path = dropWhile (\<lambda>c. c = 47) (drop e path)"
    using assms(3) by (simp add: strspn_def dropWhile_eq_drop add.commute)
  show "comps ?D = ?w # comps (drop p' path)"
    using comps_cspn [OF n] comps_slashes [of "drop e path"] e assms(2,3) by (simp add: add.commute add.left_commute)
  have "0 < strspn (drop e path)" using h by (cases "drop e path") (auto simp: strspn_def)
  then have pe: "e < p'" "p' - 1 - e < strspn (drop e path)" using assms(3) by auto
  have "drop e path ! (p' - 1 - e) = 47"
    using strspn_nth [OF pe(2)] .
  then have "path ! (p' - 1) = 47" using pe(1) eR by simp
  moreover have "path ! p' \<noteq> 47"
    using dp' hd_dropWhile [of "\<lambda>c. c = 47" "drop e path"] assms(4) by (metis drop_eq_Nil hd_drop_conv_nth not_le)
  ultimately show "at_comp path p'" using assms(4) by (simp add: at_comp_def)
  show "is_abs (take e path) = is_abs path" using e(1) eR by (cases path) (auto simp: is_abs_def take_Cons')
qed

lemma ancestors_comps_from:
  assumes "at_comp path p"
  shows "map comps (ancestors_from path p) =
      map (\<lambda>k. comps (take p path) @ take (Suc k) (comps (drop p path))) [0..<length (comps (drop p path)) - 1]"
    and "\<forall>t \<in> set (ancestors_from path p). is_abs t = is_abs path"
proof -
  have "map comps (ancestors_from path p) =
      map (\<lambda>k. comps (take p path) @ take (Suc k) (comps (drop p path))) [0..<length (comps (drop p path)) - 1] \<and>
    (\<forall>t \<in> set (ancestors_from path p). is_abs t = is_abs path)"
    using assms
  proof (induction path p rule: ancestors_from.induct)
    case (1 path p)
    define e where "e = p + strcspn (drop p path)"
    define p' where "p' = e + strspn (drop e path)"
    note unf = ancestors_from.simps [of path p, unfolded Let_def, folded e_def, folded p'_def]
    show ?case
    proof (cases "length path \<le> p'")
      case True
      then have "comps (drop e path) = []"
        using comps_empty_iff [of "drop e path"] by (simp add: p'_def add.commute)
      moreover have "drop p path = path ! p # drop (Suc p) path" "path ! p \<noteq> 47"
        using "1.prems" by (auto simp: at_comp_def Cons_nth_drop_Suc)
      then have "0 < strcspn (drop p path)" by (simp add: strcspn_def)
      ultimately have "length (comps (drop p path)) = 1"
        using comps_cspn [of "drop p path"] by (simp add: e_def add.commute)
      with True unf show ?thesis by simp
    next
      case False
      then have lt: "p' < length path" by simp
      note nx = at_comp_next [OF "1.prems" e_def p'_def lt]
      have IH: "map comps (ancestors_from path p') =
          map (\<lambda>k. comps (take p' path) @ take (Suc k) (comps (drop p' path))) [0..<length (comps (drop p' path)) - 1]"
        "\<forall>t \<in> set (ancestors_from path p'). is_abs t = is_abs path"
        using "1.IH" [OF e_def p'_def False nx(1)] by auto
      have "comps (drop p' path) \<noteq> []"
        using comps_empty_iff [of "drop p' path"] nx(1) lt
        by (auto simp: at_comp_def strspn_def Cons_nth_drop_Suc [symmetric])
      then obtain m where m: "length (comps (drop p' path)) = Suc m" by (cases "comps (drop p' path)") auto
      have "[0..<Suc m] = 0 # map Suc [0..<m]" by (simp add: map_Suc_upt upt_conv_Cons del: upt_Suc)
      with False unf IH nx m show ?thesis by (simp add: del: upt_Suc)
    qed
  qed
  then show "map comps (ancestors_from path p) =
      map (\<lambda>k. comps (take p path) @ take (Suc k) (comps (drop p path))) [0..<length (comps (drop p path)) - 1]"
    and "\<forall>t \<in> set (ancestors_from path p). is_abs t = is_abs path" by blast+
qed

lemma ancestors_comps:
  "map comps (ancestors path) = map (\<lambda>k. take (Suc k) (comps path)) [0..<length (comps path) - 1]"
  "\<forall>t \<in> set (ancestors path). is_abs t = is_abs path"
proof -
  let ?p = "strspn path"
  have "map comps (ancestors path) = map (\<lambda>k. take (Suc k) (comps path)) [0..<length (comps path) - 1] \<and>
    (\<forall>t \<in> set (ancestors path). is_abs t = is_abs path)"
  proof (cases "?p < length path")
    case True
    have tk: "take ?p path = takeWhile (\<lambda>c. c = 47) path" by (simp add: strspn_def takeWhile_eq_take [symmetric])
    have "comps (takeWhile (\<lambda>c. c = 47) s) = []" for s by (induction s) auto
    then have c0: "comps (take ?p path) = []" by (simp add: tk)
    have "path ! ?p \<noteq> 47" using True nth_length_takeWhile [of "\<lambda>c. c = 47" path] by (simp add: strspn_def)
    moreover have "path ! (?p - 1) = 47" if "?p \<noteq> 0"
      using strspn_nth [of "?p - 1" path] that by simp
    ultimately have "at_comp path ?p" using True by (auto simp: at_comp_def)
    from ancestors_comps_from [OF this] c0 show ?thesis
      by (simp add: ancestors_def comps_slashes)
  next
    case False
    then have "comps path = []" by (simp add: comps_empty_iff)
    moreover have "ancestors path = []"
      using False unfolding ancestors_def by (subst ancestors_from.simps) (simp add: Let_def)
    ultimately show ?thesis by simp
  qed
  then show "map comps (ancestors path) = map (\<lambda>k. take (Suc k) (comps path)) [0..<length (comps path) - 1]"
    "\<forall>t \<in> set (ancestors path). is_abs t = is_abs path" by blast+
qed



subsection \<open>On a file system\<close>

















subsection \<open>Properties\<close>

text \<open>
  C23. The path prefix test compares whole components: a path starts with a prefix exactly when both are
  absolute or both relative and the components of the prefix are the first components of the path,
  however many slashes either holds; the result is the rest of the path.
\<close>

theorem path_startswith_components:
  "case shl__path_startswith (Some path) (Some pre) of
     None \<Rightarrow> \<not> (is_abs path = is_abs pre \<and> prefix (comps pre) (comps path))
   | Some rest \<Rightarrow> is_abs path = is_abs pre \<and> comps path = comps pre @ comps rest"
  using starts_loop_comps [where path = path and pre = pre] by (auto simp: shl__path_startswith_def split: option.splits)

text \<open>
  The parent loop creates, in order, every proper ancestor of the path (the paths made of its first
  components, shortest first) that does not lead to the prefix, and stops at the first error other than
  \<^verbatim>\<open>EEXIST\<close>.
\<close>

theorem mkdir_parents_ancestors:
  "parents_loop mkdir pre path mode (strspn path) fs =
     mkdir_all mkdir mode (filter (\<lambda>t. \<not> covered pre t) (ancestors path)) fs \<and>
   map comps (ancestors path) = map (\<lambda>k. take (Suc k) (comps path)) [0..<length (comps path) - 1]"
  using parents_loop_all [of mkdir pre path mode "strspn path" fs] ancestors_comps(1) [of path]
  by (simp add: ancestors_def)

text \<open>
  C24. When \<^verbatim>\<open>shl_mkdir_p_prefix\<close> reports success the path is a directory, on any file system where a
  successful \<^verbatim>\<open>mkdir\<close> leaves a directory behind.
\<close>

theorem mkdir_p_success:
  assumes "\<forall>fs p m fs'. mkdir fs p m = (fs', ok) \<longrightarrow> stat fs' p = Inr True"
    "shl_mkdir_p_prefix stat mkdir pre (Some path) mode fs = (fs', ok)"
  shows "stat fs' path = Inr True"
  using assms
  by (auto simp: shl_mkdir_p_prefix_def shl__mkdir_p_def shl__is_dir_def split: prod.splits sum.splits if_splits)

text \<open>
  A small file system of directories, each named by its components and kept with its mode. A directory
  is created only below the root, the working directory or one whose owner may write and search it
  (\<open>m AND 0300\<close> in octal); 493 and 320 are the modes 0755 and 0500, 2 and 13 are \<^verbatim>\<open>ENOENT\<close> and \<^verbatim>\<open>EACCES\<close>.
\<close>

type_synonym demo_fs = "(u8 list list \<times> u32) list"

definition demo_stat :: "demo_fs stat_call" where
  "demo_stat fs p = (if comps p \<in> fst ` set fs then Inr True else Inl (OtherErrno 2))"

definition writable :: "u32 \<Rightarrow> bool" where
  "writable m \<longleftrightarrow> m AND 192 = 192"

definition demo_mkdir :: "demo_fs mkdir_call" where
  "demo_mkdir fs p m =
     (if comps p \<in> fst ` set fs then (fs, Inl EEXIST)
      else if comps p = [] then (fs, Inl EEXIST)
      else if length (comps p) = 1 then ((comps p, m) # fs, ok)
      else case map_of fs (butlast (comps p)) of
             None \<Rightarrow> (fs, Inl (OtherErrno 2))
           | Some pm \<Rightarrow> if writable pm then ((comps p, m) # fs, ok) else (fs, Inl (OtherErrno 13)))"

theorem mkdir_p_success_witness:
  "\<exists>fs'. shl_mkdir_p_prefix demo_stat demo_mkdir None (Some [97, 47, 98]) 493 [] = (fs', ok) \<and> demo_stat fs' [97, 47, 98] = Inr True"
proof -
  have "shl_mkdir_p_prefix demo_stat demo_mkdir None (Some [97, 47, 98]) 493 [] = ([([[97], [98]], 493), ([[97]], 493)], ok)" by code_simp
  moreover have "\<forall>fs p m fs'. demo_mkdir fs p m = (fs', ok) \<longrightarrow> demo_stat fs' p = Inr True"
    by (auto simp: demo_mkdir_def demo_stat_def split: if_splits option.splits)
  ultimately show ?thesis using mkdir_p_success [of demo_mkdir demo_stat None "[97, 47, 98]" "493" "[]"] by blast
qed






text \<open>
  The mode counts: directories created without write permission refuse the next one, and the call
  fails half-way.
\<close>

lemma mkdir_p_mode_refused:
  "shl_mkdir_p demo_stat demo_mkdir (Some [97, 47, 98]) 320 [] = ([([[97]], 320)], Inl (OtherErrno 13))"
  by code_simp

end
