(* ===== verification/Shl_Ratelimit.thy ===== *)
theory Shl_Ratelimit
  imports Shl_Prelude
begin

text \<open>
  Time and rate limiting (\<^verbatim>\<open>src/shl_util.c\<close>, \<^verbatim>\<open>src/shl_util.h\<close>). The clock is a parameter: the seconds and
  nanoseconds \<^verbatim>\<open>clock_gettime\<close> stored. The limiter is tested with the time \<^verbatim>\<open>shl_now\<close> returned.
\<close>

definition shl_now :: "64 word \<times> 64 word \<Rightarrow> u64" where
  "shl_now timespec = (case timespec of (tv_sec, tv_nsec) \<Rightarrow> tv_sec * 1000000 + tv_nsec div 1000)"

record shl_ratelimit =
  rl_interval :: u64
  rl_begin :: u64
  rl_burst :: u32
  rl_num :: u32

text \<open>The initialiser lists \<^verbatim>\<open>{ interval, burst, 0, 0 }\<close> in the order of the fields.\<close>

definition SHL_RATELIMIT_DEFINE :: "u64 \<Rightarrow> u32 \<Rightarrow> shl_ratelimit" where
  "SHL_RATELIMIT_DEFINE interval burst =
     \<lparr>rl_interval = interval, rl_begin = ucast burst, rl_burst = 0, rl_num = 0\<rparr>"

definition SHL_RATELIMIT_INIT :: "u64 \<Rightarrow> u32 \<Rightarrow> shl_ratelimit" where
  "SHL_RATELIMIT_INIT interval burst =
     \<lparr>rl_interval = interval, rl_begin = 0, rl_burst = burst, rl_num = 0\<rparr>"

definition SHL_RATELIMIT_RESET :: "shl_ratelimit \<Rightarrow> shl_ratelimit" where
  "SHL_RATELIMIT_RESET r = r\<lparr>rl_num := 0, rl_begin := 0\<rparr>"

definition shl_ratelimit_test :: "(64 word \<times> 64 word) \<Rightarrow> shl_ratelimit option \<Rightarrow> shl_ratelimit option \<times> bool" where
  "shl_ratelimit_test clock r =
     (case r of
        None \<Rightarrow> (r, True)
      | Some r \<Rightarrow>
          if rl_interval r \<le> 0 \<or> rl_burst r \<le> 0 then (Some r, True)
          else let ts = shl_now clock
               in if rl_begin r \<le> 0 \<or> rl_begin r + rl_interval r < ts
                  then (Some (r\<lparr>rl_begin := ts, rl_num := 0 + 1\<rparr>), True)
                  else if rl_num r < rl_burst r then (Some (r\<lparr>rl_num := rl_num r + 1\<rparr>), True)
                  else (Some r, False))"

text \<open>A sequence of tests.\<close>

primrec ratelimit_run :: "(64 word \<times> 64 word) list \<Rightarrow> shl_ratelimit \<Rightarrow> bool list" where
  "ratelimit_run [] r = []"
| "ratelimit_run (c # cs) r =
     (case shl_ratelimit_test c (Some r) of
        (Some r, b) \<Rightarrow> b # ratelimit_run cs r
      | (None, b) \<Rightarrow> [b])"

text \<open>Inside a window that started at \<open>b\<close>, the tests succeed until the burst is used up.\<close>

lemma ratelimit_window:
  assumes "0 < rl_interval r" "0 < rl_burst r" "0 < rl_begin r" "rl_num r \<le> rl_burst r"
    "unat (rl_begin r) + unat (rl_interval r) < 2 ^ 64"
    "\<forall>c \<in> set cs. shl_now c \<le> rl_begin r + rl_interval r"
  shows "ratelimit_run cs r =
    map (\<lambda>i. unat (rl_num r) + i < unat (rl_burst r)) [0..<length cs]"
  using assms
proof (induction cs arbitrary: r)
  case (Cons c cs)
  let ?r = "if rl_num r < rl_burst r then r\<lparr>rl_num := rl_num r + 1\<rparr> else r"
  have t: "shl_ratelimit_test c (Some r) = (Some ?r, rl_num r < rl_burst r)"
    using Cons.prems by (auto simp: shl_ratelimit_test_def Let_def not_less)
  have un: "unat (rl_num r + 1) = Suc (unat (rl_num r))" if "rl_num r < rl_burst r"
    using that by (rule unat_Suc_less)
  have "rl_num ?r \<le> rl_burst ?r"
    using Cons.prems(4) un by (auto simp: word_le_nat_alt word_less_nat_alt)
  with Cons have IH: "ratelimit_run cs ?r = map (\<lambda>i. unat (rl_num ?r) + i < unat (rl_burst r)) [0..<length cs]"
    by auto
  have "[0..<length (c # cs)] = 0 # map Suc [0..<length cs]" by (simp add: map_Suc_upt upt_conv_Cons del: upt_Suc)
  then show ?case
    using t IH un by (auto simp: word_less_nat_alt simp del: upt_Suc)
qed simp

subsection \<open>Properties\<close>

text \<open>
  C26. From the first test on, a limiter set up by \<^verbatim>\<open>SHL_RATELIMIT_INIT\<close> (or reset) lets exactly the first
  \<^verbatim>\<open>burst\<close> tests of an interval pass, whatever their times in it, and rejects the others.
\<close>

theorem ratelimit_burst:
  assumes "0 < interval" "0 < burst" "0 < shl_now c" "unat (shl_now c) + unat interval < 2 ^ 64"
    "\<forall>d \<in> set cs. shl_now d \<le> shl_now c + interval"
  shows "ratelimit_run (c # cs) (SHL_RATELIMIT_INIT interval burst) =
    map (\<lambda>i. i < unat burst) [0..<length (c # cs)]"
proof -
  let ?r = "\<lparr>rl_interval = interval, rl_begin = shl_now c, rl_burst = burst, rl_num = 1\<rparr>"
  have "1 \<le> burst" using assms(2) by (simp add: word_le_nat_alt word_less_nat_alt)
  with assms have "ratelimit_run cs ?r = map (\<lambda>i. 1 + i < unat burst) [0..<length cs]"
    using ratelimit_window [of ?r cs] by simp
  moreover have "shl_ratelimit_test c (Some (SHL_RATELIMIT_INIT interval burst)) = (Some ?r, True)"
    using assms(1,2) by (simp add: shl_ratelimit_test_def SHL_RATELIMIT_INIT_def Let_def word_neq_0_conv)
  moreover have "[0..<length (c # cs)] = 0 # map Suc [0..<length cs]" by (simp add: map_Suc_upt upt_conv_Cons del: upt_Suc)
  moreover have "0 < unat burst" using assms(2) by (simp add: word_less_nat_alt)
  ultimately show ?thesis by (simp del: upt_Suc)
qed

theorem ratelimit_burst_witness:
  "ratelimit_run [(0, 1000), (1, 0), (2, 0)] (SHL_RATELIMIT_INIT 5000000 2) = [True, True, False]"
  using ratelimit_burst [of 5000000 2 "(0, 1000)" "[(1, 0), (2, 0)]"]
  by (simp add: shl_now_def upt_conv_Cons)

text \<open>
  A limiter defined with \<^verbatim>\<open>SHL_RATELIMIT_DEFINE\<close> never limits: the initialiser puts the burst into
  the field \<^verbatim>\<open>begin\<close> and leaves \<^verbatim>\<open>burst\<close> 0, so every test passes.
\<close>

theorem ratelimit_define_never_limits:
  "ratelimit_run cs (SHL_RATELIMIT_DEFINE interval burst) = replicate (length cs) True"
  by (induction cs) (simp_all add: shl_ratelimit_test_def SHL_RATELIMIT_DEFINE_def)

text \<open>
  When the interval has passed the next test succeeds and opens a new window, whatever happened before;
  the number of tests counted never exceeds the burst.
\<close>

theorem ratelimit_recovers:
  assumes "rl_num r \<le> rl_burst r"
  shows "case shl_ratelimit_test c (Some r) of (r', b) \<Rightarrow>
    (\<exists>s. r' = Some s \<and> rl_num s \<le> rl_burst s \<and> rl_burst s = rl_burst r \<and> rl_interval s = rl_interval r) \<and>
    (rl_begin r + rl_interval r < shl_now c \<longrightarrow> b)"
proof -
  have "rl_num r + 1 \<le> rl_burst r" if "rl_num r < rl_burst r"
    using unat_Suc_less [OF that] that by (simp add: word_le_nat_alt word_less_nat_alt)
  moreover have "1 \<le> rl_burst r" if "rl_burst r \<noteq> 0"
    using that by (simp add: word_le_nat_alt unat_gt_0 Suc_le_eq)
  ultimately show ?thesis using assms by (auto simp: shl_ratelimit_test_def Let_def)
qed

theorem ratelimit_recovers_witness:
  "snd (shl_ratelimit_test (9, 0) (Some \<lparr>rl_interval = 5, rl_begin = 7, rl_burst = 1, rl_num = 1\<rparr>))"
  using ratelimit_recovers [of "\<lparr>rl_interval = 5, rl_begin = 7, rl_burst = 1, rl_num = 1\<rparr>" "(9, 0)"]
  by (simp add: shl_now_def split: prod.splits)

end
