(* ===== verification/Shl_Dlist.thy ===== *)
theory Shl_Dlist
  imports Shl_Macro
begin

text \<open>
  The intrusive doubly linked list of \<^verbatim>\<open>src/shl_dlist.h\<close>. The heap maps the address of every list node
  in memory to its two pointers, 0 is null, and a dereference of an address without a node is
  undefined. The iteration macros are functions that return the nodes visited (and the heap, where
  the body of the loop may change it).
\<close>

record shl_dlist =
  d_next :: ptr
  d_prev :: ptr

type_synonym dheap = "ptr \<rightharpoonup> shl_dlist"

definition get_next :: "dheap \<Rightarrow> ptr \<Rightarrow> ptr option" where
  "get_next h p = map_option d_next (h p)"

definition get_prev :: "dheap \<Rightarrow> ptr \<Rightarrow> ptr option" where
  "get_prev h p = map_option d_prev (h p)"

definition set_next :: "ptr \<Rightarrow> ptr \<Rightarrow> dheap \<Rightarrow> dheap option" where
  "set_next p v h = do { n \<leftarrow> h p; Some (h(p \<mapsto> n\<lparr>d_next := v\<rparr>)) }"

definition set_prev :: "ptr \<Rightarrow> ptr \<Rightarrow> dheap \<Rightarrow> dheap option" where
  "set_prev p v h = do { n \<leftarrow> h p; Some (h(p \<mapsto> n\<lparr>d_prev := v\<rparr>)) }"

definition shl_dlist_init :: "ptr \<Rightarrow> dheap \<Rightarrow> dheap option" where
  "shl_dlist_init list h = do { h \<leftarrow> set_next list list h; set_prev list list h }"

definition shl_dlist__link :: "ptr \<Rightarrow> ptr \<Rightarrow> ptr \<Rightarrow> dheap \<Rightarrow> dheap option" where
  "shl_dlist__link prev next n h = do {
     h \<leftarrow> set_prev next n h;
     h \<leftarrow> set_next n next h;
     h \<leftarrow> set_prev n prev h;
     set_next prev n h }"

definition shl_dlist_link :: "ptr \<Rightarrow> ptr \<Rightarrow> dheap \<Rightarrow> dheap option" where
  "shl_dlist_link head n h = do { next \<leftarrow> get_next h head; shl_dlist__link head next n h }"

definition shl_dlist_link_tail :: "ptr \<Rightarrow> ptr \<Rightarrow> dheap \<Rightarrow> dheap option" where
  "shl_dlist_link_tail head n h = do { prev \<leftarrow> get_prev h head; shl_dlist__link prev head n h }"

definition shl_dlist__unlink :: "ptr \<Rightarrow> ptr \<Rightarrow> dheap \<Rightarrow> dheap option" where
  "shl_dlist__unlink prev next h = do { h \<leftarrow> set_prev next prev h; set_next prev next h }"

definition shl_dlist_unlink :: "ptr \<Rightarrow> dheap \<Rightarrow> dheap option" where
  "shl_dlist_unlink e h = do {
     prev \<leftarrow> get_prev h e;
     next \<leftarrow> get_next h e;
     if prev \<noteq> 0 \<and> next \<noteq> 0 then do {
       h \<leftarrow> shl_dlist__unlink prev next h;
       h \<leftarrow> set_prev e 0 h;
       set_next e 0 h }
     else Some h }"

definition shl_dlist_linked :: "dheap \<Rightarrow> ptr \<Rightarrow> bool option" where
  "shl_dlist_linked h e = do { n \<leftarrow> get_next h e; p \<leftarrow> get_prev h e; Some (n \<noteq> 0 \<and> p \<noteq> 0) }"

definition shl_dlist_empty :: "dheap \<Rightarrow> ptr \<Rightarrow> bool option" where
  "shl_dlist_empty h head = do { n \<leftarrow> get_next h head; Some (n = head) }"

definition shl_dlist_first :: "dheap \<Rightarrow> ptr \<Rightarrow> ptr option" where
  "shl_dlist_first h head = get_next h head"

definition shl_dlist_last :: "dheap \<Rightarrow> ptr \<Rightarrow> ptr option" where
  "shl_dlist_last h head = get_prev h head"

text \<open>The objects around the nodes, from the offset of the node in them.\<close>

definition shl_dlist_entry :: "ptr \<Rightarrow> u64 \<Rightarrow> ptr" where
  "shl_dlist_entry p member_offset = shl_container_of p member_offset"

definition shl_dlist_first_entry :: "dheap \<Rightarrow> ptr \<Rightarrow> u64 \<Rightarrow> ptr option" where
  "shl_dlist_first_entry h head member_offset =
     do { p \<leftarrow> shl_dlist_first h head; Some (shl_dlist_entry p member_offset) }"

definition shl_dlist_last_entry :: "dheap \<Rightarrow> ptr \<Rightarrow> u64 \<Rightarrow> ptr option" where
  "shl_dlist_last_entry h head member_offset =
     do { p \<leftarrow> shl_dlist_last h head; Some (shl_dlist_entry p member_offset) }"

subsection \<open>Iteration\<close>

text \<open>The loop of the plain iterators follows \<open>step\<close> until it reaches \<open>stop\<close>.\<close>

partial_function (option) walk :: "(ptr \<Rightarrow> ptr option) \<Rightarrow> ptr \<Rightarrow> ptr \<Rightarrow> ptr list option" where
  "walk step stop iter =
     (if iter = stop then Some []
      else do { iter' \<leftarrow> step iter; rest \<leftarrow> walk step stop iter'; Some (iter # rest) })"

definition shl_dlist_for_each :: "dheap \<Rightarrow> ptr \<Rightarrow> ptr list option" where
  "shl_dlist_for_each h head = do { iter \<leftarrow> get_next h head; walk (get_next h) head iter }"

definition shl_dlist_for_each_reverse :: "dheap \<Rightarrow> ptr \<Rightarrow> ptr list option" where
  "shl_dlist_for_each_reverse h head = do { iter \<leftarrow> get_prev h head; walk (get_prev h) head iter }"

text \<open>One step of the iterators that go around the whole list but one node, skipping the head.\<close>

definition but_one_step :: "(ptr \<Rightarrow> ptr option) \<Rightarrow> ptr \<Rightarrow> ptr \<Rightarrow> ptr \<Rightarrow> ptr option" where
  "but_one_step step start head iter = do {
     n \<leftarrow> step iter;
     if n = head \<and> start \<noteq> head then step n else Some n }"

definition but_one :: "(ptr \<Rightarrow> ptr option) \<Rightarrow> ptr \<Rightarrow> ptr \<Rightarrow> ptr list option" where
  "but_one step start head = do {
     n \<leftarrow> step start;
     iter \<leftarrow> (if n = head then step n else Some n);
     walk (but_one_step step start head) start iter }"

definition shl_dlist_for_each_but_one :: "dheap \<Rightarrow> ptr \<Rightarrow> ptr \<Rightarrow> ptr list option" where
  "shl_dlist_for_each_but_one h start head = but_one (get_next h) start head"

definition shl_dlist_for_each_reverse_but_one :: "dheap \<Rightarrow> ptr \<Rightarrow> ptr \<Rightarrow> ptr list option" where
  "shl_dlist_for_each_reverse_but_one h start head = but_one (get_prev h) start head"

text \<open>
  The safe iterators fetch the successor before the body runs; the body may change the heap.
\<close>

partial_function (option) walk_safe ::
  "(dheap \<Rightarrow> ptr \<Rightarrow> ptr option) \<Rightarrow> (ptr \<Rightarrow> dheap \<Rightarrow> dheap option) \<Rightarrow> ptr \<Rightarrow> ptr \<Rightarrow> ptr \<Rightarrow> dheap \<Rightarrow>
   (ptr list \<times> dheap) option" where
  "walk_safe step body head iter tmp h =
     (if iter = head then Some ([], h)
      else do {
        h \<leftarrow> body iter h;
        tmp' \<leftarrow> step h tmp;
        (rest, h) \<leftarrow> walk_safe step body head tmp tmp' h;
        Some (iter # rest, h) })"

definition shl_dlist_for_each_safe ::
  "(ptr \<Rightarrow> dheap \<Rightarrow> dheap option) \<Rightarrow> ptr \<Rightarrow> dheap \<Rightarrow> (ptr list \<times> dheap) option" where
  "shl_dlist_for_each_safe body head h = do {
     iter \<leftarrow> get_next h head;
     tmp \<leftarrow> get_next h iter;
     walk_safe get_next body head iter tmp h }"

definition shl_dlist_for_each_reverse_safe ::
  "(ptr \<Rightarrow> dheap \<Rightarrow> dheap option) \<Rightarrow> ptr \<Rightarrow> dheap \<Rightarrow> (ptr list \<times> dheap) option" where
  "shl_dlist_for_each_reverse_safe body head h = do {
     iter \<leftarrow> get_prev h head;
     tmp \<leftarrow> get_prev h iter;
     walk_safe get_prev body head iter tmp h }"

declare walk.simps [code] walk_safe.simps [code]

subsection \<open>The list a head represents\<close>

text \<open>\<open>seg h a xs b\<close>: from \<open>a\<close> the next pointers lead through \<open>xs\<close> to \<open>b\<close>, and the prev pointers back.\<close>

fun seg :: "dheap \<Rightarrow> ptr \<Rightarrow> ptr list \<Rightarrow> ptr \<Rightarrow> bool" where
  "seg h a [] b \<longleftrightarrow> get_next h a = Some b \<and> get_prev h b = Some a"
| "seg h a (x # xs) b \<longleftrightarrow> get_next h a = Some x \<and> get_prev h x = Some a \<and> seg h x xs b"

definition dlist :: "dheap \<Rightarrow> ptr \<Rightarrow> ptr list \<Rightarrow> bool" where
  "dlist h head xs \<longleftrightarrow> distinct (head # xs) \<and> 0 \<notin> set (head # xs) \<and> seg h head xs head"

lemma seg_append: "seg h a (xs @ y # ys) b \<longleftrightarrow> seg h a xs y \<and> seg h y ys b"
  by (induction xs arbitrary: a) auto

lemma set_next_Some:
  assumes "p \<in> dom h"
  shows "\<exists>h'. set_next p v h = Some h' \<and> dom h' = dom h \<and>
    get_next h' = (get_next h)(p \<mapsto> v) \<and> get_prev h' = get_prev h"
proof -
  obtain n where n: "h p = Some n" using assms by blast
  then have "set_next p v h = Some (h(p \<mapsto> n\<lparr>d_next := v\<rparr>))" by (simp add: set_next_def)
  moreover have "dom (h(p \<mapsto> n\<lparr>d_next := v\<rparr>)) = dom h" using assms by auto
  moreover have "get_next (h(p \<mapsto> n\<lparr>d_next := v\<rparr>)) = (get_next h)(p \<mapsto> v)"
    "get_prev (h(p \<mapsto> n\<lparr>d_next := v\<rparr>)) = get_prev h"
    using n by (auto simp: get_next_def get_prev_def fun_eq_iff)
  ultimately show ?thesis by blast
qed

lemma set_prev_Some:
  assumes "p \<in> dom h"
  shows "\<exists>h'. set_prev p v h = Some h' \<and> dom h' = dom h \<and>
    get_prev h' = (get_prev h)(p \<mapsto> v) \<and> get_next h' = get_next h"
proof -
  obtain n where n: "h p = Some n" using assms by blast
  then have "set_prev p v h = Some (h(p \<mapsto> n\<lparr>d_prev := v\<rparr>))" by (simp add: set_prev_def)
  moreover have "dom (h(p \<mapsto> n\<lparr>d_prev := v\<rparr>)) = dom h" using assms by auto
  moreover have "get_prev (h(p \<mapsto> n\<lparr>d_prev := v\<rparr>)) = (get_prev h)(p \<mapsto> v)"
    "get_next (h(p \<mapsto> n\<lparr>d_prev := v\<rparr>)) = get_next h"
    using n by (auto simp: get_next_def get_prev_def fun_eq_iff)
  ultimately show ?thesis by blast
qed

text \<open>A segment only depends on the next pointers of its nodes and the prev pointers of their successors.\<close>

lemma seg_cong:
  "(\<And>p. p \<in> set (a # xs) \<Longrightarrow> get_next h' p = get_next h p) \<Longrightarrow>
   (\<And>p. p \<in> set (xs @ [b]) \<Longrightarrow> get_prev h' p = get_prev h p) \<Longrightarrow> seg h' a xs b = seg h a xs b"
  by (induction xs arbitrary: a) auto

lemma get_dom: "get_next h p = Some v \<Longrightarrow> p \<in> dom h" "get_prev h p = Some v \<Longrightarrow> p \<in> dom h"
  by (auto simp: get_next_def get_prev_def)

lemma seg_dom: "seg h a xs b \<Longrightarrow> set (a # xs @ [b]) \<subseteq> dom h"
  by (induction xs arbitrary: a) (auto dest: get_dom)

lemma link_Some:
  assumes "prev \<in> dom h" "next \<in> dom h" "n \<in> dom h"
  shows "\<exists>h'. shl_dlist__link prev next n h = Some h' \<and> dom h' = dom h \<and>
    get_next h' = (get_next h)(n \<mapsto> next, prev \<mapsto> n) \<and> get_prev h' = (get_prev h)(next \<mapsto> n, n \<mapsto> prev)"
proof -
  obtain h1 where 1: "set_prev next n h = Some h1" "dom h1 = dom h" "get_prev h1 = (get_prev h)(next \<mapsto> n)" "get_next h1 = get_next h"
    using set_prev_Some [OF assms(2)] by blast
  obtain h2 where 2: "set_next n next h1 = Some h2" "dom h2 = dom h" "get_next h2 = (get_next h)(n \<mapsto> next)" "get_prev h2 = get_prev h1"
    using set_next_Some [of n h1 "next"] assms(3) 1 by auto
  obtain h3 where 3: "set_prev n prev h2 = Some h3" "dom h3 = dom h" "get_prev h3 = (get_prev h)(next \<mapsto> n, n \<mapsto> prev)" "get_next h3 = get_next h2"
    using set_prev_Some [of n h2 prev] assms(3) 1 2 by auto
  obtain h4 where "set_next prev n h3 = Some h4" "dom h4 = dom h" "get_next h4 = (get_next h2)(prev \<mapsto> n)" "get_prev h4 = get_prev h3"
    using set_next_Some [of prev h3 n] assms(1) 3 by auto
  with 1 2 3 show ?thesis by (simp add: shl_dlist__link_def)
qed

text \<open>Inserting a node between two neighbours of the ring.\<close>

lemma link_seg:
  assumes d: "dlist h head (xs @ ys)" and n: "n \<in> dom h" "n \<notin> set (head # xs @ ys)" "n \<noteq> 0"
    and p: "p = last (head # xs)" and q: "q = hd (ys @ [head])"
  shows "\<exists>h'. shl_dlist__link p q n h = Some h' \<and> dom h' = dom h \<and> dlist h' head (xs @ n # ys) \<and>
    (\<forall>a. a \<notin> set (head # n # xs @ ys) \<longrightarrow> get_next h' a = get_next h a \<and> get_prev h' a = get_prev h a)"
proof -
  have s: "seg h head (xs @ ys) head" and dist: "distinct (head # xs @ ys)" "0 \<notin> set (head # xs @ ys)"
    using d by (auto simp: dlist_def)
  have dom: "p \<in> dom h" "q \<in> dom h" using seg_dom [OF s] p q by (cases xs rule: rev_cases; cases ys; auto)+
  from link_Some [OF dom n(1)] obtain h' where h': "shl_dlist__link p q n h = Some h'" "dom h' = dom h"
    "get_next h' = (get_next h)(n \<mapsto> q, p \<mapsto> n)" "get_prev h' = (get_prev h)(q \<mapsto> n, n \<mapsto> p)" by blast
  have pn: "p \<noteq> n" "q \<noteq> n" using p q n(2) by (cases xs rule: rev_cases; cases ys; auto)+
  have left: "seg h' head xs n"
  proof (cases xs rule: rev_cases)
    case Nil
    then show ?thesis using h' pn p by simp
  next
    case (snoc us u)
    then have "seg h head us u" using s seg_append [of h head us u ys] by simp
    moreover have "seg h' head us u = seg h head us u"
      using h' pn n(2) dist snoc p q by (intro seg_cong) (cases ys; auto)+
    ultimately show ?thesis using snoc h' pn p by (simp add: seg_append)
  qed
  have right: "seg h' n ys head"
  proof (cases ys)
    case Nil
    then show ?thesis using h' pn q by simp
  next
    case (Cons y zs)
    then have "seg h y zs head" using s seg_append [of h head xs y zs] by simp
    moreover have "seg h' y zs head = seg h y zs head"
      using h' pn n(2) dist Cons p q by (intro seg_cong) (cases xs rule: rev_cases; auto)+
    ultimately show ?thesis using Cons h' pn q by simp
  qed
  have "dlist h' head (xs @ n # ys)"
    using left right dist n by (auto simp: dlist_def seg_append)
  moreover have "p \<in> set (head # xs)" "q \<in> set (head # ys)" using p q by (cases xs rule: rev_cases; cases ys; auto)+
  ultimately show ?thesis using h' by auto
qed

text \<open>The ends of the list a head points to.\<close>

lemma seg_ends:
  "seg h a xs b \<Longrightarrow> get_next h a = Some (hd (xs @ [b])) \<and> get_prev h b = Some (last (a # xs))"
  by (induction xs arbitrary: a) auto

lemma dlist_ends:
  assumes "dlist h head xs"
  shows "get_next h head = Some (hd (xs @ [head]))" "get_prev h head = Some (last (head # xs))"
  using assms seg_ends [of h head xs head] by (simp_all add: dlist_def)

lemma dlist_neighbours:
  assumes "dlist h head (xs @ e # ys)"
  shows "get_next h e = Some (hd (ys @ [head]))" "get_prev h e = Some (last (head # xs))"
  using assms seg_ends [of h head xs e] seg_ends [of h e ys head] by (simp_all add: dlist_def seg_append)

text \<open>Removing a node.\<close>

lemma unlink_seg:
  assumes d: "dlist h head (xs @ e # ys)"
  shows "\<exists>h'. shl_dlist_unlink e h = Some h' \<and> dom h' = dom h \<and> dlist h' head (xs @ ys) \<and>
    get_next h' e = Some 0 \<and> get_prev h' e = Some 0 \<and>
    (\<forall>a. a \<notin> set (head # xs @ e # ys) \<longrightarrow> get_next h' a = get_next h a \<and> get_prev h' a = get_prev h a)"
proof -
  let ?p = "last (head # xs)" and ?q = "hd (ys @ [head])"
  have s: "seg h head xs e" "seg h e ys head" and dist: "distinct (head # xs @ e # ys)" "0 \<notin> set (head # xs @ e # ys)"
    using d by (auto simp: dlist_def seg_append)
  have mem: "?p \<in> set (head # xs)" "?q \<in> set (head # ys)" by (cases xs rule: rev_cases; cases ys; simp)+
  then have pq: "?p \<noteq> 0" "?q \<noteq> 0" "?p \<noteq> e" "?q \<noteq> e" using dist by auto
  have dom: "e \<in> dom h" "?p \<in> dom h" "?q \<in> dom h" using seg_dom [OF s(1)] seg_dom [OF s(2)] mem by auto
  obtain h1 where 1: "set_prev ?q ?p h = Some h1" "dom h1 = dom h" "get_prev h1 = (get_prev h)(?q \<mapsto> ?p)" "get_next h1 = get_next h"
    using set_prev_Some [OF dom(3)] by blast
  obtain h2 where 2: "set_next ?p ?q h1 = Some h2" "dom h2 = dom h" "get_next h2 = (get_next h)(?p \<mapsto> ?q)" "get_prev h2 = get_prev h1"
    using set_next_Some [of ?p h1 ?q] dom 1 by auto
  obtain h3 where 3: "set_prev e 0 h2 = Some h3" "dom h3 = dom h" "get_prev h3 = (get_prev h1)(e \<mapsto> 0)" "get_next h3 = get_next h2"
    using set_prev_Some [of e h2 0] dom 1 2 by auto
  obtain h4 where 4: "set_next e 0 h3 = Some h4" "dom h4 = dom h" "get_next h4 = (get_next h2)(e \<mapsto> 0)" "get_prev h4 = get_prev h3"
    using set_next_Some [of e h3 0] dom 1 2 3 by auto
  have nx: "get_next h4 = (get_next h)(?p \<mapsto> ?q, e \<mapsto> 0)" and pv: "get_prev h4 = (get_prev h)(?q \<mapsto> ?p, e \<mapsto> 0)"
    using 1 2 3 4 by simp_all
  have run: "shl_dlist_unlink e h = Some h4"
    using dlist_neighbours [OF d] pq 1 2 3 4 by (simp add: shl_dlist_unlink_def shl_dlist__unlink_def del: last.simps)
  have "seg h4 head (xs @ ys) head"
  proof (cases xs rule: rev_cases)
    case Nil
    show ?thesis
    proof (cases ys)
      case (Cons y zs)
      then have "seg h y zs head" using s(2) by simp
      moreover have "seg h4 y zs head = seg h y zs head"
        unfolding nx pv using Nil Cons dist by (intro seg_cong) (auto simp: nx pv)
      ultimately show ?thesis using Nil Cons nx pv pq by auto
    qed (use Nil nx pv pq in auto)
  next
    case (snoc us u)
    have "seg h head us u" using s(1) snoc by (simp add: seg_append)
    moreover have "seg h4 head us u = seg h head us u"
      using snoc dist nx pv by (intro seg_cong) (cases ys; auto)+
    moreover have "seg h4 u ys head"
    proof (cases ys)
      case (Cons y zs)
      then have "seg h y zs head" using s(2) by simp
      moreover have "seg h4 y zs head = seg h y zs head"
        using snoc Cons dist nx pv by (intro seg_cong) auto
      ultimately show ?thesis using snoc Cons nx pv pq by auto
    qed (use snoc nx pv pq in auto)
    ultimately show ?thesis using snoc by (simp add: seg_append)
  qed
  then have "dlist h4 head (xs @ ys)" using dist by (auto simp: dlist_def)
  with run 4(2) nx pv mem show ?thesis by (auto simp del: last.simps)
qed

subsection \<open>Walking\<close>

fun chain :: "(ptr \<Rightarrow> ptr option) \<Rightarrow> ptr \<Rightarrow> ptr list \<Rightarrow> ptr \<Rightarrow> bool" where
  "chain step a [] b \<longleftrightarrow> step a = Some b"
| "chain step a (x # xs) b \<longleftrightarrow> step a = Some x \<and> chain step x xs b"

lemma chain_append: "chain step a (xs @ y # ys) b \<longleftrightarrow> chain step a xs y \<and> chain step y ys b"
  by (induction xs arbitrary: a) auto

lemma chain_hd: "chain step a xs b \<Longrightarrow> step a = Some (hd (xs @ [b]))"
  by (cases xs) auto

lemma seg_chain: "seg h a xs b \<Longrightarrow> chain (get_next h) a xs b \<and> chain (get_prev h) b (rev xs) a"
  by (induction xs arbitrary: a) (auto simp: chain_append)

lemma walk_chain:
  "chain step a xs stop \<Longrightarrow> stop \<notin> set xs \<Longrightarrow> walk step stop (hd (xs @ [stop])) = Some xs"
proof (induction xs arbitrary: a)
  case (Cons x xs)
  then have "step x = Some (hd (xs @ [stop]))" using chain_hd by auto
  with Cons show ?case by (auto simp: walk.simps [of step stop x])
qed (simp add: walk.simps)

lemma but_one_same:
  assumes "chain step a xs b" "head \<notin> set xs" "b \<noteq> head"
  shows "chain (but_one_step step start head) a xs b"
  using assms by (induction xs arbitrary: a) (auto simp: but_one_step_def)

lemma but_one_around:
  assumes "chain step a xs head" "chain step head ys b" "head \<notin> set (xs @ ys)" "b \<noteq> head" "start \<noteq> head"
  shows "chain (but_one_step step start head) a (xs @ ys) b"
  using assms
proof (induction xs arbitrary: a)
  case Nil
  have b: "but_one_step step start head a = Some (hd (ys @ [b]))"
    using Nil.prems(1,5) chain_hd [OF Nil.prems(2)] by (simp add: but_one_step_def)
  show ?case
  proof (cases ys)
    case (Cons y zs)
    then have "chain (but_one_step step start head) y zs b"
      using but_one_same [of step y zs b head start] Nil.prems by simp
    with b Cons show ?thesis by simp
  qed (use b in simp)
next
  case (Cons x xs)
  then have "but_one_step step start head a = Some x" by (auto simp: but_one_step_def)
  with Cons show ?case by simp
qed

lemma but_one_chain:
  assumes "chain step head (us @ s # vs) head" "distinct (head # us @ s # vs)"
  shows "but_one step s head = Some (vs @ us)"
proof -
  have c: "chain step head us s" "chain step s vs head" using assms(1) by (auto simp: chain_append)
  have "chain (but_one_step step s head) s (vs @ us) s"
    using but_one_around [OF c(2,1)] assms(2) by auto
  from walk_chain [OF this] assms(2)
  have w: "walk (but_one_step step s head) s (hd ((vs @ us) @ [s])) = Some (vs @ us)" by auto
  have "step s = Some (hd (vs @ [head]))" "step head = Some (hd (us @ [s]))" using c chain_hd by auto
  with w assms(2) show ?thesis by (cases vs) (auto simp: but_one_def)
qed

lemma but_one_head:
  assumes "chain step head xs head" "distinct (head # xs)"
  shows "but_one step head head = Some xs"
proof -
  have "but_one_step step head head = step"
    by (rule ext) (simp add: but_one_step_def)
  with assms walk_chain [OF assms(1)] chain_hd [OF assms(1)] show ?thesis
    by (cases xs) (auto simp: but_one_def)
qed

lemma drain_safe:
  assumes "dlist h head xs" "get_next h (hd (xs @ [head])) = Some t"
  shows "\<exists>h'. walk_safe get_next shl_dlist_unlink head (hd (xs @ [head])) t h = Some (xs, h') \<and> dlist h' head [] \<and>
    (\<forall>x \<in> set xs. get_next h' x = Some 0 \<and> get_prev h' x = Some 0) \<and>
    (\<forall>a. a \<notin> set (head # xs) \<longrightarrow> get_next h' a = get_next h a \<and> get_prev h' a = get_prev h a)"
  using assms
proof (induction xs arbitrary: h t)
  case Nil
  then show ?case by (simp add: walk_safe.simps)
next
  case (Cons x xs)
  have t: "t = hd (xs @ [head])" using dlist_neighbours(1) [of h head "[]" x xs] Cons.prems by simp
  have x: "x \<noteq> head" "x \<notin> set xs" using Cons.prems(1) by (auto simp: dlist_def)
  from unlink_seg [of h head "[]" x xs] Cons.prems(1) obtain h1 where
    1: "shl_dlist_unlink x h = Some h1" "dlist h1 head xs" "get_next h1 x = Some 0" "get_prev h1 x = Some 0"
       "\<forall>a. a \<notin> set (head # x # xs) \<longrightarrow> get_next h1 a = get_next h a \<and> get_prev h1 a = get_prev h a" by auto
  have "get_next h1 t \<noteq> None"
  proof (cases xs)
    case Nil
    then show ?thesis using t dlist_ends(1) [OF 1(2)] by simp
  next
    case (Cons y ys)
    then show ?thesis using t dlist_neighbours(1) [of h1 head "[]" y ys] 1(2) by simp
  qed
  then obtain t' where t': "get_next h1 t = Some t'" by blast
  from Cons.IH [OF 1(2)] t t' obtain h2 where
    2: "walk_safe get_next shl_dlist_unlink head t t' h1 = Some (xs, h2)" "dlist h2 head []"
       "\<forall>x \<in> set xs. get_next h2 x = Some 0 \<and> get_prev h2 x = Some 0"
       "\<forall>a. a \<notin> set (head # xs) \<longrightarrow> get_next h2 a = get_next h1 a \<and> get_prev h2 a = get_prev h1 a" by blast
  have "walk_safe get_next shl_dlist_unlink head x t h = Some (x # xs, h2)"
    using x(1) 1(1) t' 2(1) by (subst walk_safe.simps) simp
  with 1 2 x show ?case by auto
qed

text \<open>
  A body of the safe iterators that unlinks the nodes it is told to and leaves the others alone. Both
  directions keep the nodes that were left.
\<close>

definition unlink_if :: "(ptr \<Rightarrow> bool) \<Rightarrow> ptr \<Rightarrow> dheap \<Rightarrow> dheap option" where
  "unlink_if rm x h = (if rm x then shl_dlist_unlink x h else Some h)"

lemma dlist_linked_dom:
  assumes "dlist h head xs" "x \<in> set (head # xs)"
  obtains n p where "get_next h x = Some n" "get_prev h x = Some p"
  using assms dlist_ends [OF assms(1)] dlist_neighbours [of h head _ x] by (metis set_ConsD split_list)

lemma unlink_if_step:
  assumes "dlist h head (us @ x # ys)"
  obtains h' where "unlink_if rm x h = Some h'" "dlist h' head (us @ (if rm x then ys else x # ys))"
  using assms unlink_seg [OF assms] that by (cases "rm x") (auto simp: unlink_if_def)

lemma walk_safe_next:
  assumes "dlist h head (us @ xs)" "get_next h (hd (xs @ [head])) = Some t"
  shows "\<exists>h'. walk_safe get_next (unlink_if rm) head (hd (xs @ [head])) t h = Some (xs, h') \<and>
    dlist h' head (us @ filter (\<lambda>x. \<not> rm x) xs)"
  using assms
proof (induction xs arbitrary: h t us)
  case Nil
  then show ?case by (simp add: walk_safe.simps)
next
  case (Cons x xs)
  have t: "t = hd (xs @ [head])" and x: "x \<noteq> head"
    using dlist_neighbours(1) [OF Cons.prems(1)] Cons.prems by (auto simp: dlist_def)
  from unlink_if_step [OF Cons.prems(1)] obtain h1 where
    1: "unlink_if rm x h = Some h1" "dlist h1 head (us @ (if rm x then xs else x # xs))" .
  let ?us = "us @ (if rm x then [] else [x])"
  have d: "dlist h1 head (?us @ xs)" using 1(2) by (simp split: if_splits)
  have "t \<in> set (head # ?us @ xs)" using t by (cases xs) auto
  from dlist_linked_dom [OF d this] obtain t' where t': "get_next h1 t = Some t'" .
  with Cons.IH [OF d] t obtain h2 where
    2: "walk_safe get_next (unlink_if rm) head t t' h1 = Some (xs, h2)" "dlist h2 head (?us @ filter (\<lambda>x. \<not> rm x) xs)" by blast
  then have "walk_safe get_next (unlink_if rm) head x t h = Some (x # xs, h2)"
    using x 1(1) t' by (subst walk_safe.simps) simp
  with 2(2) show ?case by (simp split: if_splits)
qed

lemma walk_safe_prev:
  assumes "dlist h head (rev xs @ us)" "get_prev h (hd (xs @ [head])) = Some t"
  shows "\<exists>h'. walk_safe get_prev (unlink_if rm) head (hd (xs @ [head])) t h = Some (xs, h') \<and>
    dlist h' head (rev (filter (\<lambda>x. \<not> rm x) xs) @ us)"
  using assms
proof (induction xs arbitrary: h t us)
  case Nil
  then show ?case by (simp add: walk_safe.simps)
next
  case (Cons x xs)
  then have p: "dlist h head (rev xs @ x # us)" by simp
  have t: "t = hd (xs @ [head])" and x: "x \<noteq> head"
    using dlist_neighbours(2) [OF p] Cons.prems by (cases xs; auto simp: dlist_def)+
  from unlink_if_step [OF p] obtain h1 where
    1: "unlink_if rm x h = Some h1" "dlist h1 head (rev xs @ (if rm x then us else x # us))" .
  let ?us = "if rm x then us else x # us"
  have "t \<in> set (head # rev xs @ ?us)" using t by (cases xs) auto
  from dlist_linked_dom [OF 1(2) this] obtain t' where t': "get_prev h1 t = Some t'" .
  with Cons.IH [OF 1(2)] t obtain h2 where
    2: "walk_safe get_prev (unlink_if rm) head t t' h1 = Some (xs, h2)" "dlist h2 head (rev (filter (\<lambda>x. \<not> rm x) xs) @ ?us)" by blast
  then have "walk_safe get_prev (unlink_if rm) head x t h = Some (x # xs, h2)"
    using x 1(1) t' by (subst walk_safe.simps) simp
  with 2(2) show ?case by (simp split: if_splits)
qed

lemma for_each_safe_filter:
  assumes "dlist h head xs"
  shows "\<exists>h'. shl_dlist_for_each_safe (unlink_if rm) head h = Some (xs, h') \<and> dlist h' head (filter (\<lambda>x. \<not> rm x) xs)"
    "\<exists>h'. shl_dlist_for_each_reverse_safe (unlink_if rm) head h = Some (rev xs, h') \<and> dlist h' head (filter (\<lambda>x. \<not> rm x) xs)"
proof -
  have "hd (xs @ [head]) \<in> set (head # xs)" by (cases xs) auto
  from dlist_linked_dom [OF assms this] obtain t where t: "get_next h (hd (xs @ [head])) = Some t" .
  then show "\<exists>h'. shl_dlist_for_each_safe (unlink_if rm) head h = Some (xs, h') \<and> dlist h' head (filter (\<lambda>x. \<not> rm x) xs)"
    using walk_safe_next [of h head "[]" xs t rm] assms dlist_ends(1) [OF assms] by (simp add: shl_dlist_for_each_safe_def)
  have r: "hd (rev xs @ [head]) = last (head # xs)" by (cases xs rule: rev_cases) auto
  then have "hd (rev xs @ [head]) \<in> set (head # xs)" by (metis last_in_set list.distinct(1))
  from dlist_linked_dom [OF assms this] obtain t where t: "get_prev h (hd (rev xs @ [head])) = Some t" .
  with r show "\<exists>h'. shl_dlist_for_each_reverse_safe (unlink_if rm) head h = Some (rev xs, h') \<and> dlist h' head (filter (\<lambda>x. \<not> rm x) xs)"
    using walk_safe_prev [of h head "rev xs" "[]" t rm] assms dlist_ends(2) [OF assms]
    by (simp add: shl_dlist_for_each_reverse_safe_def rev_filter del: last.simps)
qed

subsection \<open>Sequences of operations\<close>

datatype dop = Link ptr | LinkTail ptr | Unlink ptr

primrec dlist_op :: "ptr \<Rightarrow> dop \<Rightarrow> dheap \<Rightarrow> dheap option" where
  "dlist_op head (Link n) h = shl_dlist_link head n h"
| "dlist_op head (LinkTail n) h = shl_dlist_link_tail head n h"
| "dlist_op head (Unlink n) h = shl_dlist_unlink n h"

text \<open>What the operations mean on the sequence of nodes, and when a caller may use them.\<close>

primrec seq_op :: "dop \<Rightarrow> ptr list \<Rightarrow> ptr list" where
  "seq_op (Link n) xs = n # xs"
| "seq_op (LinkTail n) xs = xs @ [n]"
| "seq_op (Unlink n) xs = remove1 n xs"

primrec op_allowed :: "dop \<Rightarrow> ptr list \<Rightarrow> ptr list \<Rightarrow> bool" where
  "op_allowed (Link n) nodes xs \<longleftrightarrow> n \<in> set nodes \<and> n \<notin> set xs"
| "op_allowed (LinkTail n) nodes xs \<longleftrightarrow> n \<in> set nodes \<and> n \<notin> set xs"
| "op_allowed (Unlink n) nodes xs \<longleftrightarrow> n \<in> set nodes"

primrec seq_run :: "dop list \<Rightarrow> ptr list \<Rightarrow> ptr list" where
  "seq_run [] xs = xs"
| "seq_run (op # ops) xs = seq_run ops (seq_op op xs)"

primrec run_allowed :: "dop list \<Rightarrow> ptr list \<Rightarrow> ptr list \<Rightarrow> bool" where
  "run_allowed [] nodes xs \<longleftrightarrow> True"
| "run_allowed (op # ops) nodes xs \<longleftrightarrow> op_allowed op nodes xs \<and> run_allowed ops nodes (seq_op op xs)"

text \<open>The nodes a program owns: each is in the list or unlinked (both pointers null).\<close>

definition dworld :: "ptr \<Rightarrow> ptr list \<Rightarrow> dheap \<Rightarrow> ptr list \<Rightarrow> bool" where
  "dworld head nodes h xs \<longleftrightarrow>
     dlist h head xs \<and> set xs \<subseteq> set nodes \<and> head \<notin> set nodes \<and> 0 \<notin> set nodes \<and>
     list_all (\<lambda>n. n \<in> set xs \<or> get_next h n = Some 0 \<and> get_prev h n = Some 0) nodes"

lemma dworld_step:
  assumes "dworld head nodes h xs" "dlist h' head ys" "set ys \<subseteq> set nodes"
    "\<And>n. n \<in> set nodes \<Longrightarrow> n \<notin> set ys \<Longrightarrow> n \<in> set xs \<Longrightarrow> get_next h' n = Some 0 \<and> get_prev h' n = Some 0"
    "\<And>n. n \<in> set nodes \<Longrightarrow> n \<notin> set ys \<Longrightarrow> n \<notin> set xs \<Longrightarrow> get_next h' n = get_next h n \<and> get_prev h' n = get_prev h n"
  shows "dworld head nodes h' ys"
  unfolding dworld_def list_all_iff
proof (intro conjI ballI)
  fix n assume n: "n \<in> set nodes"
  show "n \<in> set ys \<or> get_next h' n = Some 0 \<and> get_prev h' n = Some 0"
    using assms(1,4,5) n by (cases "n \<in> set xs") (auto simp: dworld_def list_all_iff)
qed (use assms(1-3) in \<open>auto simp: dworld_def\<close>)

lemma dlist_op_correct:
  assumes w: "dworld head nodes h xs" and a: "op_allowed op nodes xs"
  shows "\<exists>h'. dlist_op head op h = Some h' \<and> dworld head nodes h' (seq_op op xs)"
proof -
  have d: "dlist h head xs" and nd: "set xs \<subseteq> set nodes" "head \<notin> set nodes" "0 \<notin> set nodes"
    and un: "\<And>n. n \<in> set nodes \<Longrightarrow> n \<notin> set xs \<Longrightarrow> get_next h n = Some 0 \<and> get_prev h n = Some 0"
    using w by (auto simp: dworld_def list_all_iff)
  show ?thesis
  proof (cases op)
    case (Link n)
    with a un nd have n: "n \<in> dom h" "n \<notin> set (head # [] @ xs)" "n \<noteq> 0" by (auto dest: get_dom)
    from link_seg [of h head "[]" xs n, OF _ n refl refl] d obtain h' where
      "shl_dlist__link head (hd (xs @ [head])) n h = Some h'" "dlist h' head (n # xs)"
      "\<forall>a. a \<notin> set (head # n # xs) \<longrightarrow> get_next h' a = get_next h a \<and> get_prev h' a = get_prev h a" by auto
    moreover from this have "dworld head nodes h' (n # xs)"
      using a Link nd by (intro dworld_step [OF w]) auto
    ultimately show ?thesis using dlist_ends(1) [OF d] Link by (simp add: shl_dlist_link_def)
  next
    case (LinkTail n)
    with a un nd have n: "n \<in> dom h" "n \<notin> set (head # xs @ [])" "n \<noteq> 0" by (auto dest: get_dom)
    from link_seg [of h head xs "[]" n, OF _ n refl refl] d obtain h' where
      "shl_dlist__link (last (head # xs)) head n h = Some h'" "dlist h' head (xs @ [n])"
      "\<forall>a. a \<notin> set (head # n # xs) \<longrightarrow> get_next h' a = get_next h a \<and> get_prev h' a = get_prev h a" by auto
    moreover from this have "dworld head nodes h' (xs @ [n])"
      using a LinkTail nd by (intro dworld_step [OF w]) auto
    ultimately show ?thesis
      using dlist_ends(2) [OF d] LinkTail by (simp add: shl_dlist_link_tail_def del: last.simps)
  next
    case (Unlink n)
    show ?thesis
    proof (cases "n \<in> set xs")
      case True
      then obtain us vs where x: "xs = us @ n # vs" "n \<notin> set us" by (meson split_list_first)
      then have r: "remove1 n xs = us @ vs" by (simp add: remove1_append)
      from unlink_seg [of h head us n vs] d x obtain h' where
        "shl_dlist_unlink n h = Some h'" "dlist h' head (us @ vs)" "get_next h' n = Some 0" "get_prev h' n = Some 0"
        "\<forall>a. a \<notin> set (head # us @ n # vs) \<longrightarrow> get_next h' a = get_next h a \<and> get_prev h' a = get_prev h a" by auto
      moreover from this have "dworld head nodes h' (us @ vs)"
        using x nd by (intro dworld_step [OF w]) auto
      ultimately show ?thesis using Unlink r by simp
    next
      case False
      then have "shl_dlist_unlink n h = Some h" using Unlink a un by (simp add: shl_dlist_unlink_def)
      with Unlink False w show ?thesis by (simp add: remove1_idem)
    qed
  qed
qed

subsection \<open>Properties\<close>

text \<open>
  C27. The list implements a sequence: starting from an initialised head and unlinked nodes, every sequence
  of link, link-tail and unlink operations (unlinking an unlinked node included, linking only unlinked
  ones) runs without a bad dereference, and the ring of pointers is the sequence the operations
  describe, in both directions; first, last and the empty test read it.
\<close>

theorem dlist_implements_sequence:
  assumes "dworld head nodes h xs" "run_allowed ops nodes xs" "ys = seq_run ops xs"
  shows "\<exists>h'. foldM (dlist_op head) ops h = Some h' \<and> dworld head nodes h' ys \<and>
    shl_dlist_first h' head = Some (hd (ys @ [head])) \<and> shl_dlist_last h' head = Some (last (head # ys)) \<and>
    shl_dlist_empty h' head = Some (ys = [])"
proof -
  have "\<exists>h'. foldM (dlist_op head) ops h = Some h' \<and> dworld head nodes h' ys"
    using assms
  proof (induction ops arbitrary: h xs)
    case (Cons op ops)
    then obtain h1 where "dlist_op head op h = Some h1" "dworld head nodes h1 (seq_op op xs)"
      using dlist_op_correct [of head nodes h xs op] by auto
    with Cons show ?case by auto
  qed auto
  then obtain h' where h': "foldM (dlist_op head) ops h = Some h'" "dworld head nodes h' ys" by blast
  then have d: "dlist h' head ys" by (simp add: dworld_def)
  then have "(hd (ys @ [head]) = head) = (ys = [])" by (cases ys) (auto simp: dlist_def)
  with h' dlist_ends [OF d] show ?thesis
    by (simp add: shl_dlist_first_def shl_dlist_last_def shl_dlist_empty_def del: last.simps)
qed

theorem dlist_implements_sequence_witness:
  "\<exists>h'. foldM (dlist_op 8) [LinkTail 16, Link 24, Unlink 16] [8 \<mapsto> \<lparr>d_next = 8, d_prev = 8\<rparr>, 16 \<mapsto> \<lparr>d_next = 0, d_prev = 0\<rparr>,
      24 \<mapsto> \<lparr>d_next = 0, d_prev = 0\<rparr>] = Some h' \<and> shl_dlist_first h' 8 = Some 24 \<and> shl_dlist_last h' 8 = Some 24"
proof -
  let ?h = "[8 \<mapsto> \<lparr>d_next = 8, d_prev = 8\<rparr>, 16 \<mapsto> \<lparr>d_next = 0, d_prev = 0\<rparr>, 24 \<mapsto> \<lparr>d_next = 0, d_prev = 0\<rparr>] :: dheap"
  have w: "dworld 8 [16, 24] ?h []" by (simp add: dworld_def dlist_def get_next_def get_prev_def)
  have "run_allowed [LinkTail 16, Link 24, Unlink 16] [16, 24] []"
    "[24] = seq_run [LinkTail 16, Link 24, Unlink 16] []" by simp_all
  from dlist_implements_sequence [OF w this] obtain h' where
    h': "foldM (dlist_op 8) [LinkTail 16, Link 24, Unlink 16] ?h = Some h'"
      "shl_dlist_first h' 8 = Some (hd ([24] @ [8]))" "shl_dlist_last h' 8 = Some (last [8, 24])" by blast
  show ?thesis
  proof (intro exI conjI)
    show "foldM (dlist_op 8) [LinkTail 16, Link 24, Unlink 16] ?h = Some h'" by (rule h'(1))
  qed (use h'(2,3) in simp_all)
qed

text \<open>
  C28. All eight iterators terminate on every consistent list, the empty one included. The plain ones visit
  every node once, forwards or backwards. The ones that leave out one node go around the ring from the
  given node to every other node once, in either direction, skipping the head; started at the head they
  visit every node. The safe ones visit every node once, forwards or backwards, while the body unlinks
  any of the nodes it is given, and leave the list of the nodes that were not unlinked.
\<close>

theorem dlist_iterates:
  assumes "dlist h head xs"
  shows "shl_dlist_for_each h head = Some xs \<and> shl_dlist_for_each_reverse h head = Some (rev xs) \<and>
    (\<forall>us s vs. xs = us @ s # vs \<longrightarrow>
       shl_dlist_for_each_but_one h s head = Some (vs @ us) \<and>
       shl_dlist_for_each_reverse_but_one h s head = Some (rev us @ rev vs)) \<and>
    shl_dlist_for_each_but_one h head head = Some xs \<and>
    shl_dlist_for_each_reverse_but_one h head head = Some (rev xs) \<and>
    (\<forall>rm. \<exists>h'. shl_dlist_for_each_safe (unlink_if rm) head h = Some (xs, h') \<and>
       dlist h' head (filter (\<lambda>x. \<not> rm x) xs)) \<and>
    (\<forall>rm. \<exists>h'. shl_dlist_for_each_reverse_safe (unlink_if rm) head h = Some (rev xs, h') \<and>
       dlist h' head (filter (\<lambda>x. \<not> rm x) xs))"
proof -
  have d: "distinct (head # xs)" "seg h head xs head" using assms by (auto simp: dlist_def)
  have c: "chain (get_next h) head xs head" "chain (get_prev h) head (rev xs) head"
    using seg_chain [OF d(2)] by auto
  have "but_one (get_prev h) s head = Some (rev us @ rev vs) \<and> but_one (get_next h) s head = Some (vs @ us)"
    if xs: "xs = us @ s # vs" for us s vs
  proof -
    have "chain (get_prev h) head (rev vs @ s # rev us) head" using c(2) xs by simp
    from but_one_chain [OF this] but_one_chain [of "get_next h" head us s vs] c(1) d(1) xs show ?thesis by auto
  qed
  moreover have "but_one (get_next h) head head = Some xs" "but_one (get_prev h) head head = Some (rev xs)"
    using but_one_head [OF c(1) d(1)] but_one_head [OF c(2)] d(1) by auto
  moreover have "shl_dlist_for_each h head = Some xs" "shl_dlist_for_each_reverse h head = Some (rev xs)"
    using walk_chain [OF c(1)] walk_chain [OF c(2)] chain_hd [OF c(1)] chain_hd [OF c(2)] d(1)
    by (simp_all add: shl_dlist_for_each_def shl_dlist_for_each_reverse_def)
  ultimately show ?thesis
    using for_each_safe_filter [OF assms]
    by (simp add: shl_dlist_for_each_but_one_def shl_dlist_for_each_reverse_but_one_def)
qed

text \<open>The head at 8 and the nodes 16 and 24.\<close>

definition three_links :: dheap where
  "three_links = [8 \<mapsto> \<lparr>d_next = 16, d_prev = 24\<rparr>, 16 \<mapsto> \<lparr>d_next = 24, d_prev = 8\<rparr>, 24 \<mapsto> \<lparr>d_next = 8, d_prev = 16\<rparr>]"

theorem dlist_iterates_witness:
  "shl_dlist_for_each three_links 8 = Some [16, 24] \<and> shl_dlist_for_each_reverse three_links 8 = Some [24, 16] \<and>
   shl_dlist_for_each_but_one three_links 16 8 = Some [24] \<and>
   shl_dlist_for_each_reverse_but_one three_links 24 8 = Some [16] \<and>
   (\<exists>h'. shl_dlist_for_each_reverse_safe (unlink_if (\<lambda>x. x = 24)) 8 three_links = Some ([24, 16], h') \<and> dlist h' 8 [16])"
proof -
  have d: "dlist three_links 8 [16, 24]" by (simp add: dlist_def three_links_def get_next_def get_prev_def)
  have s: "\<forall>rm. \<exists>h'. shl_dlist_for_each_reverse_safe (unlink_if rm) 8 three_links = Some (rev [16, 24], h') \<and>
      dlist h' 8 (filter (\<lambda>x. \<not> rm x) [16, 24])" using dlist_iterates [OF d] by blast
  have "[16, 24] = [] @ 16 # [24 :: ptr]" "[16, 24] = [16] @ 24 # ([] :: ptr list)" by simp_all
  then have "shl_dlist_for_each_but_one three_links 16 8 = Some ([24] @ [])"
      "shl_dlist_for_each_reverse_but_one three_links 24 8 = Some (rev [16] @ rev [])"
    using dlist_iterates [OF d] by blast+
  with spec [OF s, of "\<lambda>x. x = 24"] dlist_iterates [OF d] show ?thesis by simp
qed

text \<open>
  C29. The safe iterator survives a body that unlinks the node it is given: every node is visited once, the
  list is empty afterwards and every node is unlinked.
\<close>

theorem dlist_safe_drain:
  assumes "dlist h head xs"
  shows "\<exists>h'. shl_dlist_for_each_safe shl_dlist_unlink head h = Some (xs, h') \<and> dlist h' head [] \<and>
    list_all (\<lambda>x. shl_dlist_linked h' x = Some False) xs"
proof -
  have n: "get_next h head = Some (hd (xs @ [head]))" by (rule dlist_ends [OF assms])
  have "get_next h (hd (xs @ [head])) \<noteq> None"
  proof (cases xs)
    case Nil
    then show ?thesis using n by simp
  next
    case (Cons y ys)
    then show ?thesis using dlist_neighbours(1) [of h head "[]" y ys] assms by simp
  qed
  then obtain t where t: "get_next h (hd (xs @ [head])) = Some t" by blast
  from drain_safe [OF assms t] n t show ?thesis
    by (auto simp: shl_dlist_for_each_safe_def list_all_iff shl_dlist_linked_def)
qed

theorem dlist_safe_drain_witness:
  "\<exists>h'. shl_dlist_for_each_safe shl_dlist_unlink 8 [8 \<mapsto> \<lparr>d_next = 16, d_prev = 16\<rparr>, 16 \<mapsto> \<lparr>d_next = 8, d_prev = 8\<rparr>] =
     Some ([16], h') \<and> shl_dlist_linked h' 16 = Some False"
  using dlist_safe_drain [of "[8 \<mapsto> \<lparr>d_next = 16, d_prev = 16\<rparr>, 16 \<mapsto> \<lparr>d_next = 8, d_prev = 8\<rparr>]" 8 "[16]"]
  by (auto simp: dlist_def get_next_def get_prev_def)

end
