(* ===== verification/Shl_Pty_Ring.thy ===== *)
theory Shl_Pty_Ring
  imports Shl_Macro Shl_Fifo
begin

text \<open>
  The output ring of the PTY helper (\<^verbatim>\<open>struct ring\<close> in \<^verbatim>\<open>src/shl_pty.c\<close>), a ring that is delimited by a
  start and an end index: equal indices mean an empty ring, so one byte of the buffer stays unused.
  Names that \<^verbatim>\<open>shl_ring.c\<close> uses too carry the suffix \<open>_pty\<close>.
\<close>

record ring =
  g_buf :: "block option"
  g_size :: size_t
  g_start :: size_t
  g_end :: size_t

definition RING_MASK_pty :: "ring \<Rightarrow> size_t \<Rightarrow> size_t" where
  "RING_MASK_pty r v = v AND (g_size r - 1)"

definition ring_resize_pty :: "alloc_env \<Rightarrow> ring \<Rightarrow> size_t \<Rightarrow> (ring \<times> unit res) option" where
  "ring_resize_pty env r nsize =
     (case malloc_blk env nsize of
        None \<Rightarrow> Some (r, Inl ENOMEM)
      | Some buf \<Rightarrow>
          if g_end r = g_start r then
            Some (r\<lparr>g_end := 0, g_start := 0, g_buf := Some buf, g_size := nsize\<rparr>, ok)
          else if g_end r > g_start r then do {
            buf \<leftarrow> memcpy_at buf 0 (blk (g_buf r)) (unat (g_start r)) (unat (g_end r - g_start r));
            Some (r\<lparr>g_end := g_end r - g_start r, g_start := 0, g_buf := Some buf, g_size := nsize\<rparr>, ok) }
          else do {
            buf \<leftarrow> memcpy_at buf 0 (blk (g_buf r)) (unat (g_start r)) (unat (g_size r - g_start r));
            buf \<leftarrow> memcpy_at buf (unat (g_size r - g_start r)) (blk (g_buf r)) 0 (unat (g_end r));
            Some (r\<lparr>g_end := g_end r + (g_size r - g_start r), g_start := 0, g_buf := Some buf, g_size := nsize\<rparr>, ok) })"

text \<open>The loop runs for \<^verbatim>\<open>i\<close> = 1, 2, 4, 8, 16, 32.\<close>

definition ring_pow2 :: "size_t \<Rightarrow> size_t" where
  "ring_pow2 v =
     (if v = 0 then 4096
      else foldl (\<lambda>v i. v OR drop_bit i v) (v - 1) [1, 2, 4, 8, 16, 32] + 1)"

definition ring_grow_pty :: "alloc_env \<Rightarrow> ring \<Rightarrow> size_t \<Rightarrow> (ring \<times> unit res) option" where
  "ring_grow_pty env r add =
     (let len = (if g_end r < g_start r then g_start r - g_end r else g_start r + g_size r - g_end r)
      in if len > add then Some (r, ok)
         else let len = ring_pow2 (g_size r + add - len + 1)
              in if len \<le> g_size r then Some (r, Inl ENOMEM)
                 else ring_resize_pty env r len)"

definition ring_push :: "alloc_env \<Rightarrow> ring \<Rightarrow> u8 list \<Rightarrow> size_t \<Rightarrow> (ring \<times> unit res) option" where
  "ring_push env r u8 len = do {
     (r, err) \<leftarrow> ring_grow_pty env r len;
     case err of
       Inl e \<Rightarrow> Some (r, Inl e)
     | Inr _ \<Rightarrow> do {
         (r, off, len) \<leftarrow>
           (if g_start r \<le> g_end r then
              let l = g_size r - g_end r; l = (if l > len then len else l)
              in do {
                buf \<leftarrow> memcpy_at (blk (g_buf r)) (unat (g_end r)) u8 0 (unat l);
                Some (r\<lparr>g_buf := Some buf, g_end := RING_MASK_pty r (g_end r + l)\<rparr>, unat l, len - l) }
            else Some (r, 0, len));
         if len = 0 then Some (r, ok)
         else do {
           buf \<leftarrow> memcpy_at (blk (g_buf r)) (unat (g_end r)) u8 off (unat len);
           Some (r\<lparr>g_buf := Some buf, g_end := RING_MASK_pty r (g_end r + len)\<rparr>, ok) } } }"

text \<open>The vectors are pairs of an offset into the buffer and a length.\<close>

definition ring_peek :: "ring \<Rightarrow> nat \<times> (nat \<times> size_t) list" where
  "ring_peek r =
     (if g_end r > g_start r then (1, [(unat (g_start r), g_end r - g_start r)])
      else if g_end r < g_start r then
        (if g_end r \<noteq> 0 then 2 else 1, [(unat (g_start r), g_size r - g_start r), (0, g_end r)])
      else (0, []))"

definition ring_pop :: "ring \<Rightarrow> size_t \<Rightarrow> ring" where
  "ring_pop r len =
     (case (if g_start r > g_end r then
              let l = g_size r - g_start r; l = (if l > len then len else l)
              in (r\<lparr>g_start := RING_MASK_pty r (g_start r + l)\<rparr>, len - l)
            else (r, len)) of
        (r, len) \<Rightarrow>
          if len = 0 then r
          else let l = g_end r - g_start r; l = (if l > len then len else l)
               in r\<lparr>g_start := RING_MASK_pty r (g_start r + l)\<rparr>)"

lemma RING_MASK_pty_upd [simp]:
  "RING_MASK_pty (r\<lparr>g_buf := b\<rparr>) v = RING_MASK_pty r v" "RING_MASK_pty (r\<lparr>g_end := e\<rparr>) v = RING_MASK_pty r v"
  "RING_MASK_pty (r\<lparr>g_start := s\<rparr>) v = RING_MASK_pty r v"
  by (simp_all add: RING_MASK_pty_def)

subsection \<open>The next power of two\<close>

lemma smear_bit:
  fixes v :: size_t
  shows "bit (foldl (\<lambda>v i. v OR drop_bit i v) v (map (\<lambda>k. 2 ^ k) [0..<n])) j \<longleftrightarrow> (\<exists>d < 2 ^ n. bit v (j + d))"
proof (induction n arbitrary: j)
  case (Suc n)
  have "(\<exists>d < 2 ^ n. bit v (j + d)) \<or> (\<exists>d < 2 ^ n. bit v (j + 2 ^ n + d)) \<longleftrightarrow> (\<exists>d < 2 ^ Suc n. bit v (j + d))"
  proof
    assume "(\<exists>d < 2 ^ n. bit v (j + d)) \<or> (\<exists>d < 2 ^ n. bit v (j + 2 ^ n + d))"
    then show "\<exists>d < 2 ^ Suc n. bit v (j + d)"
    proof
      assume "\<exists>d < 2 ^ n. bit v (j + 2 ^ n + d)"
      then obtain d where "d < 2 ^ n" "bit v (j + (2 ^ n + d))" by (auto simp: add.assoc)
      then show ?thesis by (intro exI [of _ "2 ^ n + d"]) simp
    next
      assume "\<exists>d < 2 ^ n. bit v (j + d)"
      then obtain d where "d < 2 ^ n" "bit v (j + d)" by blast
      then show ?thesis by (intro exI [of _ d]) simp
    qed
  next
    assume "\<exists>d < 2 ^ Suc n. bit v (j + d)"
    then obtain d where d: "d < 2 ^ Suc n" "bit v (j + d)" by blast
    show "(\<exists>d < 2 ^ n. bit v (j + d)) \<or> (\<exists>d < 2 ^ n. bit v (j + 2 ^ n + d))"
    proof (cases "d < 2 ^ n")
      case False
      with d show ?thesis by (intro disjI2 exI [of _ "d - 2 ^ n"]) (auto simp: add.assoc)
    qed (use d in blast)
  qed
  with Suc show ?case by (simp add: bit_or_iff bit_drop_bit_eq add.commute add.left_commute)
qed simp

lemma smear_mask:
  fixes v :: size_t
  assumes "v \<noteq> 0"
  shows "foldl (\<lambda>v i. v OR drop_bit i v) v [1, 2, 4, 8, 16, 32] = mask (Suc (top_bit 63 v))"
proof -
  let ?t = "top_bit 63 v"
  have l: "map (\<lambda>k. 2 ^ k) [0..<6] = [1, 2, 4, 8, 16, 32 :: nat]" by (simp add: upt_conv_Cons)
  have "take_bit 64 v = v" using take_bit_word_eq_self [of 64 v] by simp
  then have top: "bit v ?t" using bit_top_bit [of 63 v] assms by (simp add: eval_nat_numeral)
  show ?thesis
  proof (rule bit_word_eqI)
    fix j assume "j < LENGTH(64)"
    then have j: "j < 64" by simp
    have "(\<exists>d < 2 ^ 6. bit v (j + d)) \<longleftrightarrow> j \<le> ?t"
    proof
      assume "\<exists>d < 2 ^ 6. bit v (j + d)"
      then obtain d where d: "bit v (j + d)" by blast
      then have "j + d \<le> 63" using bit_imp_le_length [OF d] by simp
      with d have "j + d \<le> ?t" using top_bit_above [of 63 v "j + d"] by (meson not_le)
      then show "j \<le> ?t" by simp
    next
      assume "j \<le> ?t"
      then show "\<exists>d < 2 ^ 6. bit v (j + d)"
        using top top_bit_le [of 63 v] by (intro exI [of _ "?t - j"]) auto
    qed
    with smear_bit [of v 6 j] j show "bit (foldl (\<lambda>v i. v OR drop_bit i v) v [1, 2, 4, 8, 16, 32]) j \<longleftrightarrow> bit (mask (Suc ?t) :: size_t) j"
      by (simp only: l) (simp add: bit_mask_iff less_Suc_eq_le)
  qed
qed

lemma ring_pow2_spec:
  assumes "1 \<le> unat v" "unat v \<le> 2 ^ 63"
  obtains k where "k \<le> 63" "ring_pow2 v = 2 ^ k" "unat v \<le> 2 ^ k" "2 ^ k < 2 * unat v"
proof (cases "v = 1")
  case True
  then show ?thesis by (intro that [of 0]) (simp_all add: ring_pow2_def)
next
  case False
  let ?t = "top_bit 63 (v - 1)"
  have v0: "v \<noteq> 0" "v - 1 \<noteq> 0" using assms(1) False by auto
  have u: "unat (v - 1) = unat v - 1" using assms(1) by (subst unat_sub_nowrap) (auto simp: word_le_nat_alt)
  have p: "ring_pow2 v = 2 ^ Suc ?t"
    using v0 smear_mask [OF v0(2)] by (simp add: ring_pow2_def mask_eq_exp_minus_1)
  have up: "unat (v - 1) < 2 ^ Suc ?t" using unat_less_top_bit [of "v - 1"] by simp
  have "take_bit 64 (v - 1) = v - 1" using take_bit_word_eq_self [of 64 "v - 1"] by simp
  then have "bit (v - 1) ?t" using bit_top_bit [of 63 "v - 1"] v0(2) by (simp add: eval_nat_numeral)
  then have lo: "2 ^ ?t \<le> unat (v - 1)" by (rule unat_ge_bit)
  then have "2 ^ ?t < (2::nat) ^ 63" using u assms by linarith
  then have "?t < 63" by (rule power_less_imp_less_exp [rotated]) simp
  then show ?thesis using p up lo u assms(1) by (intro that [of "Suc ?t"]) auto
qed

subsection \<open>Invariant and abstraction\<close>

definition pring_inv :: "ring \<Rightarrow> bool" where
  "pring_inv r \<longleftrightarrow>
     length (blk (g_buf r)) = unat (g_size r) \<and>
     (g_size r = 0 \<and> g_start r = 0 \<and> g_end r = 0 \<or>
      (\<exists>k \<le> 63. g_size r = 2 ^ k) \<and> g_start r < g_size r \<and> g_end r < g_size r)"

definition pring_used :: "ring \<Rightarrow> nat" where
  "pring_used r =
     (if g_start r \<le> g_end r then unat (g_end r) - unat (g_start r)
      else unat (g_size r) - unat (g_start r) + unat (g_end r))"

definition pring_data :: "ring \<Rightarrow> u8 list" where
  "pring_data r = window (blk (g_buf r)) (unat (g_start r)) (pring_used r)"

definition pring_zero :: ring where
  "pring_zero = \<lparr>g_buf = None, g_size = 0, g_start = 0, g_end = 0\<rparr>"

lemma pring_zero_inv: "pring_inv pring_zero" "pring_data pring_zero = []"
  by (simp_all add: pring_inv_def pring_zero_def pring_data_def pring_used_def)

text \<open>The invariant in natural numbers: at least one byte is free unless there is no buffer.\<close>

lemma pring_nat:
  assumes "pring_inv r" "g_size r \<noteq> 0"
  obtains k where "k \<le> 63" "g_size r = 2 ^ k" "unat (g_size r) = 2 ^ k" "length (blk (g_buf r)) = 2 ^ k"
    "unat (g_start r) < 2 ^ k" "unat (g_end r) < 2 ^ k" "pring_used r < 2 ^ k"
    "unat (g_end r) = (unat (g_start r) + pring_used r) mod 2 ^ k" "length (pring_data r) = pring_used r"
    "\<forall>v. unat (RING_MASK_pty r v) = unat v mod 2 ^ k"
proof -
  from assms obtain k where k: "k \<le> 63" "g_size r = 2 ^ k" "g_start r < g_size r" "g_end r < g_size r"
    by (auto simp: pring_inv_def)
  have u: "unat (g_size r) = 2 ^ k" using k by (simp add: unat_exp)
  then have lt: "unat (g_start r) < 2 ^ k" "unat (g_end r) < 2 ^ k" using k(3,4) by (simp_all add: word_less_nat_alt)
  have us: "pring_used r < 2 ^ k" using lt u by (auto simp: pring_used_def word_le_nat_alt)
  have e: "unat (g_end r) = (unat (g_start r) + pring_used r) mod 2 ^ k"
    using lt u by (auto simp: pring_used_def word_le_nat_alt)
  have len: "length (blk (g_buf r)) = 2 ^ k" using assms(1) u by (simp add: pring_inv_def)
  have "length (pring_data r) = pring_used r" using len lt us by (simp add: pring_data_def)
  moreover have "unat (RING_MASK_pty r v) = unat v mod 2 ^ k" for v
    using k(1,2) by (simp add: RING_MASK_pty_def unat_and_exp_minus_1)
  ultimately show ?thesis using that k u lt us e len by blast
qed

lemma pring_empty: "pring_inv r \<Longrightarrow> g_size r = 0 \<Longrightarrow> pring_used r = 0 \<and> pring_data r = []"
  by (auto simp: pring_inv_def pring_used_def pring_data_def)

lemma length_pring_data: "pring_inv r \<Longrightarrow> length (pring_data r) = pring_used r"
  using pring_empty [of r] by (cases "g_size r = 0") (auto elim: pring_nat)

subsection \<open>Growing\<close>

lemma resize_pty_correct:
  assumes inv: "pring_inv r" and m: "m \<le> 63" "pring_used r < 2 ^ m"
  shows "\<exists>r' e. ring_resize_pty env r (2 ^ m) = Some (r', e) \<and>
    (e = Inl ENOMEM \<and> r' = r \<or>
     e = ok \<and> pring_inv r' \<and> pring_data r' = pring_data r \<and> pring_used r' = pring_used r \<and> g_size r' = 2 ^ m)"
proof (cases "malloc_blk env (2 ^ m)")
  case None
  then show ?thesis by (simp add: ring_resize_pty_def)
next
  case (Some buf)
  let ?b = "blk (g_buf r)" and ?s = "unat (g_start r)" and ?u = "pring_used r"
  have um: "unat ((2::size_t) ^ m) = 2 ^ m" using m(1) by (simp add: unat_exp)
  have lb: "length buf = 2 ^ m" using length_malloc_blk [OF Some] um by simp
  have wu: "window ?b ?s ?u = pring_data r" by (simp add: pring_data_def)
  have res: "pring_inv r' \<and> pring_data r' = pring_data r \<and> pring_used r' = ?u \<and> g_size r' = 2 ^ m"
    if "r' = r\<lparr>g_end := e, g_start := 0, g_buf := Some (pring_data r @ drop ?u buf), g_size := 2 ^ m\<rparr>" "unat e = ?u" for r' e
    using that lb um m length_pring_data [OF inv]
    by (auto simp: pring_inv_def pring_used_def pring_data_def [of "g_buf_update _ _"] pring_data_def [of "_\<lparr>g_size := _\<rparr>"] window_def word_less_nat_alt word_le_nat_alt)
  show ?thesis
  proof (cases "g_size r = 0")
    case True
    then have "g_end r = g_start r" "?u = 0" "pring_data r = []" using inv pring_empty [OF inv] by (auto simp: pring_inv_def)
    with Some res [OF refl, of 0] show ?thesis by (simp add: ring_resize_pty_def)
  next
    case False
    from pring_nat [OF inv False] obtain k where
      k: "unat (g_size r) = 2 ^ k" "length ?b = 2 ^ k" "?s < 2 ^ k" "unat (g_end r) < 2 ^ k" "?u < 2 ^ k" .
    have cw: "(if ?u \<le> length ?b - ?s then memcpy_at buf 0 ?b ?s ?u
          else memcpy_at buf 0 ?b ?s (length ?b - ?s) \<bind>
                 (\<lambda>c. memcpy_at c (length ?b - ?s) ?b 0 (?u - (length ?b - ?s)))) = Some (pring_data r @ drop ?u buf)"
      using copy_window [of ?s ?b ?u buf] k lb m(2) wu by simp
    consider "g_end r = g_start r" | "g_end r > g_start r" | "g_end r < g_start r" by fastforce
    then show ?thesis
    proof cases
      case 1
      then have "?u = 0" "pring_data r = []" by (simp_all add: pring_used_def pring_data_def)
      with Some 1 res [OF refl, of 0] show ?thesis by (simp add: ring_resize_pty_def)
    next
      case 2
      then have u: "unat (g_end r - g_start r) = ?u"
        by (simp add: unat_sub_nowrap pring_used_def word_le_nat_alt word_less_nat_alt)
      moreover have "?u \<le> length ?b - ?s" using 2 k by (simp add: pring_used_def word_le_nat_alt word_less_nat_alt)
      ultimately show ?thesis
        using cw Some 2 res [OF refl, of "g_end r - g_start r"] by (auto simp: ring_resize_pty_def)
    next
      case 3
      have l: "unat (g_size r - g_start r) = length ?b - ?s"
        using k by (subst unat_sub_nowrap) (simp_all add: word_le_nat_alt)
      have us: "?u = length ?b - ?s + unat (g_end r)" using 3 k by (simp add: pring_used_def word_le_nat_alt word_less_nat_alt)
      have "unat (g_end r + (g_size r - g_start r)) = ?u"
        using us l m(2) m(1) power_increasing [of m 63 "2 :: nat"] by (subst unat_add_nowrap) simp_all
      moreover have comp: "memcpy_at buf 0 ?b ?s (length ?b - ?s) \<bind>
                 (\<lambda>c. memcpy_at c (length ?b - ?s) ?b 0 (unat (g_end r))) = Some (pring_data r @ drop ?u buf)"
      proof (cases "g_end r = 0")
        case True
        then have "?u = length ?b - ?s" using us by simp
        then have c: "memcpy_at buf 0 ?b ?s (length ?b - ?s) = Some (pring_data r @ drop ?u buf)"
          using cw by (simp only: order_refl if_True)
        have "length ?b - ?s \<le> length (pring_data r @ drop ?u buf)"
          using \<open>?u = length ?b - ?s\<close> length_pring_data [OF inv] by simp
        then show ?thesis using True by (simp only: c bind.bind_lunit unat_0 memcpy_at_0 le0)
      next
        case False
        then have "\<not> ?u \<le> length ?b - ?s" using us by (simp add: unat_gt_0)
        with cw us show ?thesis by simp
      qed
      moreover from comp obtain c where "memcpy_at buf 0 ?b ?s (length ?b - ?s) = Some c"
        "memcpy_at c (length ?b - ?s) ?b 0 (unat (g_end r)) = Some (pring_data r @ drop ?u buf)"
        by (auto simp: bind_eq_Some_conv)
      ultimately show ?thesis
        using Some 3 l res [OF refl, of "g_end r + (g_size r - g_start r)"] by (auto simp: ring_resize_pty_def)
    qed
  qed
qed

text \<open>The free space \<^verbatim>\<open>ring_grow\<close> computes.\<close>

lemma free_space:
  assumes "pring_inv r"
  shows "(if g_end r < g_start r then g_start r - g_end r else g_start r + g_size r - g_end r) =
      g_size r - of_nat (pring_used r)"
    and "unat (g_size r - of_nat (pring_used r)) = unat (g_size r) - pring_used r"
    and "pring_used r \<le> unat (g_size r)"
proof -
  have us: "pring_used r \<le> unat (g_size r)"
  proof (cases "g_size r = 0")
    case True
    then show ?thesis using pring_empty [OF assms] by simp
  next
    case False
    then show ?thesis by (rule pring_nat [OF assms]) simp
  qed
  then show "pring_used r \<le> unat (g_size r)" .
  have "pring_used r < 2 ^ 64" using us unat_lt_64 [of "g_size r"] by linarith
  then have "unat (of_nat (pring_used r) :: size_t) = pring_used r" by (simp add: unat_of_nat)
  then show "unat (g_size r - of_nat (pring_used r)) = unat (g_size r) - pring_used r"
    using us by (subst unat_sub_nowrap) (simp_all add: word_le_nat_alt)
  show "(if g_end r < g_start r then g_start r - g_end r else g_start r + g_size r - g_end r) =
      g_size r - of_nat (pring_used r)"
  proof (cases "g_start r \<le> g_end r")
    case True
    then have "of_nat (pring_used r) = g_end r - g_start r"
      by (simp add: pring_used_def of_nat_diff word_le_nat_alt)
    moreover have "\<not> g_end r < g_start r" using True by simp
    ultimately show ?thesis by simp
  next
    case False
    have "unat (g_start r) \<le> unat (g_size r)"
      using assms by (auto simp: pring_inv_def word_less_nat_alt)
    then have "of_nat (pring_used r) = g_size r - g_start r + g_end r"
      using False by (simp add: pring_used_def of_nat_diff)
    with False show ?thesis by (simp add: not_less not_le)
  qed
qed

lemma grow_pty_correct:
  assumes inv: "pring_inv r" and lim: "pring_used r + unat add < 2 ^ 62"
  shows "\<exists>r' e. ring_grow_pty env r add = Some (r', e) \<and>
    (e = Inl ENOMEM \<and> r' = r \<or>
     e = ok \<and> pring_inv r' \<and> pring_data r' = pring_data r \<and> pring_used r' = pring_used r \<and>
       pring_used r' + unat add < unat (g_size r'))"
proof -
  let ?u = "of_nat (pring_used r) :: size_t" and ?free = "g_size r - of_nat (pring_used r)"
  note fs = free_space [OF inv]
  have need: "g_size r + add - ?free + 1 = ?u + add + 1" by simp
  have un: "unat (?u + add + 1) = pring_used r + unat add + 1"
    using lim by (simp add: unat_word_ariths unat_of_nat)
  have unf: "ring_grow_pty env r add =
      (if ?free > add then Some (r, ok)
       else if ring_pow2 (?u + add + 1) \<le> g_size r then Some (r, Inl ENOMEM)
       else ring_resize_pty env r (ring_pow2 (?u + add + 1)))"
    unfolding ring_grow_pty_def Let_def fs(1) need ..
  show ?thesis
  proof (cases "?free > add")
    case True
    then have "pring_used r + unat add < unat (g_size r)" using fs(2,3) by (simp add: word_less_nat_alt)
    with True unf inv show ?thesis by simp
  next
    case False
    have "1 \<le> unat (?u + add + 1)" "unat (?u + add + 1) \<le> 2 ^ 63" using un lim by simp_all
    then obtain k where k: "k \<le> 63" "ring_pow2 (?u + add + 1) = 2 ^ k" "pring_used r + unat add + 1 \<le> 2 ^ k"
      by (rule ring_pow2_spec) (use un in auto)
    have uk: "unat ((2::size_t) ^ k) = 2 ^ k" using k(1) by (simp add: unat_exp)
    show ?thesis
    proof (cases "(2::size_t) ^ k \<le> g_size r")
      case True
      with False unf k(2) show ?thesis by simp
    next
      case nle: False
      have "pring_used r < 2 ^ k" using k(3) by simp
      from resize_pty_correct [OF inv k(1) this, of env] nle False unf k uk show ?thesis by auto
    qed
  qed
qed

lemma pring_with_end:
  assumes "k \<le> 63" "g_size r = 2 ^ k" "length b = 2 ^ k" "unat (g_start r) < 2 ^ k" "u < 2 ^ k"
    "unat e = (unat (g_start r) + u) mod 2 ^ k"
  shows "pring_inv (r\<lparr>g_buf := Some b, g_end := e\<rparr>)" "pring_used (r\<lparr>g_buf := Some b, g_end := e\<rparr>) = u"
    "pring_data (r\<lparr>g_buf := Some b, g_end := e\<rparr>) = window b (unat (g_start r)) u"
proof -
  have us: "unat ((2::size_t) ^ k) = 2 ^ k" using assms(1) by (simp add: unat_exp)
  have lt: "unat e < 2 ^ k" using assms(6) by simp
  show "pring_inv (r\<lparr>g_buf := Some b, g_end := e\<rparr>)"
    using assms us lt by (auto simp: pring_inv_def word_less_nat_alt)
  show u: "pring_used (r\<lparr>g_buf := Some b, g_end := e\<rparr>) = u"
  proof (cases "unat (g_start r) + u < 2 ^ k")
    case True
    then show ?thesis using assms us by (simp add: pring_used_def word_le_nat_alt)
  next
    case False
    then have "unat e = unat (g_start r) + u - 2 ^ k" using assms(4-6) by (simp add: mod_if [of "_ + u"])
    then show ?thesis using False assms us by (simp add: pring_used_def word_le_nat_alt)
  qed
  then show "pring_data (r\<lparr>g_buf := Some b, g_end := e\<rparr>) = window b (unat (g_start r)) u"
    by (simp add: pring_data_def)
qed

lemma ring_push_room:
  assumes inv: "pring_inv r" and len: "unat len = length xs" and room: "pring_used r + length xs < unat (g_size r)"
    and g: "ring_grow_pty env r0 len = Some (r, ok)"
  shows "\<exists>r'. ring_push env r0 xs len = Some (r', ok) \<and> pring_inv r' \<and> pring_data r' = pring_data r @ xs"
proof -
  let ?b = "blk (g_buf r)" and ?s = "unat (g_start r)" and ?u = "pring_used r" and ?e = "unat (g_end r)"
  have "g_size r \<noteq> 0" using room by auto
  from pring_nat [OF inv this] obtain k where
    k: "k \<le> 63" "g_size r = 2 ^ k" "unat (g_size r) = 2 ^ k" "length ?b = 2 ^ k" "?s < 2 ^ k" "?e < 2 ^ k" "?u < 2 ^ k"
      "?e = (?s + ?u) mod 2 ^ k" "\<forall>v. unat (RING_MASK_pty r v) = unat v mod 2 ^ k" .
  have big: "(2::nat) ^ k \<le> 2 ^ 63" using k(1) by (intro power_increasing) auto
  have sz: "unat (g_size r - g_end r) = 2 ^ k - ?e"
    using k(3,6) by (subst unat_sub_nowrap) (simp_all add: word_le_nat_alt)
  have upd: "pring_inv r' \<and> pring_data r' = pring_data r @ xs"
    if "r' = r\<lparr>g_buf := Some b', g_end := e'\<rparr>" "length b' = 2 ^ k" "window b' ?s (?u + length xs) = window ?b ?s ?u @ xs"
      "unat e' = (?e + length xs) mod 2 ^ k" for r' b' e'
  proof -
    have "unat e' = (?s + (?u + length xs)) mod 2 ^ k" using that(4) k(8) by (simp add: mod_simps add.assoc)
    then show ?thesis
      using pring_with_end [OF k(1,2) that(2) k(5), of "?u + length xs" e'] that room k(3)
      by (simp add: pring_data_def)
  qed
  have push: "ring_push env r0 xs len = do {
         (r, off, len) \<leftarrow>
           (if g_start r \<le> g_end r then
              let l = g_size r - g_end r; l = (if l > len then len else l)
              in do {
                buf \<leftarrow> memcpy_at (blk (g_buf r)) (unat (g_end r)) xs 0 (unat l);
                Some (r\<lparr>g_buf := Some buf, g_end := RING_MASK_pty r (g_end r + l)\<rparr>, unat l, len - l) }
            else Some (r, 0, len));
         if len = 0 then Some (r, ok)
         else do {
           buf \<leftarrow> memcpy_at (blk (g_buf r)) (unat (g_end r)) xs off (unat len);
           Some (r\<lparr>g_buf := Some buf, g_end := RING_MASK_pty r (g_end r + len)\<rparr>, ok) } }"
    using g by (simp add: ring_push_def)
  have el: "unat (g_end r + len) = ?e + length xs"
    using k(6) big room k(3) len by (subst unat_add_nowrap) simp_all
  obtain b' where b': "(if length xs \<le> 2 ^ k - ?e then memcpy_at ?b ?e xs 0 (length xs)
      else memcpy_at ?b ?e xs 0 (2 ^ k - ?e) \<bind>
             (\<lambda>buf. memcpy_at buf 0 xs (2 ^ k - ?e) (length xs - (2 ^ k - ?e)))) = Some b'"
    "length b' = 2 ^ k" "window b' ?s (?u + length xs) = window ?b ?s ?u @ xs"
  proof (cases "xs = []")
    case True
    then show ?thesis using k by (intro that [of ?b]) (simp_all add: memcpy_at_0)
  next
    case False
    have h: "?s < length ?b" "?u + length xs \<le> length ?b" "0 < length xs" "length xs \<le> length xs"
      "?e = (?s + ?u) mod length ?b"
      using k(3-8) room False by simp_all
    from write_window [OF h] obtain c where
      c: "(if length xs \<le> length ?b - ?e then memcpy_at ?b ?e xs 0 (length xs)
        else memcpy_at ?b ?e xs 0 (length ?b - ?e) \<bind>
             (\<lambda>buf. memcpy_at buf 0 xs (length ?b - ?e) (length xs - (length ?b - ?e)))) = Some c"
        "length c = length ?b" "window c ?s (?u + length xs) = window ?b ?s ?u @ take (length xs) xs" .
    show ?thesis by (rule that [of c]) (use c in \<open>simp_all only: k(4) take_all order_refl\<close>)
  qed
  show ?thesis
  proof (cases "g_start r \<le> g_end r")
    case False
    then have "?u = 2 ^ k - ?s + ?e" using k(3) by (simp add: pring_used_def)
    then have fit: "length xs \<le> 2 ^ k - ?e" using room k(3,5) by simp
    show ?thesis
    proof (cases "len = 0")
      case True
      then show ?thesis using push False inv len by simp
    next
      case nz: False
      have "unat (RING_MASK_pty r (g_end r + len)) = (?e + length xs) mod 2 ^ k" using k(9) el by simp
      from upd [OF refl b'(2,3) this] show ?thesis
        using push False nz b'(1) fit len by simp
    qed
  next
    case se: True
    show ?thesis
    proof (cases "length xs \<le> 2 ^ k - ?e")
      case True
      have l: "(if g_size r - g_end r > len then len else g_size r - g_end r) = len"
        using True sz len by (auto simp: word_less_nat_alt intro!: word_of_unat_eqI)
      have "unat (RING_MASK_pty r (g_end r + len)) = (?e + length xs) mod 2 ^ k" using k(9) el by simp
      from upd [OF refl b'(2,3) this] show ?thesis
        using push se b'(1) True len by (simp add: Let_def l)
    next
      case False
      let ?l = "g_size r - g_end r"
      have l: "(if ?l > len then len else ?l) = ?l" using False sz len by (simp add: word_less_nat_alt)
      have dl: "unat (len - ?l) = length xs - (2 ^ k - ?e)"
        using False sz len by (subst unat_sub_nowrap) (simp_all add: word_le_nat_alt)
      then have nz: "len - ?l \<noteq> 0" using False by (metis diff_is_0_eq unat_0)
      obtain b1 where b1: "memcpy_at ?b ?e xs 0 (2 ^ k - ?e) = Some b1" using b'(1) False by (cases "memcpy_at ?b ?e xs 0 (2 ^ k - ?e)") auto
      have e0: "RING_MASK_pty r (g_size r) = 0"
        using k(9) k(3) by (intro word_of_unat_eqI) simp
      have m2: "memcpy_at b1 0 xs (2 ^ k - ?e) (length xs - (2 ^ k - ?e)) = Some b'" using b'(1) b1 False by simp
      have "unat (RING_MASK_pty r (len - ?l)) = (?e + length xs) mod 2 ^ k"
      proof -
        have "?e + length xs = (length xs - (2 ^ k - ?e)) + 2 ^ k" using False k(6) by linarith
        then have "(?e + length xs) mod 2 ^ k = (length xs - (2 ^ k - ?e)) mod 2 ^ k" by (simp only: mod_add_self2)
        then show ?thesis using k(9) dl by simp
      qed
      then show ?thesis
        using upd [OF refl b'(2,3), of "RING_MASK_pty r (len - ?l)"] push se b1 m2 nz dl sz
        by (simp add: Let_def l e0)
    qed
  qed
qed

lemma pring_push_correct:
  assumes "pring_inv r" "length (pring_data r) + length xs < 2 ^ 62"
  shows "\<exists>r' e. ring_push env r xs (of_nat (length xs)) = Some (r', e) \<and> pring_inv r' \<and>
    (e = ok \<and> pring_data r' = pring_data r @ xs \<or> e = Inl ENOMEM \<and> pring_data r' = pring_data r)"
proof -
  have u: "unat (of_nat (length xs) :: size_t) = length xs" using assms(2) by (simp add: unat_of_nat)
  have "pring_used r + unat (of_nat (length xs) :: size_t) < 2 ^ 62"
    using assms(2) length_pring_data [OF assms(1)] u by simp
  from grow_pty_correct [OF assms(1) this, of env] obtain r1 e where
    g: "ring_grow_pty env r (of_nat (length xs)) = Some (r1, e)"
      "e = Inl ENOMEM \<and> r1 = r \<or> e = ok \<and> pring_inv r1 \<and> pring_data r1 = pring_data r \<and>
       pring_used r1 = pring_used r \<and> pring_used r1 + length xs < unat (g_size r1)" unfolding u by blast
  from g(2) show ?thesis
  proof
    assume "e = Inl ENOMEM \<and> r1 = r"
    with g(1) assms(1) show ?thesis by (simp add: ring_push_def)
  next
    assume "e = ok \<and> pring_inv r1 \<and> pring_data r1 = pring_data r \<and>
       pring_used r1 = pring_used r \<and> pring_used r1 + length xs < unat (g_size r1)"
    with ring_push_room [of r1 "of_nat (length xs)" xs env r] g(1) u show ?thesis by auto
  qed
qed

subsection \<open>Reading\<close>

definition peek_pty :: "ring \<Rightarrow> u8 list option" where
  "peek_pty r = (case ring_peek r of (n, vec) \<Rightarrow>
     foldM (\<lambda>(base, len) xs. do { ys \<leftarrow> mem_read (blk (g_buf r)) base (unat len); Some (xs @ ys) }) (take n vec) [])"

lemma peek_pty_correct:
  assumes inv: "pring_inv r"
  shows "peek_pty r = Some (pring_data r)"
proof (cases "g_size r = 0")
  case True
  with inv have "g_end r = g_start r" by (auto simp: pring_inv_def)
  then show ?thesis using pring_empty [OF inv True] by (simp add: peek_pty_def ring_peek_def)
next
  case False
  let ?b = "blk (g_buf r)" and ?s = "unat (g_start r)" and ?e = "unat (g_end r)"
  from pring_nat [OF inv False] obtain k where
    k: "unat (g_size r) = 2 ^ k" "length ?b = 2 ^ k" "?s < 2 ^ k" "?e < 2 ^ k" .
  consider "g_end r = g_start r" | "g_end r > g_start r" | "g_end r < g_start r" by fastforce
  then show ?thesis
  proof cases
    case 1
    then show ?thesis by (simp add: peek_pty_def ring_peek_def pring_data_def pring_used_def)
  next
    case 2
    then have "unat (g_end r - g_start r) = ?e - ?s" "?s < ?e" "pring_used r = ?e - ?s"
      by (simp_all add: unat_sub_nowrap pring_used_def word_le_nat_alt word_less_nat_alt)
    with 2 k show ?thesis by (simp add: peek_pty_def ring_peek_def pring_data_def window_linear mem_read_def)
  next
    case 3
    then have l: "unat (g_size r - g_start r) = 2 ^ k - ?s" "?e < ?s" "pring_used r = 2 ^ k - ?s + ?e"
      using k by (simp_all add: unat_sub_nowrap pring_used_def word_le_nat_alt word_less_nat_alt)
    have w: "window ?b ?s (2 ^ k - ?s + ?e) = drop ?s ?b @ take ?e ?b" using k l(2) by (subst window_wrapped) simp_all
    have "\<not> g_start r < g_end r" using 3 by simp
    moreover have "?e = 0" if "g_end r = 0" using that by simp
    ultimately show ?thesis
      using 3 k l w by (simp add: peek_pty_def ring_peek_def pring_data_def mem_read_def)
  qed
qed

lemma pring_with_start:
  assumes "pring_inv r" "g_size r = 2 ^ k" "k \<le> 63" "n \<le> pring_used r" "unat s = (unat (g_start r) + n) mod 2 ^ k"
  shows "pring_inv (r\<lparr>g_start := s\<rparr>)" "pring_data (r\<lparr>g_start := s\<rparr>) = drop n (pring_data r)"
    "pring_used (r\<lparr>g_start := s\<rparr>) = pring_used r - n"
proof -
  let ?b = "blk (g_buf r)" and ?s = "unat (g_start r)" and ?e = "unat (g_end r)" and ?u = "pring_used r"
  have "g_size r \<noteq> 0" using assms(2,3) by auto
  from pring_nat [OF assms(1) this] obtain m where
    m: "g_size r = 2 ^ m" "unat (g_size r) = 2 ^ m" "length ?b = 2 ^ m" "?s < 2 ^ m" "?e < 2 ^ m" "?u < 2 ^ m" "?e = (?s + ?u) mod 2 ^ m" .
  have uk: "unat (g_size r) = 2 ^ k" unfolding assms(2) using assms(3) by (simp add: unat_exp)
  have km: "(2::nat) ^ k = 2 ^ m" using trans [OF uk [symmetric] m(2)] .
  have ls: "unat s < 2 ^ m" using assms(5) km by simp
  have us: "unat ((2::size_t) ^ k) = 2 ^ k" using assms(3) by (simp add: unat_exp)
  show inv': "pring_inv (r\<lparr>g_start := s\<rparr>)"
    using assms(1-3) us ls km m(5) by (auto simp: pring_inv_def word_less_nat_alt)
  have "(unat s + (?u - n)) mod 2 ^ m = (?s + n + (?u - n)) mod 2 ^ m"
    unfolding assms(5) km by (rule mod_add_left_eq)
  moreover have "?s + n + (?u - n) = ?s + ?u" using assms(4) by simp
  ultimately have "?e = (unat s + (?u - n)) mod 2 ^ m" using m(7) by simp
  moreover have "?u - n < 2 ^ m" using m(6) by simp
  ultimately have "pring_used (r\<lparr>g_start := s, g_buf := Some ?b, g_end := g_end r\<rparr>) = ?u - n"
    using assms(2,3) m(3) ls km by (intro pring_with_end(2) [of k]) simp_all
  moreover have "pring_used (r\<lparr>g_start := s, g_buf := Some ?b, g_end := g_end r\<rparr>) = pring_used (r\<lparr>g_start := s\<rparr>)"
    by (simp add: pring_used_def)
  ultimately show u: "pring_used (r\<lparr>g_start := s\<rparr>) = ?u - n" by simp
  have "window ?b ((?s + n) mod length ?b) (?u - n) = drop n (window ?b ?s ?u)"
    using m(3,4,6) assms(4) by (intro window_drop) simp_all
  then have "window ?b (unat s) (?u - n) = drop n (window ?b ?s ?u)" by (simp only: assms(5) m(3) km)
  then show "pring_data (r\<lparr>g_start := s\<rparr>) = drop n (pring_data r)" using u by (simp add: pring_data_def)
qed

text \<open>Popping in one or two parts; removing more than there is empties the ring.\<close>

lemma pop_part:
  assumes "pring_inv r" "n \<le> pring_used r" "unat l = n"
  shows "pring_inv (r\<lparr>g_start := RING_MASK_pty r (g_start r + l)\<rparr>)"
    "pring_data (r\<lparr>g_start := RING_MASK_pty r (g_start r + l)\<rparr>) = drop n (pring_data r)"
    "pring_used (r\<lparr>g_start := RING_MASK_pty r (g_start r + l)\<rparr>) = pring_used r - n"
proof -
  let ?s = "RING_MASK_pty r (g_start r + l)"
  have "pring_inv (r\<lparr>g_start := ?s\<rparr>) \<and> pring_data (r\<lparr>g_start := ?s\<rparr>) = drop n (pring_data r) \<and>
    pring_used (r\<lparr>g_start := ?s\<rparr>) = pring_used r - n"
  proof (cases "g_size r = 0")
    case True
    then have "pring_used r = 0" "pring_data r = []" "g_start r = 0" using pring_empty [OF assms(1)] assms(1)
      by (auto simp: pring_inv_def)
    then have "r\<lparr>g_start := ?s\<rparr> = r" using assms(2,3) by (simp add: RING_MASK_pty_def unat_eq_zero)
    then show ?thesis using assms(1,2) \<open>pring_used r = 0\<close> by simp
  next
    case False
    from pring_nat [OF assms(1) this] obtain k where
      k: "k \<le> 63" "g_size r = 2 ^ k" "unat (g_start r) < 2 ^ k" "pring_used r < 2 ^ k"
        "\<forall>v. unat (RING_MASK_pty r v) = unat v mod 2 ^ k" .
    have big: "(2::nat) ^ k \<le> 2 ^ 63" using k(1) by (intro power_increasing) auto
    have "unat (g_start r + l) = unat (g_start r) + n"
      using k(3,4) assms(2,3) big by (subst unat_add_nowrap) simp_all
    then have "unat ?s = (unat (g_start r) + n) mod 2 ^ k" using k(5) by simp
    from pring_with_start [OF assms(1) k(2,1) assms(2) this] show ?thesis by blast
  qed
  then show "pring_inv (r\<lparr>g_start := ?s\<rparr>)" "pring_data (r\<lparr>g_start := ?s\<rparr>) = drop n (pring_data r)"
    "pring_used (r\<lparr>g_start := ?s\<rparr>) = pring_used r - n" by blast+
qed

lemma ring_pop_linear:
  assumes inv: "pring_inv r" and se: "g_start r \<le> g_end r"
  shows "let l = g_end r - g_start r; l = (if l > len then len else l); r' = r\<lparr>g_start := RING_MASK_pty r (g_start r + l)\<rparr>
    in pring_inv r' \<and> pring_data r' = drop (unat len) (pring_data r)"
proof -
  let ?l = "g_end r - g_start r"
  have u: "unat ?l = pring_used r" using se by (simp add: unat_sub_nowrap pring_used_def)
  let ?m = "if ?l > len then len else ?l"
  have "unat ?m = min (unat len) (pring_used r)" using u by (auto simp: word_less_nat_alt)
  from pop_part [OF inv _ this] have "pring_inv (r\<lparr>g_start := RING_MASK_pty r (g_start r + ?m)\<rparr>)"
    "pring_data (r\<lparr>g_start := RING_MASK_pty r (g_start r + ?m)\<rparr>) = drop (min (unat len) (pring_used r)) (pring_data r)"
    by simp_all
  moreover have "drop (min (unat len) (pring_used r)) (pring_data r) = drop (unat len) (pring_data r)"
    using length_pring_data [OF inv] by (simp add: min_def)
  ultimately show ?thesis by (simp add: Let_def)
qed

lemma ring_pop_correct:
  assumes inv: "pring_inv r"
  shows "pring_inv (ring_pop r len) \<and> pring_data (ring_pop r len) = drop (unat len) (pring_data r)"
proof (cases "g_start r > g_end r")
  case False
  then show ?thesis
    using ring_pop_linear [OF inv, of len] inv by (auto simp: ring_pop_def Let_def not_less)
next
  case True
  have nz: "g_size r \<noteq> 0" using True inv by (auto simp: pring_inv_def)
  from pring_nat [OF inv nz] obtain k where
    k: "unat (g_size r) = 2 ^ k" "unat (g_start r) < 2 ^ k" "\<forall>v. unat (RING_MASK_pty r v) = unat v mod 2 ^ k" .
  let ?l = "g_size r - g_start r"
  have ul: "unat ?l = 2 ^ k - unat (g_start r)" using k(1,2) by (subst unat_sub_nowrap) (simp_all add: word_le_nat_alt)
  have us: "pring_used r = 2 ^ k - unat (g_start r) + unat (g_end r)" using True k(1) by (simp add: pring_used_def not_le [symmetric])
  show ?thesis
  proof (cases "?l > len")
    case l: True
    then have "unat len \<le> pring_used r" using ul us by (simp add: word_less_nat_alt)
    from pop_part [OF inv this refl] show ?thesis using True l by (simp add: ring_pop_def Let_def)
  next
    case l: False
    let ?r = "r\<lparr>g_start := RING_MASK_pty r (g_start r + ?l)\<rparr>"
    have "unat ?l \<le> pring_used r" using ul us by simp
    note p = pop_part [OF inv this refl]
    have s0: "RING_MASK_pty r (g_size r) = 0" using k(1,3) by (intro word_of_unat_eqI) simp
    then have "g_start ?r \<le> g_end ?r" by simp
    note q = ring_pop_linear [OF p(1) this, of "len - ?l"]
    have ud: "unat (len - ?l) = unat len - unat ?l" using l by (simp add: unat_sub_nowrap not_less)
    show ?thesis
    proof (cases "len = ?l")
      case True
      then show ?thesis using p \<open>g_start r > g_end r\<close> by (simp add: ring_pop_def Let_def)
    next
      case False
      have "drop (unat len - unat ?l) (drop (unat ?l) (pring_data r)) = drop (unat len) (pring_data r)"
        using l by (simp add: not_less word_le_nat_alt)
      then show ?thesis
        using q False l \<open>g_start r > g_end r\<close> p(2) ud by (simp add: ring_pop_def Let_def)
    qed
  qed
qed

text \<open>The output ring keeps the contract of a byte queue.\<close>

interpretation pty_fifo: byte_fifo pring_inv pring_data "\<lambda>env r xs. ring_push env r xs (of_nat (length xs))"
  "\<lambda>r n. Some (ring_pop r n)" peek_pty
proof unfold_locales
  fix r :: ring and xs :: "u8 list" and env
  assume "pring_inv r" "length (pring_data r) + length xs < fifo_limit"
  then show "\<exists>q' e. ring_push env r xs (of_nat (length xs)) = Some (q', e) \<and> pring_inv q' \<and>
      (e = ok \<and> pring_data q' = pring_data r @ xs \<or> e = Inl ENOMEM \<and> pring_data q' = pring_data r)"
    by (rule pring_push_correct)
qed (simp_all add: ring_pop_correct peek_pty_correct)

subsection \<open>Properties\<close>

text \<open>
  C33. The output ring of the PTY is a queue: for every sequence of writes and partial drains of a fresh ring
  (allocation failures included) no access leaves the buffer, and the bytes drained so far followed by
  the bytes still queued are exactly the bytes accepted, in order.
\<close>

theorem pty_ring_is_fifo:
  assumes "sum_list (map op_bytes ops) < 2 ^ 62"
  shows "\<exists>r out acc.
    fifo_run (\<lambda>env r xs. ring_push env r xs (of_nat (length xs))) (\<lambda>r n. Some (ring_pop r n)) peek_pty ops pring_zero =
      Some (r, out, acc) \<and> pring_inv r \<and> acc = out @ pring_data r"
  using pty_fifo.run_fifo [of pring_zero ops] pring_zero_inv assms by simp

theorem pty_ring_is_fifo_witness:
  "\<exists>r out acc.
    fifo_run (\<lambda>env r xs. ring_push env r xs (of_nat (length xs))) (\<lambda>r n. Some (ring_pop r n)) peek_pty
      [Push \<lparr>alloc_fails = (\<lambda>_. False), junk = (\<lambda>_. 7)\<rparr> [1, 2, 3], Pull 2] pring_zero =
      Some (r, out, acc) \<and> acc = out @ pring_data r"
  using pty_ring_is_fifo [of "[Push \<lparr>alloc_fails = (\<lambda>_. False), junk = (\<lambda>_. 7)\<rparr> [1, 2, 3], Pull 2]"] by auto

text \<open>
  The bit-smearing loop rounds up to the next power of two: for sizes up to half of the address space the
  result is the least power of two that is not smaller.
\<close>

theorem ring_pow2_rounds_up:
  assumes "1 \<le> unat v" "unat v \<le> 2 ^ 63"
  shows "\<exists>k \<le> 63. ring_pow2 v = 2 ^ k \<and> unat v \<le> 2 ^ k \<and> 2 ^ k < 2 * unat v"
  using ring_pow2_spec [OF assms] by metis

theorem ring_pow2_rounds_up_witness: "\<exists>k \<le> 63. ring_pow2 5000 = 2 ^ k \<and> 5000 \<le> (2::nat) ^ k \<and> 2 ^ k < (10000::nat)"
  using ring_pow2_rounds_up [of 5000] by simp

text \<open>
  The length that is needed can wrap to 0, which is rounded to 4096: growing an empty ring for a huge write reports success
  with far too little space.
\<close>

lemma ring_grow_wraps:
  "\<exists>buf. ring_grow_pty \<lparr>alloc_fails = (\<lambda>_. False), junk = (\<lambda>_. 7)\<rparr> \<lparr>g_buf = None, g_size = 0, g_start = 0, g_end = 0\<rparr> (- 1) =
     Some (\<lparr>g_buf = Some buf, g_size = 4096, g_start = 0, g_end = 0\<rparr>, ok)"
  by (simp add: ring_grow_pty_def ring_pow2_def ring_resize_pty_def malloc_blk_def Let_def del: upt_rec_numeral)

end
