(* ===== verification/Shl_Pty_Open.thy ===== *)
theory Shl_Pty_Open
  imports Shl_Pty_Ring
begin

text \<open>
  Opening a PTY (\<^verbatim>\<open>shl_pty_open\<close> in \<^verbatim>\<open>src/shl_pty.c\<close>): the parent allocates the object and the descriptors,
  the child sets its terminal up and wakes the parent through a pipe. A process is its table of open
  descriptors and what the calls change of its terminal, session and signals. Whether a system call
  fails, and which number it returns, is an argument (the records \<open>kernel\<close> and \<open>child_kernel\<close>); the
  effect of a successful call is the documented one. Closing never fails.
\<close>

datatype file_obj = Master | Slave | PipeRead | PipeWrite | OtherFile nat

text \<open>An open descriptor has its object and its close-on-exec flag.\<close>

type_synonym fdtab = "int \<rightharpoonup> file_obj \<times> bool"

record termios =
  t_cc :: "u8 list"

definition VERASE :: nat where "VERASE = 2"

definition SIGUNUSED :: nat where "SIGUNUSED = 31"

record winsize =
  ws_col :: u16
  ws_row :: u16

record proc =
  p_fds :: fdtab
  p_attr :: termios \<comment> \<open>the attributes of the slave terminal\<close>
  p_winsize :: winsize
  p_mask :: "nat list" \<comment> \<open>blocked signals\<close>
  p_handlers :: "nat \<Rightarrow> bool" \<comment> \<open>signals with a handler of their own\<close>
  p_session :: bool \<comment> \<open>leader of a session of its own\<close>
  p_ctty :: "file_obj option"
  p_pipe :: "u8 list" \<comment> \<open>what the process has written to the pipe\<close>

definition close_fd :: "int \<Rightarrow> proc \<Rightarrow> proc" where
  "close_fd fd p = p\<lparr>p_fds := (p_fds p)(fd := None)\<rparr>"

text \<open>All descriptors are opened with the close-on-exec flag.\<close>

definition open_fd :: "int \<Rightarrow> file_obj \<Rightarrow> proc \<Rightarrow> proc" where
  "open_fd fd f p = p\<lparr>p_fds := (p_fds p)(fd \<mapsto> (f, True))\<rparr>"

subsection \<open>The handshake byte\<close>

datatype shl_pty_msg = SHL_PTY_FAILED | SHL_PTY_SETUP

definition msg_byte :: "shl_pty_msg \<Rightarrow> u8" where
  "msg_byte m = (case m of SHL_PTY_FAILED \<Rightarrow> 0 | SHL_PTY_SETUP \<Rightarrow> 1)"

text \<open>
  The results of the successive \<^verbatim>\<open>read\<close> (\<^verbatim>\<open>write\<close>) calls are a list; a loop that uses it up has not
  returned (\<^const>\<open>None\<close>).
\<close>

primrec pty_recv :: "(errno + u8 list) list \<Rightarrow> u8 option" where
  "pty_recv [] = None"
| "pty_recv (r # rs) =
     (case r of
        Inl e \<Rightarrow> if e = EINTR \<or> e = EAGAIN then pty_recv rs else Some (msg_byte SHL_PTY_FAILED)
      | Inr bytes \<Rightarrow> (case bytes of [] \<Rightarrow> Some (msg_byte SHL_PTY_FAILED) | d # _ \<Rightarrow> Some d))"

primrec pty_send :: "(errno + nat) list \<Rightarrow> u8 \<Rightarrow> proc \<Rightarrow> (proc \<times> unit res) option" where
  "pty_send [] d p = None"
| "pty_send (r # rs) d p =
     (case r of
        Inl e \<Rightarrow> if e = EINTR \<or> e = EAGAIN then pty_send rs d p else Some (p, Inl EINVAL)
      | Inr n \<Rightarrow> if n = 1 then Some (p\<lparr>p_pipe := p_pipe p @ [d]\<rparr>, ok) else Some (p, Inl EINVAL))"

subsection \<open>The child\<close>

record child_kernel =
  k_sigprocmask :: "unit res"
  k_grantpt :: "unit res"
  k_unlockpt :: "unit res"
  k_ptsname :: "unit res"
  k_open :: "errno + int"
  k_setsid :: "errno + int"
  k_sctty :: "unit res"
  k_tcgetattr :: "unit res"
  k_tcsetattr :: "unit res"
  k_winsize :: "unit res"
  k_dup2 :: "int \<Rightarrow> unit res"
  k_write :: "(errno + nat) list"

text \<open>
  \<^verbatim>\<open>dup2\<close> returns the new number and clears its close-on-exec flag; it does nothing when both numbers are
  the same.
\<close>

definition dup2 :: "child_kernel \<Rightarrow> int \<Rightarrow> int \<Rightarrow> proc \<Rightarrow> proc \<times> unit res" where
  "dup2 k old new p =
     (case k_dup2 k new of
        Inl e \<Rightarrow> (p, Inl e)
      | Inr _ \<Rightarrow>
          if old = new then (p, ok)
          else (p\<lparr>p_fds := (p_fds p)(new := map_option (\<lambda>(f, _). (f, False)) (p_fds p old))\<rparr>, ok))"

definition pty_setup_child :: "child_kernel \<Rightarrow> int \<Rightarrow> u16 \<Rightarrow> u16 \<Rightarrow> proc \<Rightarrow> proc \<times> unit res" where
  "pty_setup_child k slave term_width term_height p =
     (case k_tcgetattr k of
        Inl e \<Rightarrow> (p, Inl e)
      | Inr _ \<Rightarrow>
          (let attr = (p_attr p)\<lparr>t_cc := (t_cc (p_attr p))[VERASE := 8]\<rparr>
           in case k_tcsetattr k of
                Inl e \<Rightarrow> (p, Inl e)
              | Inr _ \<Rightarrow>
                  (let p = p\<lparr>p_attr := attr\<rparr>; ws = \<lparr>ws_col = term_width, ws_row = term_height\<rparr>
                   in case k_winsize k of
                        Inl e \<Rightarrow> (p, Inl e)
                      | Inr _ \<Rightarrow>
                          (let p = p\<lparr>p_winsize := ws\<rparr>
                           in case dup2 k slave 0 p of
                                (p, Inl e) \<Rightarrow> (p, Inl e)
                              | (p, Inr _) \<Rightarrow>
                                  (case dup2 k slave 1 p of
                                     (p, Inl e) \<Rightarrow> (p, Inl e)
                                   | (p, Inr _) \<Rightarrow>
                                       (case dup2 k slave 2 p of
                                          (p, Inl e) \<Rightarrow> (p, Inl e)
                                        | (p, Inr _) \<Rightarrow> (p, ok)))))))"

definition pty_init_child :: "child_kernel \<Rightarrow> int \<Rightarrow> proc \<Rightarrow> proc \<times> (errno + int)" where
  "pty_init_child k fd p =
     (case k_sigprocmask k of
        Inl e \<Rightarrow> (p, Inl e)
      | Inr _ \<Rightarrow>
          (let p = p\<lparr>p_mask := [], p_handlers := (\<lambda>i. if 1 \<le> i \<and> i < SIGUNUSED then False else p_handlers p i)\<rparr>
           in case k_grantpt k of
                Inl e \<Rightarrow> (p, Inl e)
              | Inr _ \<Rightarrow>
          (case k_unlockpt k of
             Inl e \<Rightarrow> (p, Inl e)
           | Inr _ \<Rightarrow>
          (case k_ptsname k of
             Inl e \<Rightarrow> (p, Inl e)
           | Inr _ \<Rightarrow>
          (case k_open k of
             Inl e \<Rightarrow> (p, Inl e)
           | Inr slave \<Rightarrow>
               (let p = open_fd slave Slave p
                in case k_setsid k of
                     Inl e \<Rightarrow> (close_fd slave p, Inl e)
                   | Inr _ \<Rightarrow>
                       (let p = p\<lparr>p_session := True, p_ctty := None\<rparr>
                        in case k_sctty k of
                             Inl e \<Rightarrow> (close_fd slave p, Inl e)
                           | Inr _ \<Rightarrow> (p\<lparr>p_ctty := map_option fst (p_fds p slave)\<rparr>, Inr slave))))))))"

subsection \<open>The object and the parent\<close>

record shl_pty =
  pty_ref :: u64
  pty_fd :: int
  pty_child :: int
  pty_out :: ring

text \<open>The results of the calls the parent makes; \<^verbatim>\<open>fork\<close> returns 0 in the child.\<close>

record kernel =
  k_calloc :: bool
  k_openpt :: "errno + int"
  k_pipe2 :: "errno + int \<times> int"
  k_fork :: "errno + int"
  k_read :: "(errno + u8 list) list"
  k_child :: child_kernel

text \<open>
  The memory of the object: \<^const>\<open>None\<close> when it is not allocated. \<^verbatim>\<open>calloc\<close> gives zeroed memory; writing a
  field and freeing are undefined on memory that is not allocated.
\<close>

type_synonym pty_mem = "shl_pty option"

definition pty_calloc :: pty_mem where
  "pty_calloc = Some \<lparr>pty_ref = 0, pty_fd = 0, pty_child = 0, pty_out = pring_zero\<rparr>"

definition pty_set :: "(shl_pty \<Rightarrow> shl_pty) \<Rightarrow> pty_mem \<Rightarrow> pty_mem option" where
  "pty_set f m = (case m of None \<Rightarrow> None | Some pty \<Rightarrow> Some (Some (f pty)))"

definition pty_free :: "pty_mem \<Rightarrow> pty_mem option" where
  "pty_free m = (case m of None \<Rightarrow> None | Some _ \<Rightarrow> Some None)"

text \<open>
  How the call ends: the process exits, or it returns a number (or an error) and stores the object (or
  null, or nothing) through \<^verbatim>\<open>out\<close>. Beside the process and the outcome, a run gives whether the object is
  still allocated.
\<close>

datatype outcome = Exited | Returned "errno + int" "shl_pty option option"

definition pty_open_child ::
  "kernel \<Rightarrow> int \<Rightarrow> int \<Rightarrow> int \<Rightarrow> u16 \<Rightarrow> u16 \<Rightarrow> pty_mem \<Rightarrow> proc \<Rightarrow> (proc \<times> bool \<times> outcome) option" where
  "pty_open_child k fd comm0 comm1 term_width term_height mem p = do {
     let p = close_fd comm0 p;
     mem \<leftarrow> pty_free mem;
     case pty_init_child (k_child k) fd p of
       (p, r) \<Rightarrow>
         (let p = close_fd fd p
          in case r of
               Inl _ \<Rightarrow> Some (p, mem \<noteq> None, Exited)
             | Inr slave \<Rightarrow>
                 (case pty_setup_child (k_child k) slave term_width term_height p of
                    (p, Inl _) \<Rightarrow> Some (p, mem \<noteq> None, Exited)
                  | (p, Inr _) \<Rightarrow>
                      (let p = (if slave > 2 then close_fd slave p else p)
                       in do {
                         (p, _) \<leftarrow> pty_send (k_write (k_child k)) (msg_byte SHL_PTY_SETUP) p;
                         Some (close_fd comm1 p, mem \<noteq> None, Returned (Inr 0) (Some None)) }))) }"

definition shl_pty_open :: "kernel \<Rightarrow> u16 \<Rightarrow> u16 \<Rightarrow> proc \<Rightarrow> (proc \<times> bool \<times> outcome) option" where
  "shl_pty_open k term_width term_height p =
     (if \<not> k_calloc k then Some (p, False, Returned (Inl ENOMEM) None)
      else let mem = pty_calloc in
      case k_openpt k of
        Inl e \<Rightarrow> do { mem \<leftarrow> pty_free mem; Some (p, mem \<noteq> None, Returned (Inl e) None) }
      | Inr fd \<Rightarrow>
          (let p = open_fd fd Master p
           in case k_pipe2 k of
                Inl e \<Rightarrow> do { mem \<leftarrow> pty_free mem; Some (close_fd fd p, mem \<noteq> None, Returned (Inl e) None) }
              | Inr (comm0, comm1) \<Rightarrow>
                  (let p = open_fd comm1 PipeWrite (open_fd comm0 PipeRead p)
                   in case k_fork k of
                        Inl e \<Rightarrow> do {
                          let p = close_fd fd (close_fd comm1 (close_fd comm0 p));
                          mem \<leftarrow> pty_free mem;
                          Some (p, mem \<noteq> None, Returned (Inl e) None) }
                      | Inr pid \<Rightarrow>
                          if pid = 0 then pty_open_child k fd comm0 comm1 term_width term_height mem p
                          else do {
                            let p = close_fd comm1 p;
                            mem \<leftarrow> pty_set (\<lambda>pty. pty\<lparr>pty_ref := 1, pty_fd := fd, pty_child := pid\<rparr>) mem;
                            d \<leftarrow> pty_recv (k_read k);
                            if d \<noteq> msg_byte SHL_PTY_SETUP then do {
                              let p = close_fd fd (close_fd comm0 p);
                              mem \<leftarrow> pty_free mem;
                              Some (p, mem \<noteq> None, Returned (Inl EINVAL) None) }
                            else Some (close_fd comm0 p, mem \<noteq> None, Returned (Inr pid) (Some mem)) })))"

lemmas pty_mem_defs = pty_calloc_def pty_set_def pty_free_def

subsection \<open>Properties\<close>

text \<open>
  The numbers the kernel hands out are unused, as documented, and the write end of the pipe is not
  one of the standard descriptors (which the calling process has open).
\<close>

definition fresh_fds :: "kernel \<Rightarrow> proc \<Rightarrow> bool" where
  "fresh_fds k p \<longleftrightarrow>
     (case k_openpt k of
        Inl _ \<Rightarrow> True
      | Inr fd \<Rightarrow> 0 \<le> fd \<and> p_fds p fd = None \<and>
          (case k_pipe2 k of
             Inl _ \<Rightarrow> True
           | Inr (c0, c1) \<Rightarrow> distinct [fd, c0, c1] \<and> p_fds p c0 = None \<and> p_fds p c1 = None \<and> 2 < c1 \<and>
               (case k_open (k_child k) of
                  Inl _ \<Rightarrow> True
                | Inr s \<Rightarrow> 0 \<le> s \<and> s \<noteq> fd \<and> s \<noteq> c1 \<and> p_fds p s = None)))"

lemma close_open_fd:
  "close_fd a (open_fd a f p) = close_fd a p"
  "a \<noteq> b \<Longrightarrow> close_fd a (open_fd b f p) = open_fd b f (close_fd a p)"
  by (simp_all add: close_fd_def open_fd_def fun_upd_twist)

lemma p_fds_table:
  "p_fds (close_fd a p) = (p_fds p)(a := None)" "p_fds (open_fd a f p) = (p_fds p)(a \<mapsto> (f, True))"
  by (simp_all add: close_fd_def open_fd_def)

lemma close_fd_unused: "p_fds p a = None \<Longrightarrow> close_fd a p = p"
  by (simp add: close_fd_def fun_upd_idem)

lemma pty_open_parent_result:
  assumes "fresh_fds k p" "k_fork k \<noteq> Inr 0" "shl_pty_open k w h p = Some (p', live, res)"
  shows "(\<exists>e. res = Returned (Inl e) None) \<and> \<not> live \<and> p' = p \<or>
    (\<exists>fd pid. res = Returned (Inr pid) (Some (Some \<lparr>pty_ref = 1, pty_fd = fd, pty_child = pid, pty_out = pring_zero\<rparr>)) \<and>
       live \<and> pid \<noteq> 0 \<and> k_openpt k = Inr fd \<and> k_fork k = Inr pid \<and> p' = open_fd fd Master p)"
proof (cases "k_openpt k")
  case (Inl e)
  then show ?thesis using assms by (auto simp: shl_pty_open_def pty_mem_defs split: if_splits)
next
  case (Inr fd)
  note fd = Inr
  show ?thesis
  proof (cases "k_pipe2 k")
    case (Inl e)
    then show ?thesis using assms fd
      by (auto simp: shl_pty_open_def pty_mem_defs fresh_fds_def close_open_fd close_fd_unused split: if_splits)
  next
    case (Inr c)
    obtain c0 c1 where c: "c = (c0, c1)" by fastforce
    have fresh: "fd \<noteq> c0" "fd \<noteq> c1" "c0 \<noteq> c1" "p_fds p fd = None" "p_fds p c0 = None" "p_fds p c1 = None"
      using assms(1) fd Inr c by (auto simp: fresh_fds_def)
    show ?thesis
      using assms(2,3) fd Inr c fresh
      by (auto simp: shl_pty_open_def pty_mem_defs Let_def close_open_fd close_fd_unused
          split: if_splits sum.splits bind_splits)
  qed
qed

text \<open>
  C34. Opening leaks nothing in the parent: whatever call fails (the wait for the child included), the
  descriptor table is as before, the object is freed, and an error is returned; on success exactly the
  master is open in addition, and the object has one reference, the master and the child.
\<close>

theorem pty_open_parent:
  assumes "fresh_fds k p" "k_fork k \<noteq> Inr 0" "shl_pty_open k w h p = Some (p', live, res)"
  shows "(\<exists>e. res = Returned (Inl e) None) \<and> \<not> live \<and> p' = p \<or>
    (\<exists>fd pid. res = Returned (Inr pid) (Some (Some \<lparr>pty_ref = 1, pty_fd = fd, pty_child = pid, pty_out = pring_zero\<rparr>)) \<and>
       live \<and> pid \<noteq> 0 \<and> k_openpt k = Inr fd \<and> k_fork k = Inr pid \<and> p' = open_fd fd Master p)"
  using assms by (rule pty_open_parent_result)

definition kernel0 :: kernel where
  "kernel0 =
     \<lparr>k_calloc = True, k_openpt = Inr 3, k_pipe2 = Inr (4, 5), k_fork = Inr 77, k_read = [Inl EINTR, Inr [1]],
      k_child = \<lparr>k_sigprocmask = ok, k_grantpt = ok, k_unlockpt = ok, k_ptsname = ok, k_open = Inr 4,
        k_setsid = Inr 77, k_sctty = ok, k_tcgetattr = ok, k_tcsetattr = ok, k_winsize = ok,
        k_dup2 = (\<lambda>_. ok), k_write = [Inl EAGAIN, Inr 1]\<rparr>\<rparr>"

definition proc0 :: proc where
  "proc0 =
     \<lparr>p_fds = [0 \<mapsto> (OtherFile 0, False), 1 \<mapsto> (OtherFile 0, False), 2 \<mapsto> (OtherFile 0, False)],
      p_attr = \<lparr>t_cc = [3, 28, 127, 21]\<rparr>, p_winsize = \<lparr>ws_col = 0, ws_row = 0\<rparr>, p_mask = [14],
      p_handlers = (\<lambda>i. i = 15), p_session = False, p_ctty = Some (OtherFile 0), p_pipe = []\<rparr>"

lemma kernel0_fresh: "fresh_fds kernel0 proc0"
  by (simp add: fresh_fds_def kernel0_def proc0_def)

lemma open0:
  "shl_pty_open kernel0 80 24 proc0 =
     Some (open_fd 3 Master proc0, True,
       Returned (Inr 77) (Some (Some \<lparr>pty_ref = 1, pty_fd = 3, pty_child = 77, pty_out = pring_zero\<rparr>)))"
  by (simp add: shl_pty_open_def pty_mem_defs kernel0_def close_open_fd Let_def msg_byte_def)
    (simp add: proc0_def close_fd_def open_fd_def fun_upd_idem fun_upd_twist)

theorem pty_open_parent_witness:
  "\<exists>p' live res. shl_pty_open kernel0 80 24 proc0 = Some (p', live, res) \<and>
     ((\<exists>e. res = Returned (Inl e) None) \<and> \<not> live \<and> p' = proc0 \<or>
      (\<exists>fd pid. res = Returned (Inr pid) (Some (Some \<lparr>pty_ref = 1, pty_fd = fd, pty_child = pid, pty_out = pring_zero\<rparr>)) \<and>
         live \<and> pid \<noteq> 0 \<and> k_openpt kernel0 = Inr fd \<and> k_fork kernel0 = Inr pid \<and> p' = open_fd fd Master proc0))"
proof -
  have "k_fork kernel0 \<noteq> Inr 0" by (simp add: kernel0_def)
  then show ?thesis using open0 pty_open_parent [OF kernel0_fresh _ open0] by blast
qed

subsubsection \<open>The child and the handshake\<close>

text \<open>
  What the child promises: the standard descriptors are the slave and nothing else has changed in the
  table; the slave is the controlling terminal of a session of its own, has the given size and erases
  with backspace; no signal is blocked or handled.
\<close>

definition child_terminal :: "int \<Rightarrow> u16 \<Rightarrow> u16 \<Rightarrow> proc \<Rightarrow> proc \<Rightarrow> bool" where
  "child_terminal slave w h p pc \<longleftrightarrow>
     p_fds pc = (p_fds p)(0 \<mapsto> (Slave, slave = 0), 1 \<mapsto> (Slave, slave = 1), 2 \<mapsto> (Slave, slave = 2)) \<and>
     p_winsize pc = \<lparr>ws_col = w, ws_row = h\<rparr> \<and>
     p_attr pc = (p_attr p)\<lparr>t_cc := (t_cc (p_attr p))[VERASE := 8]\<rparr> \<and>
     p_mask pc = [] \<and> (\<forall>i \<in> {1..<SIGUNUSED}. \<not> p_handlers pc i) \<and>
     p_session pc \<and> p_ctty pc = Some Slave"

lemma pty_send_proc:
  assumes "pty_send rs d p = Some (p', r)"
  shows "p' = (if r = ok then p\<lparr>p_pipe := p_pipe p @ [d]\<rparr> else p)"
  using assms by (induction rs) (auto split: sum.splits if_splits)

lemma pty_init_child_ok:
  assumes "pty_init_child k fd p = (p', Inr slave)"
  shows "k_open k = Inr slave \<and>
    p' = p\<lparr>p_fds := (p_fds p)(slave \<mapsto> (Slave, True)), p_mask := [],
      p_handlers := (\<lambda>i. if 1 \<le> i \<and> i < SIGUNUSED then False else p_handlers p i),
      p_session := True, p_ctty := Some Slave\<rparr>"
  using assms by (auto simp: pty_init_child_def open_fd_def Let_def split: sum.splits)

lemma pty_init_child_pipe: "pty_init_child k fd p = (p', r) \<Longrightarrow> p_pipe p' = p_pipe p"
  by (auto simp: pty_init_child_def open_fd_def close_fd_def Let_def split: sum.splits)

lemma pty_setup_child_ok:
  assumes "pty_setup_child k slave w h p = (p', Inr u)" "p_fds p slave = Some (Slave, True)"
  shows "p' = p\<lparr>p_fds := (\<lambda>i. if i \<in> {0, 1, 2} then Some (Slave, slave = i) else p_fds p i),
    p_attr := (p_attr p)\<lparr>t_cc := (t_cc (p_attr p))[VERASE := 8]\<rparr>,
    p_winsize := \<lparr>ws_col = w, ws_row = h\<rparr>\<rparr>"
  using assms
  by (cases "slave = 0"; cases "slave = 1"; cases "slave = 2")
    (auto simp: pty_setup_child_def dup2_def Let_def fun_eq_iff split: sum.splits if_splits)

lemma pty_setup_child_pipe: "pty_setup_child k slave w h p = (p', r) \<Longrightarrow> p_pipe p' = p_pipe p"
  by (auto simp: pty_setup_child_def dup2_def Let_def split: sum.splits if_splits)

lemma child_returns:
  assumes "pty_open_child k fd c0 c1 w h (Some m) p1 = Some (pc, lc, Returned r out)"
    and "p1 = open_fd c1 PipeWrite (open_fd c0 PipeRead (open_fd fd Master p))"
    and "k_openpt k = Inr fd" "k_pipe2 k = Inr (c0, c1)" "fresh_fds k p"
  shows "\<exists>slave. k_open (k_child k) = Inr slave \<and> child_terminal slave w h p pc \<and> r = Inr 0 \<and> out = Some None"
proof -
  obtain q1 r1 where init: "pty_init_child (k_child k) fd (close_fd c0 p1) = (q1, r1)" by fastforce
  with assms(1) obtain slave where r1: "r1 = Inr slave"
    by (cases r1) (auto simp: pty_open_child_def pty_mem_defs Let_def)
  note q1 = pty_init_child_ok [OF init [unfolded r1]]
  obtain q2 r2 where su: "pty_setup_child (k_child k) slave w h (close_fd fd q1) = (q2, r2)" by fastforce
  with assms(1) init r1 obtain u where r2: "r2 = Inr u"
    by (cases r2) (auto simp: pty_open_child_def pty_mem_defs Let_def)
  have fresh: "fd \<noteq> c0" "fd \<noteq> c1" "c0 \<noteq> c1" "p_fds p fd = None" "p_fds p c0 = None" "p_fds p c1 = None"
    "2 < c1" "0 \<le> slave" "slave \<noteq> fd" "slave \<noteq> c1" "p_fds p slave = None"
    using assms(3,4,5) q1 by (auto simp: fresh_fds_def)
  have "p_fds (close_fd fd q1) slave = Some (Slave, True)"
    using q1 fresh by (simp add: close_fd_def)
  note q2 = pty_setup_child_ok [OF su [unfolded r2] this]
  obtain q3 r3 where send: "pty_send (k_write (k_child k)) (msg_byte SHL_PTY_SETUP)
      (if slave > 2 then close_fd slave q2 else q2) = Some (q3, r3)"
    and pc: "pc = close_fd c1 q3" "r = Inr 0" "out = Some None"
    using assms(1) init su r1 r2 by (auto simp: pty_open_child_def pty_mem_defs Let_def split: bind_splits)
  have "p_fds pc = (p_fds p)(0 \<mapsto> (Slave, slave = 0), 1 \<mapsto> (Slave, slave = 1), 2 \<mapsto> (Slave, slave = 2))"
  proof
    fix i
    have "p_fds pc = (p_fds (if slave > 2 then close_fd slave q2 else q2))(c1 := None)"
      using pty_send_proc [OF send] pc(1) by (simp add: close_fd_def)
    moreover have "p_fds q2 = (\<lambda>i. if i \<in> {0, 1, 2} then Some (Slave, slave = i) else
        ((p_fds p)(fd \<mapsto> (Master, True), c0 \<mapsto> (PipeRead, True), c1 \<mapsto> (PipeWrite, True), c0 := None,
           slave \<mapsto> (Slave, True), fd := None)) i)"
    proof -
      have "p_fds q1 = (p_fds p)(fd \<mapsto> (Master, True), c0 \<mapsto> (PipeRead, True), c1 \<mapsto> (PipeWrite, True), c0 := None,
          slave \<mapsto> (Slave, True))"
      proof -
        have "p_fds q1 = (p_fds (close_fd c0 p1))(slave \<mapsto> (Slave, True))" using q1 by simp
        then show ?thesis by (simp only: assms(2) p_fds_table)
      qed
      moreover have "p_fds q2 = (\<lambda>i. if i \<in> {0, 1, 2} then Some (Slave, slave = i) else p_fds (close_fd fd q1) i)"
        by (subst q2) simp
      ultimately show ?thesis by (simp only: p_fds_table)
    qed
    ultimately show "p_fds pc i = ((p_fds p)(0 \<mapsto> (Slave, slave = 0), 1 \<mapsto> (Slave, slave = 1), 2 \<mapsto> (Slave, slave = 2))) i"
      using fresh by (simp add: close_fd_def)
  qed
  moreover have "child_terminal slave w h (p\<lparr>p_fds := p_fds pc\<rparr>) pc \<longleftrightarrow>
      p_fds pc = (p_fds pc)(0 \<mapsto> (Slave, slave = 0), 1 \<mapsto> (Slave, slave = 1), 2 \<mapsto> (Slave, slave = 2))"
    using pty_send_proc [OF send] pc(1) q1 assms(2)
    by (simp add: child_terminal_def close_fd_def open_fd_def q2)
  ultimately have "child_terminal slave w h p pc"
    by (simp add: child_terminal_def)
  then show ?thesis using q1 pc by blast
qed

lemma child_pipe:
  assumes "pty_open_child k fd c0 c1 w h (Some m) p = Some (pc, lc, rc)" "p_pipe p = []"
  shows "if rc = Exited then p_pipe pc = [] else p_pipe pc \<in> {[], [msg_byte SHL_PTY_SETUP]}"
  using assms
  by (auto simp: pty_open_child_def pty_mem_defs Let_def close_fd_def
      dest!: pty_init_child_pipe pty_setup_child_pipe pty_send_proc
      split: prod.splits sum.splits if_splits bind_splits)

text \<open>
  The pipe delivers to the parent the byte the child wrote, or the end of the stream when the child
  ended (all write ends are closed then) without writing; before that, reads may be interrupted.
\<close>

definition pipe_delivers :: "(errno + u8 list) list \<Rightarrow> u8 list \<Rightarrow> bool" where
  "pipe_delivers rs bytes \<longleftrightarrow>
     rs \<noteq> [] \<and> last rs = Inr (take 1 bytes) \<and> list_all (\<lambda>r. r \<in> {Inl EINTR, Inl EAGAIN}) (butlast rs)"

lemma pty_recv_delivered:
  assumes "pipe_delivers rs bytes"
  shows "pty_recv rs = Some (case bytes of [] \<Rightarrow> msg_byte SHL_PTY_FAILED | d # _ \<Rightarrow> d)"
  using assms
proof (induction rs)
  case (Cons r rs)
  then show ?case
    by (cases rs) (auto simp: pipe_delivers_def split: list.splits)
qed (simp add: pipe_delivers_def)

text \<open>
  C35. The two sides of the fork agree. When the child's side of the call returns, its standard
  descriptors are the slave, which is its controlling terminal with the requested size, and every
  other descriptor of the call is closed. The parent's side always returns; it succeeds exactly when
  the child's side returned after telling so through the pipe, and reports an error when the child
  gave up at any step.
\<close>

theorem pty_open_handshake:
  assumes "fresh_fds k p" "p_pipe p = []" "k_calloc k" "k_openpt k = Inr fd" "k_pipe2 k = Inr (c0, c1)"
    and "k_fork k = Inr pid" "pid \<noteq> 0"
    and "shl_pty_open (k\<lparr>k_fork := Inr 0\<rparr>) w h p = Some (pc, lc, rc)"
    and "pipe_delivers (k_read k) (p_pipe pc)"
  shows "(rc = Exited \<or> rc = Returned (Inr 0) (Some None) \<and>
           (\<exists>slave. k_open (k_child k) = Inr slave \<and> child_terminal slave w h p pc)) \<and>
    (\<exists>pp live rp. shl_pty_open k w h p = Some (pp, live, rp) \<and>
       rp = (if rc \<noteq> Exited \<and> p_pipe pc \<noteq> []
             then Returned (Inr pid) (Some (Some \<lparr>pty_ref = 1, pty_fd = fd, pty_child = pid, pty_out = pring_zero\<rparr>))
             else Returned (Inl EINVAL) None))"
proof -
  define k' where "k' = k\<lparr>k_fork := Inr 0\<rparr>"
  define p1 where "p1 = open_fd c1 PipeWrite (open_fd c0 PipeRead (open_fd fd Master p))"
  have k': "k_openpt k' = Inr fd" "k_pipe2 k' = Inr (c0, c1)" "k_child k' = k_child k" "fresh_fds k' p"
    using assms(1,4,5) by (simp_all add: k'_def fresh_fds_def)
  have child: "pty_open_child k' fd c0 c1 w h pty_calloc p1 = Some (pc, lc, rc)"
    using assms(3-5,8) by (simp add: shl_pty_open_def k'_def p1_def Let_def)
  have "p_pipe p1 = []" using assms(2) by (simp add: p1_def open_fd_def)
  note wrote = child_pipe [OF child [unfolded pty_calloc_def] this]
  have "rc = Exited \<or> rc = Returned (Inr 0) (Some None) \<and>
      (\<exists>slave. k_open (k_child k) = Inr slave \<and> child_terminal slave w h p pc)"
    using child_returns [OF _ p1_def k'(1,2,4), of w h _ pc lc] child k'(3) unfolding pty_calloc_def by (cases rc) fastforce+
  moreover have "pty_recv (k_read k) =
      Some (if rc \<noteq> Exited \<and> p_pipe pc \<noteq> [] then msg_byte SHL_PTY_SETUP else msg_byte SHL_PTY_FAILED)"
    using wrote pty_recv_delivered [OF assms(9)] by (auto split: if_splits)
  ultimately show ?thesis
    using assms(3-7) by (auto simp: shl_pty_open_def pty_mem_defs Let_def msg_byte_def)
qed

lemma child0:
  "shl_pty_open (kernel0\<lparr>k_fork := Inr 0\<rparr>) 80 24 proc0 =
     Some (proc0\<lparr>p_fds := [0 \<mapsto> (Slave, False), 1 \<mapsto> (Slave, False), 2 \<mapsto> (Slave, False)],
       p_attr := \<lparr>t_cc = [3, 28, 8, 21]\<rparr>, p_winsize := \<lparr>ws_col = 80, ws_row = 24\<rparr>, p_mask := [],
       p_handlers := (\<lambda>i. if 1 \<le> i \<and> i < SIGUNUSED then False else i = 15), p_session := True,
       p_ctty := Some Slave, p_pipe := [1]\<rparr>, False, Returned (Inr 0) (Some None))"
  by (simp add: shl_pty_open_def pty_mem_defs kernel0_def proc0_def pty_open_child_def pty_init_child_def
      pty_setup_child_def dup2_def open_fd_def close_fd_def Let_def msg_byte_def VERASE_def)

theorem pty_open_handshake_witness:
  "\<exists>pc lc rc. shl_pty_open (kernel0\<lparr>k_fork := Inr 0\<rparr>) 80 24 proc0 = Some (pc, lc, rc) \<and> rc \<noteq> Exited \<and>
     (\<exists>slave. k_open (k_child kernel0) = Inr slave \<and> child_terminal slave 80 24 proc0 pc) \<and>
     (\<exists>pp live. shl_pty_open kernel0 80 24 proc0 = Some (pp, live,
        Returned (Inr 77) (Some (Some \<lparr>pty_ref = 1, pty_fd = 3, pty_child = 77, pty_out = pring_zero\<rparr>))))"
  using pty_open_handshake [OF kernel0_fresh _ _ _ _ _ _ child0, of 3 4 5 77] child0
  by (simp add: kernel0_def proc0_def pipe_delivers_def) (rule exI [of _ False], simp)

end
