(* ===== verification/Shl_Pty.thy ===== *)
theory Shl_Pty
  imports Shl_Pty_Open "HOL-Library.Sublist"
begin

text \<open>
  The PTY object (\<^verbatim>\<open>src/shl_pty.c\<close>). A \<open>pty_world\<close> is the object (\<^const>\<open>None\<close> once it is
  freed: any further use is undefined) and the kernel's side of the master: the descriptors closed so
  far, what the master will deliver, what was handed to the input callback, what the terminal received
  and the sizes and signals set. The input callback is an argument: a function of the data and the state, so
  that it may write, close or drop the object while the object is dispatched.
\<close>

definition SHL_PTY_BUFSIZE :: nat where "SHL_PTY_BUFSIZE = 16384"

record pty_world =
  w_obj :: "shl_pty option"
  w_closed :: "int list"
  w_pending :: "(errno + u8 list) list"
  w_input :: "u8 list list"
  w_sent :: "u8 list"
  w_size :: "winsize option"
  w_signals :: "int list"

type_synonym input_cb = "u8 list \<Rightarrow> pty_world \<Rightarrow> pty_world option"

subsection \<open>References\<close>

text \<open>The functions that accept a null pointer get the flag \<open>null\<close>.\<close>

definition shl_pty_ref :: "bool \<Rightarrow> pty_world \<Rightarrow> pty_world option" where
  "shl_pty_ref null w =
     (if null then Some w
      else do {
        pty \<leftarrow> w_obj w;
        if pty_ref pty = 0 then Some w
        else Some (w\<lparr>w_obj := Some (pty\<lparr>pty_ref := pty_ref pty + 1\<rparr>)\<rparr>) })"

definition shl_pty_close :: "pty_world \<Rightarrow> pty_world option" where
  "shl_pty_close w = do {
     pty \<leftarrow> w_obj w;
     if pty_fd pty < 0 then Some w
     else Some (w\<lparr>w_closed := w_closed w @ [pty_fd pty], w_obj := Some (pty\<lparr>pty_fd := -1\<rparr>)\<rparr>) }"

definition shl_pty_unref :: "bool \<Rightarrow> pty_world \<Rightarrow> pty_world option" where
  "shl_pty_unref null w =
     (if null then Some w
      else do {
        pty \<leftarrow> w_obj w;
        if pty_ref pty = 0 then Some w
        else
          let pty = pty\<lparr>pty_ref := pty_ref pty - 1\<rparr>; w = w\<lparr>w_obj := Some pty\<rparr>
          in if pty_ref pty \<noteq> 0 then Some w
             else do { w \<leftarrow> shl_pty_close w; Some (w\<lparr>w_obj := None\<rparr>) } })"

definition shl_pty_is_open :: "shl_pty \<Rightarrow> bool" where
  "shl_pty_is_open pty \<longleftrightarrow> pty_fd pty \<ge> 0"

definition shl_pty_get_fd :: "shl_pty \<Rightarrow> int" where
  "shl_pty_get_fd pty = pty_fd pty"

definition shl_pty_get_child :: "shl_pty \<Rightarrow> int" where
  "shl_pty_get_child pty = pty_child pty"

subsection \<open>Input and output\<close>

text \<open>
  \<^verbatim>\<open>writev\<close> on the master: an error, or up to \<open>n\<close> of the bytes are taken. The bytes are those of the
  vectors \<^const>\<open>ring_peek\<close> returns (\<^const>\<open>peek_pty\<close>).
\<close>

definition master_writev :: "int \<Rightarrow> errno + nat \<Rightarrow> u8 list \<Rightarrow> pty_world \<Rightarrow> pty_world \<times> (errno + nat)" where
  "master_writev fd resp bytes w =
     (if fd < 0 then (w, Inl EBADF)
      else case resp of
        Inl e \<Rightarrow> (w, Inl e)
      | Inr n \<Rightarrow> (w\<lparr>w_sent := w_sent w @ take n bytes\<rparr>, Inr (min n (length bytes))))"

definition pty_write :: "errno + nat \<Rightarrow> pty_world \<Rightarrow> pty_world option" where
  "pty_write resp w = do {
     pty \<leftarrow> w_obj w;
     if fst (ring_peek (pty_out pty)) = 0 then Some w
     else do {
       bytes \<leftarrow> peek_pty (pty_out pty);
       case master_writev (pty_fd pty) resp bytes w of
         (w, Inl _) \<Rightarrow> Some w
       | (w, Inr r) \<Rightarrow> Some (w\<lparr>w_obj := Some (pty\<lparr>pty_out := ring_pop (pty_out pty) (of_nat r)\<rparr>)\<rparr>) } }"

text \<open>
  \<^verbatim>\<open>read\<close> on the master: the next pending chunk, at most a buffer of it, or the next pending error; with
  nothing pending \<^verbatim>\<open>EAGAIN\<close>, as the master is non-blocking.
\<close>

definition master_read :: "int \<Rightarrow> pty_world \<Rightarrow> pty_world \<times> (errno + u8 list)" where
  "master_read fd w =
     (if fd < 0 then (w, Inl EBADF)
      else case w_pending w of
        [] \<Rightarrow> (w, Inl EAGAIN)
      | Inl e # rest \<Rightarrow> (w\<lparr>w_pending := rest\<rparr>, Inl e)
      | Inr c # rest \<Rightarrow>
          (w\<lparr>w_pending := (if length c \<le> SHL_PTY_BUFSIZE then rest else Inr (drop SHL_PTY_BUFSIZE c) # rest)\<rparr>,
           Inr (take SHL_PTY_BUFSIZE c)))"

fun pty_read_loop :: "input_cb \<Rightarrow> nat \<Rightarrow> pty_world \<Rightarrow> (pty_world \<times> nat) option" where
  "pty_read_loop cb num w =
     w_obj w \<bind> (\<lambda>pty.
       case master_read (pty_fd pty) w of
         (w, Inl _) \<Rightarrow> Some (w, num)
       | (w, Inr in_buf) \<Rightarrow>
           if in_buf = [] then Some (w, num)
           else cb in_buf (w\<lparr>w_input := w_input w @ [in_buf]\<rparr>) \<bind> (\<lambda>w.
             if num - 1 = 0 then Some (w, 0) else pty_read_loop cb (num - 1) w))"

declare pty_read_loop.simps [simp del]

definition pty_read :: "input_cb \<Rightarrow> pty_world \<Rightarrow> (pty_world \<times> unit res) option" where
  "pty_read cb w = do {
     (w, num) \<leftarrow> pty_read_loop cb 50 w;
     Some (w, if num = 0 then Inl EAGAIN else ok) }"

definition shl_pty_dispatch :: "input_cb \<Rightarrow> errno + nat \<Rightarrow> pty_world \<Rightarrow> (pty_world \<times> unit res) option" where
  "shl_pty_dispatch cb resp w = do {
     (w, r) \<leftarrow> pty_read cb w;
     w \<leftarrow> pty_write resp w;
     Some (w, r) }"

definition shl_pty_write :: "alloc_env \<Rightarrow> u8 list \<Rightarrow> pty_world \<Rightarrow> (pty_world \<times> unit res) option" where
  "shl_pty_write env u8 w = do {
     pty \<leftarrow> w_obj w;
     if \<not> shl_pty_is_open pty then Some (w, Inl ENODEV)
     else do {
       (out, r) \<leftarrow> ring_push env (pty_out pty) u8 (of_nat (length u8));
       Some (w\<lparr>w_obj := Some (pty\<lparr>pty_out := out\<rparr>)\<rparr>, r) } }"

definition shl_pty_signal :: "unit res \<Rightarrow> int \<Rightarrow> pty_world \<Rightarrow> (pty_world \<times> unit res) option" where
  "shl_pty_signal resp sig w = do {
     pty \<leftarrow> w_obj w;
     if \<not> shl_pty_is_open pty then Some (w, Inl ENODEV)
     else case resp of
       Inl e \<Rightarrow> Some (w, Inl e)
     | Inr _ \<Rightarrow> Some (w\<lparr>w_signals := w_signals w @ [sig]\<rparr>, ok) }"

definition shl_pty_resize :: "unit res \<Rightarrow> u16 \<Rightarrow> u16 \<Rightarrow> pty_world \<Rightarrow> (pty_world \<times> unit res) option" where
  "shl_pty_resize resp term_width term_height w = do {
     pty \<leftarrow> w_obj w;
     if \<not> shl_pty_is_open pty then Some (w, Inl ENODEV)
     else case resp of
       Inl e \<Rightarrow> Some (w, Inl e)
     | Inr _ \<Rightarrow> Some (w\<lparr>w_size := Some \<lparr>ws_col = term_width, ws_row = term_height\<rparr>\<rparr>, ok) }"

subsection \<open>Streams\<close>

text \<open>
  The output stream: what the terminal has received, followed by what is still queued. The input
  stream: the bytes still pending on the master.
\<close>

definition pty_inv :: "pty_world \<Rightarrow> bool" where
  "pty_inv w \<longleftrightarrow> (case w_obj w of None \<Rightarrow> False | Some pty \<Rightarrow> pring_inv (pty_out pty))"

definition out_stream :: "pty_world \<Rightarrow> u8 list" where
  "out_stream w = w_sent w @ (case w_obj w of None \<Rightarrow> [] | Some pty \<Rightarrow> pring_data (pty_out pty))"

definition in_stream :: "(errno + u8 list) list \<Rightarrow> u8 list" where
  "in_stream rs = concat (map (case_sum (\<lambda>_. []) (\<lambda>c. c)) rs)"

lemma in_stream_simps [simp]:
  "in_stream [] = []" "in_stream (Inl e # rs) = in_stream rs" "in_stream (Inr c # rs) = c @ in_stream rs"
  by (simp_all add: in_stream_def)

text \<open>
  What the object relies on when it calls back: the callback may queue output and may close the
  object, and keeps everything else.
\<close>

definition cb_effect :: "pty_world \<Rightarrow> pty_world \<Rightarrow> bool" where
  "cb_effect w w' \<longleftrightarrow>
     pty_inv w' \<and> prefix (out_stream w) (out_stream w') \<and> w_sent w' = w_sent w \<and> w_pending w' = w_pending w \<and>
     w_input w' = w_input w \<and>
     map_option pty_fd (w_obj w') \<in> {map_option pty_fd (w_obj w), Some (-1)}"

definition well_behaved :: "input_cb \<Rightarrow> bool" where
  "well_behaved cb \<longleftrightarrow> (\<forall>bytes w. pty_inv w \<longrightarrow> (\<exists>w'. cb bytes w = Some w' \<and> cb_effect w w'))"

text \<open>The chunks the master delivers until the first error or end of file.\<close>

definition only_data :: "(errno + u8 list) list \<Rightarrow> bool" where
  "only_data rs \<longleftrightarrow> list_all (\<lambda>r. \<exists>c. r = Inr c \<and> c \<noteq> []) rs"

definition fd_of :: "pty_world \<Rightarrow> int" where
  "fd_of w = (case w_obj w of None \<Rightarrow> -1 | Some pty \<Rightarrow> pty_fd pty)"

definition read_effect :: "pty_world \<Rightarrow> pty_world \<Rightarrow> u8 list list \<Rightarrow> bool" where
  "read_effect w w' cs \<longleftrightarrow>
     pty_inv w' \<and> prefix (out_stream w) (out_stream w') \<and> w_sent w' = w_sent w \<and>
     w_input w' = w_input w @ cs \<and> in_stream (w_pending w) = concat cs @ in_stream (w_pending w') \<and>
     (\<forall>c \<in> set cs. c \<noteq> [] \<and> length c \<le> SHL_PTY_BUFSIZE) \<and>
     fd_of w' \<in> {fd_of w, -1}"

lemma master_read_data:
  assumes "master_read fd w = (w1, Inr c)"
  shows "fd \<ge> 0" "w1 = w\<lparr>w_pending := w_pending w1\<rparr>" "in_stream (w_pending w) = c @ in_stream (w_pending w1)"
    "length c \<le> SHL_PTY_BUFSIZE" "only_data (w_pending w) \<Longrightarrow> c \<noteq> [] \<and> only_data (w_pending w1)"
  using assms
  by (auto simp: master_read_def only_data_def SHL_PTY_BUFSIZE_def split: if_splits list.splits sum.splits)

lemma master_read_none:
  assumes "master_read fd w = (w1, Inl e)"
  shows "w1 = w\<lparr>w_pending := w_pending w1\<rparr>" "in_stream (w_pending w) = in_stream (w_pending w1)"
    "only_data (w_pending w) \<Longrightarrow> fd \<ge> 0 \<Longrightarrow> w_pending w1 = []"
  using assms by (auto simp: master_read_def only_data_def split: if_splits list.splits sum.splits)

lemma read_step:
  assumes "master_read (fd_of w) w = (w1, Inr c)" "c \<noteq> []" "pty_inv w" "well_behaved cb"
  obtains w2 where "cb c (w1\<lparr>w_input := w_input w1 @ [c]\<rparr>) = Some w2" "read_effect w w2 [c]" "w_pending w2 = w_pending w1"
proof -
  let ?w = "w1\<lparr>w_input := w_input w1 @ [c]\<rparr>"
  note m = master_read_data [OF assms(1)]
  have same: "w_obj ?w = w_obj w" "w_sent ?w = w_sent w" "w_input ?w = w_input w @ [c]" "w_pending ?w = w_pending w1"
    by (subst m(2), simp)+
  have "pty_inv ?w" using assms(3) same(1) by (simp add: pty_inv_def)
  with assms(4) obtain w2 where w2: "cb c ?w = Some w2" "cb_effect ?w w2" by (auto simp: well_behaved_def)
  have "out_stream ?w = out_stream w" by (simp add: out_stream_def same)
  moreover have "fd_of w2 \<in> {fd_of w, -1}"
    using w2(2) same(1) assms(3) by (auto simp: cb_effect_def fd_of_def pty_inv_def split: option.splits)
  ultimately have "read_effect w w2 [c]"
    using w2(2) m(3,4) assms(2) same(2,3,4) by (simp add: cb_effect_def read_effect_def)
  with w2 same(4) that show thesis by (auto simp: cb_effect_def)
qed

lemma read_effect_trans:
  assumes "read_effect w w1 cs" "read_effect w1 w2 ds"
  shows "read_effect w w2 (cs @ ds)"
  using assms by (auto simp: read_effect_def intro: prefix_order.trans)

lemma pty_read_loop_spec:
  assumes "pty_inv w" "well_behaved cb" "0 < num"
  shows "\<exists>w' n cs. pty_read_loop cb num w = Some (w', n) \<and> read_effect w w' cs \<and> length cs + n = num \<and>
    (n \<noteq> 0 \<longrightarrow> only_data (w_pending w) \<longrightarrow> fd_of w' \<ge> 0 \<longrightarrow> w_pending w' = [])"
  using assms(1,3)
proof (induction num arbitrary: w rule: less_induct)
  case (less num)
  obtain pty where pty: "w_obj w = Some pty" "fd_of w = pty_fd pty"
    using less.prems(1) by (auto simp: pty_inv_def fd_of_def split: option.splits)
  obtain w1 r where mr: "master_read (fd_of w) w = (w1, r)" by fastforce
  note eq = pty_read_loop.simps [of cb num w]
  show ?case
  proof (cases "\<exists>c. r = Inr c \<and> c \<noteq> []")
    case True
    then obtain c where c: "r = Inr c" "c \<noteq> []" by blast
    from read_step [OF mr [unfolded c(1)] c(2) less.prems(1) assms(2)] obtain w2 where
      w2: "cb c (w1\<lparr>w_input := w_input w1 @ [c]\<rparr>) = Some w2" "read_effect w w2 [c]" "w_pending w2 = w_pending w1" .
    show ?thesis
    proof (cases "num - 1 = 0")
      case True
      then have "pty_read_loop cb num w = Some (w2, 0)" "num = 1"
        using eq pty mr c w2(1) less.prems(2) by simp_all
      then show ?thesis using w2(2) by fastforce
    next
      case False
      then have step: "pty_read_loop cb num w = pty_read_loop cb (num - 1) w2"
        using eq pty mr c w2(1) by simp
      have inv2: "pty_inv w2" using w2(2) by (simp add: read_effect_def)
      have "num - 1 < num" "0 < num - 1" using False by simp_all
      from less.IH [OF this(1) inv2 this(2)] obtain w' n cs where
        ih: "pty_read_loop cb (num - 1) w2 = Some (w', n)" "read_effect w2 w' cs" "length cs + n = num - 1"
          "n \<noteq> 0 \<longrightarrow> only_data (w_pending w2) \<longrightarrow> fd_of w' \<ge> 0 \<longrightarrow> w_pending w' = []" by blast
      have "only_data (w_pending w) \<Longrightarrow> only_data (w_pending w2)"
        using master_read_data(5) [OF mr [unfolded c(1)]] w2(3) by simp
      then show ?thesis
        using step ih read_effect_trans [OF w2(2) ih(2)] False by (intro exI [of _ w'] exI [of _ n] exI [of _ "[c] @ cs"]) auto
    qed
  next
    case False
    then have res: "pty_read_loop cb num w = Some (w1, num)" using eq pty mr by (auto split: sum.splits)
    have keep: "w1 = w\<lparr>w_pending := w_pending w1\<rparr>" "in_stream (w_pending w) = in_stream (w_pending w1)"
      "only_data (w_pending w) \<Longrightarrow> fd_of w \<ge> 0 \<Longrightarrow> w_pending w1 = []"
      using False mr master_read_none [of "fd_of w" w w1] master_read_data [of "fd_of w" w w1] by (cases r; auto)+
    have same: "w_obj w1 = w_obj w" "w_sent w1 = w_sent w" "w_input w1 = w_input w" by (subst keep(1), simp)+
    then have "read_effect w w1 []" "fd_of w1 = fd_of w"
      using keep(2) less.prems(1) by (simp_all add: read_effect_def pty_inv_def out_stream_def fd_of_def)
    then show ?thesis using res keep(3) by fastforce
  qed
qed

lemma ring_peek_nothing:
  assumes "pring_inv r" "fst (ring_peek r) = 0"
  shows "pring_data r = []"
  using peek_pty_correct [OF assms(1)] assms(2) by (auto simp: peek_pty_def split: prod.splits)

lemma pty_write_spec:
  assumes "pty_inv w"
  shows "\<exists>w'. pty_write resp w = Some w' \<and> pty_inv w' \<and> out_stream w' = out_stream w \<and>
    w_sent w' = w_sent w @ (case resp of Inl _ \<Rightarrow> [] | Inr n \<Rightarrow> if fd_of w < 0 then [] else take n (drop (length (w_sent w)) (out_stream w))) \<and>
    w_input w' = w_input w \<and> w_pending w' = w_pending w \<and> fd_of w' = fd_of w"
proof -
  obtain pty where pty: "w_obj w = Some pty" "pring_inv (pty_out pty)"
    using assms by (auto simp: pty_inv_def split: option.splits)
  note peek = peek_pty_correct [OF pty(2)]
  have "length (pring_data (pty_out pty)) < 2 ^ 64"
  proof (cases "g_size (pty_out pty) = 0")
    case False
    from pring_nat [OF pty(2) this] obtain k where
      k: "k \<le> 63" "length (pring_data (pty_out pty)) < 2 ^ k" by metis
    have "(2::nat) ^ k \<le> 2 ^ 64" using k(1) by (intro power_increasing) auto
    with k(2) show ?thesis by (rule order.strict_trans2)
  qed (simp add: pring_empty pty)
  then have u: "unat (of_nat (min n (length (pring_data (pty_out pty)))) :: size_t) = min n (length (pring_data (pty_out pty)))" for n
    by (simp add: unat_of_nat)
  show ?thesis
  proof (cases "fst (ring_peek (pty_out pty)) = 0")
    case True
    then show ?thesis
      using assms pty ring_peek_nothing [OF pty(2) True] by (auto simp: pty_write_def out_stream_def split: sum.splits)
  next
    case False
    then show ?thesis
      using pty peek ring_pop_correct [OF pty(2)] u
      by (cases resp)
        (auto simp: pty_write_def master_writev_def out_stream_def pty_inv_def fd_of_def min_def)
  qed
qed

lemma shl_pty_write_spec:
  assumes "pty_inv w" "length (out_stream w) - length (w_sent w) + length bs < 2 ^ 62"
  shows "\<exists>w' r. shl_pty_write env bs w = Some (w', r) \<and> pty_inv w' \<and> w_sent w' = w_sent w \<and> w_input w' = w_input w \<and>
    w_pending w' = w_pending w \<and> w_closed w' = w_closed w \<and> fd_of w' = fd_of w \<and>
    (if fd_of w < 0 then r = Inl ENODEV \<and> w' = w
     else r = ok \<and> out_stream w' = out_stream w @ bs \<or> r = Inl ENOMEM \<and> out_stream w' = out_stream w)"
proof -
  obtain pty where pty: "w_obj w = Some pty" "pring_inv (pty_out pty)"
    using assms by (auto simp: pty_inv_def split: option.splits)
  have "length (pring_data (pty_out pty)) + length bs < 2 ^ 62"
    using assms(2) pty(1) by (simp add: out_stream_def)
  from pring_push_correct [OF pty(2) this] obtain out e where
    "ring_push env (pty_out pty) bs (of_nat (length bs)) = Some (out, e)" "pring_inv out"
    "e = ok \<and> pring_data out = pring_data (pty_out pty) @ bs \<or> e = Inl ENOMEM \<and> pring_data out = pring_data (pty_out pty)"
    by blast
  then show ?thesis
    using pty by (auto simp: shl_pty_write_def shl_pty_is_open_def pty_inv_def out_stream_def fd_of_def)
qed

subsection \<open>Properties\<close>

text \<open>
  C36. Dispatching moves both streams without loss, duplication or reordering, whatever output the
  callback queues meanwhile and even if it closes the PTY. The call always returns, after at most
  50 callbacks; the chunks handed to the callback are the next bytes of the input, in order and never
  more than a buffer; \<^verbatim>\<open>EAGAIN\<close> is returned exactly when the limit was used up, and otherwise all
  input of an open PTY was consumed. The terminal receives the queued output in order, as far as it takes it.
\<close>

theorem pty_dispatch_streams:
  assumes "pty_inv w" "well_behaved cb"
  shows "\<exists>w' r cs. shl_pty_dispatch cb resp w = Some (w', r) \<and> pty_inv w' \<and>
    w_input w' = w_input w @ cs \<and> in_stream (w_pending w) = concat cs @ in_stream (w_pending w') \<and>
    length cs \<le> 50 \<and> (\<forall>c \<in> set cs. c \<noteq> [] \<and> length c \<le> 16384) \<and>
    r = (if length cs = 50 then Inl EAGAIN else ok) \<and>
    (r = ok \<longrightarrow> only_data (w_pending w) \<longrightarrow> fd_of w' \<ge> 0 \<longrightarrow> w_pending w' = []) \<and>
    prefix (out_stream w) (out_stream w') \<and>
    (\<exists>n. w_sent w' = take (length (w_sent w) + n) (out_stream w') \<and> (fd_of w' \<ge> 0 \<longrightarrow> Inr n = resp \<or> n = 0 \<and> isl resp))"
proof -
  have "(0::nat) < 50" by simp
  from pty_read_loop_spec [OF assms this] obtain w1 n cs where
    loop: "pty_read_loop cb 50 w = Some (w1, n)" "length cs + n = 50" and eff: "read_effect w w1 cs"
    and drained: "n \<noteq> 0 \<longrightarrow> only_data (w_pending w) \<longrightarrow> fd_of w1 \<ge> 0 \<longrightarrow> w_pending w1 = []" by blast
  have "pty_inv w1" using eff by (simp add: read_effect_def)
  from pty_write_spec [OF this, of resp] obtain w2 where
    w2: "pty_write resp w1 = Some w2" "pty_inv w2" "out_stream w2 = out_stream w1" "w_input w2 = w_input w1"
      "w_pending w2 = w_pending w1" "fd_of w2 = fd_of w1"
      "w_sent w2 = w_sent w1 @ (case resp of Inl _ \<Rightarrow> [] | Inr n \<Rightarrow>
         if fd_of w1 < 0 then [] else take n (drop (length (w_sent w1)) (out_stream w1)))" by blast
  have n: "n = 0 \<longleftrightarrow> length cs = 50" using loop(2) by auto
  then have disp: "shl_pty_dispatch cb resp w = Some (w2, if length cs = 50 then Inl EAGAIN else ok)"
    using loop(1) w2(1) by (simp add: shl_pty_dispatch_def pty_read_def)
  have sent: "\<exists>m. w_sent w2 = take (length (w_sent w) + m) (out_stream w2) \<and>
      (fd_of w2 \<ge> 0 \<longrightarrow> Inr m = resp \<or> m = 0 \<and> isl resp)"
  proof -
    define m where "m = (case resp of Inl _ \<Rightarrow> 0 | Inr n \<Rightarrow> if fd_of w1 < 0 then 0 else n)"
    have "w_sent w1 = w_sent w" using eff by (simp add: read_effect_def)
    then have "w_sent w2 = take (length (w_sent w) + m) (out_stream w2)"
      using w2(3,7) by (auto simp: m_def out_stream_def [of w1] split: sum.splits)
    moreover have "fd_of w2 \<ge> 0 \<longrightarrow> Inr m = resp \<or> m = 0 \<and> isl resp"
      using w2(6) by (auto simp: m_def split: sum.splits)
    ultimately show ?thesis by blast
  qed
  show ?thesis
    using disp w2(2-6) eff n drained loop(2) sent
    by (intro exI [of _ w2] exI [of _ "if length cs = 50 then Inl EAGAIN else ok"] exI [of _ cs])
      (auto simp: read_effect_def SHL_PTY_BUFSIZE_def)
qed

text \<open>A terminal that answers every input with a status report and closes on the end-of-transmission byte.\<close>

definition answer_cb :: input_cb where
  "answer_cb bytes w =
     (if 4 \<in> set bytes then shl_pty_close w
      else if length (out_stream w) < 2 ^ 20
      then map_option fst (shl_pty_write \<lparr>alloc_fails = (\<lambda>_. False), junk = (\<lambda>_. 0)\<rparr> [27, 91, 48, 110] w)
      else Some w)"

lemma answer_cb_well_behaved: "well_behaved answer_cb"
  unfolding well_behaved_def
proof (intro allI impI)
  fix bytes w
  assume inv: "pty_inv w"
  show "\<exists>w'. answer_cb bytes w = Some w' \<and> cb_effect w w'"
  proof (cases "4 \<in> set bytes \<or> \<not> length (out_stream w) < 2 ^ 20")
    case True
    then show ?thesis
      using inv by (auto simp: answer_cb_def cb_effect_def shl_pty_close_def pty_inv_def out_stream_def split: option.splits)
  next
    case False
    then have "length (out_stream w) - length (w_sent w) + length [27, 91, 48, 110 :: u8] < 2 ^ 62" by auto
    from shl_pty_write_spec [OF inv this, of "\<lparr>alloc_fails = (\<lambda>_. False), junk = (\<lambda>_. 0)\<rparr>"]
    obtain w' r where "shl_pty_write \<lparr>alloc_fails = (\<lambda>_. False), junk = (\<lambda>_. 0)\<rparr> [27, 91, 48, 110] w = Some (w', r)"
      "pty_inv w'" "w_sent w' = w_sent w" "w_input w' = w_input w" "w_pending w' = w_pending w" "fd_of w' = fd_of w"
      "prefix (out_stream w) (out_stream w')"
      by (auto split: if_splits)
    then show ?thesis
      using False inv by (auto simp: answer_cb_def cb_effect_def pty_inv_def fd_of_def split: option.splits)
  qed
qed

definition pty_world0 :: pty_world where
  "pty_world0 =
     \<lparr>w_obj = Some \<lparr>pty_ref = 1, pty_fd = 3, pty_child = 77, pty_out = pring_zero\<rparr>, w_closed = [],
      w_pending = [Inr [97, 98], Inr [99]], w_input = [], w_sent = [], w_size = None, w_signals = []\<rparr>"

lemma pty_world0_inv: "pty_inv pty_world0"
  by (simp add: pty_inv_def pty_world0_def pring_zero_inv)

theorem pty_dispatch_streams_witness:
  "\<exists>w' cs. shl_pty_dispatch answer_cb (Inr 6) pty_world0 = Some (w', ok) \<and> w_input w' = cs \<and>
     concat cs @ in_stream (w_pending w') = [97, 98, 99]"
proof -
  from pty_dispatch_streams [OF pty_world0_inv answer_cb_well_behaved, of "Inr 6"]
  obtain w' r cs where w': "shl_pty_dispatch answer_cb (Inr 6) pty_world0 = Some (w', r)" "w_input w' = cs"
    "[97, 98, 99] = concat cs @ in_stream (w_pending w')" "\<forall>c \<in> set cs. c \<noteq> []"
    "r = (if length cs = 50 then Inl EAGAIN else ok)"
    by (auto simp: pty_world0_def)
  have "length cs \<le> length (concat cs)" using w'(4)
  proof (induction cs)
    case (Cons c cs)
    then have "length cs \<le> length (concat cs)" "c \<noteq> []" by simp_all
    then show ?case by (cases c) simp_all
  qed simp
  also have "length (concat cs) \<le> 3" using arg_cong [OF w'(3), of length] by simp
  finally have "length cs \<noteq> 50" by simp
  then show ?thesis using w' by simp
qed

text \<open>
  Writing to a PTY appends exactly the given bytes to its output or leaves the output as it
  was: \<^verbatim>\<open>ENODEV\<close> exactly when the PTY is closed, \<^verbatim>\<open>ENOMEM\<close> when the queue cannot grow.
\<close>

theorem pty_write_appends:
  assumes "pty_inv w" "length (out_stream w) - length (w_sent w) + length bs < 2 ^ 62"
  shows "\<exists>w' r. shl_pty_write env bs w = Some (w', r) \<and> pty_inv w' \<and> w_sent w' = w_sent w \<and>
    (if fd_of w < 0 then r = Inl ENODEV \<and> w' = w
     else r = ok \<and> out_stream w' = out_stream w @ bs \<or> r = Inl ENOMEM \<and> out_stream w' = out_stream w)"
  using shl_pty_write_spec [OF assms, of env] by blast

theorem pty_write_appends_witness:
  "\<exists>w' r. shl_pty_write \<lparr>alloc_fails = (\<lambda>_. False), junk = (\<lambda>_. 7)\<rparr> [1, 2] pty_world0 = Some (w', r) \<and> pty_inv w' \<and>
     (r = ok \<and> out_stream w' = [1, 2] \<or> r = Inl ENOMEM \<and> out_stream w' = [])"
  using pty_write_appends [OF pty_world0_inv, of "[1, 2]" "\<lparr>alloc_fails = (\<lambda>_. False), junk = (\<lambda>_. 7)\<rparr>"]
  by (auto simp: pty_world0_def out_stream_def fd_of_def pring_zero_inv)

subsubsection \<open>References\<close>

datatype ref_op = Ref | Unref | Close

definition ref_step :: "ref_op \<Rightarrow> pty_world \<Rightarrow> pty_world option" where
  "ref_step op w = (case op of Ref \<Rightarrow> shl_pty_ref False w | Unref \<Rightarrow> shl_pty_unref False w | Close \<Rightarrow> shl_pty_close w)"

text \<open>The specification: the number of references; nothing may be done with an object that has none.\<close>

primrec refs_after :: "nat \<Rightarrow> ref_op list \<Rightarrow> nat option" where
  "refs_after n [] = Some n"
| "refs_after n (op # ops) =
     (if n = 0 then None
      else refs_after (case op of Ref \<Rightarrow> n + 1 | Unref \<Rightarrow> n - 1 | Close \<Rightarrow> n) ops)"

definition holds_refs :: "int \<Rightarrow> nat \<Rightarrow> bool \<Rightarrow> pty_world \<Rightarrow> bool" where
  "holds_refs fd n closed w \<longleftrightarrow>
     (if n = 0 then w_obj w = None \<and> w_closed w = [fd]
      else case w_obj w of
        None \<Rightarrow> False
      | Some pty \<Rightarrow> unat (pty_ref pty) = n \<and>
          (if closed then pty_fd pty < 0 \<and> w_closed w = [fd] else pty_fd pty = fd \<and> w_closed w = []))"

lemma ref_step_spec:
  assumes "holds_refs fd n closed w" "0 < n" "Suc n < 2 ^ 64" "0 \<le> fd"
  shows "\<exists>w'. ref_step op w = Some w' \<and>
    holds_refs fd (case op of Ref \<Rightarrow> n + 1 | Unref \<Rightarrow> n - 1 | Close \<Rightarrow> n) (closed \<or> op = Close) w'"
proof -
  obtain pty where pty: "w_obj w = Some pty" "unat (pty_ref pty) = n" using assms(1,2)
    by (auto simp: holds_refs_def split: option.splits)
  have "unat (pty_ref pty + 1) = n + 1" "unat (pty_ref pty - 1) = n - 1" "pty_ref pty \<noteq> 0"
    using pty(2) assms(2,3) by (auto simp: unat_add_nowrap unat_sub_nowrap word_le_nat_alt)
  moreover from this(2) assms(2) have "pty_ref pty - 1 = 0 \<longleftrightarrow> n = 1"
    by (metis One_nat_def Suc_pred diff_self_eq_0 unat_eq_zero)
  ultimately show ?thesis
    using assms pty
    by (cases op) (auto simp: ref_step_def shl_pty_ref_def shl_pty_unref_def shl_pty_close_def holds_refs_def Let_def split: if_splits)
qed

lemma refs_run:
  assumes "holds_refs fd n closed w" "refs_after n ops = Some m" "n + length ops < 2 ^ 64" "0 \<le> fd"
  shows "\<exists>w'. foldM ref_step ops w = Some w' \<and> holds_refs fd m (closed \<or> Close \<in> set ops) w'"
  using assms(1-3)
proof (induction ops arbitrary: n closed w)
  case (Cons op ops)
  have "0 < n" "Suc n < 2 ^ 64" using Cons.prems(2,3) by (auto split: if_splits)
  from ref_step_spec [OF Cons.prems(1) this assms(4), of op] obtain w1 where
    w1: "ref_step op w = Some w1"
      "holds_refs fd (case op of Ref \<Rightarrow> n + 1 | Unref \<Rightarrow> n - 1 | Close \<Rightarrow> n) (closed \<or> op = Close) w1" by blast
  have "refs_after (case op of Ref \<Rightarrow> n + 1 | Unref \<Rightarrow> n - 1 | Close \<Rightarrow> n) ops = Some m"
    using Cons.prems(2) by (simp split: if_splits)
  moreover have "(case op of Ref \<Rightarrow> n + 1 | Unref \<Rightarrow> n - 1 | Close \<Rightarrow> n) + length ops < 2 ^ 64"
    using Cons.prems(3) by (cases op) auto
  ultimately show ?case using Cons.IH [OF w1(2)] w1(1) by (auto simp: eq_commute [of Close])
qed simp

text \<open>
  References are counted right: as long as no operation follows the drop of the last reference,
  every sequence of \<^verbatim>\<open>ref\<close>, \<^verbatim>\<open>unref\<close> and \<^verbatim>\<open>close\<close> is defined; the object is freed exactly when the last
  reference is gone, and the master is closed exactly once, by the first \<^verbatim>\<open>close\<close> or at the end.
\<close>

theorem pty_references:
  assumes "w_obj w = Some pty" "pty_ref pty = 1" "0 \<le> pty_fd pty" "w_closed w = []"
    and "refs_after 1 ops = Some n" "length ops < 2 ^ 63"
  shows "\<exists>w'. foldM ref_step ops w = Some w' \<and> (w_obj w' = None \<longleftrightarrow> n = 0) \<and>
    w_closed w' = (if n = 0 \<or> Close \<in> set ops then [pty_fd pty] else []) \<and>
    (\<forall>pty'. w_obj w' = Some pty' \<longrightarrow>
       unat (pty_ref pty') = n \<and> (shl_pty_is_open pty' \<longleftrightarrow> Close \<notin> set ops))"
proof -
  have "holds_refs (pty_fd pty) 1 False w" using assms(1-4) by (simp add: holds_refs_def)
  from refs_run [OF this assms(5) _ assms(3)] assms(6) obtain w' where
    "foldM ref_step ops w = Some w'" "holds_refs (pty_fd pty) n (Close \<in> set ops) w'" by auto
  then show ?thesis using assms(3)
    by (intro exI [of _ w']) (auto simp: holds_refs_def shl_pty_is_open_def split: if_splits option.splits)
qed

theorem pty_references_witness:
  "\<exists>w'. foldM ref_step [Ref, Close, Unref, Unref] pty_world0 = Some w' \<and> w_obj w' = None \<and> w_closed w' = [3]"
  using pty_references [of pty_world0 _ "[Ref, Close, Unref, Unref]" 0] by (auto simp: pty_world0_def)

end
