(* ===== verification/Shl_Pty_Bridge.thy ===== *)
theory Shl_Pty_Bridge
  imports Shl_Pty
begin

text \<open>
  The PTY bridge (\<^verbatim>\<open>src/shl_pty.c\<close>): several PTYs behind one descriptor.
\<close>

subsection \<open>The bridge\<close>

text \<open>
  The epoll set: the registered descriptors with their objects, and the edge-triggered events that are
  queued. Adding a descriptor queues an event for it (a master is writable), adding it a second time
  fails and changes nothing; removing it drops it and its event.
\<close>

record epoll_set =
  b_interest :: "int \<rightharpoonup> nat"
  b_ready :: "int list"

definition epoll_ctl_add :: "int \<Rightarrow> nat \<Rightarrow> epoll_set \<Rightarrow> epoll_set \<times> unit res" where
  "epoll_ctl_add fd ptr b =
     (if fd < 0 then (b, Inl EBADF)
      else if b_interest b fd \<noteq> None then (b, Inl EEXIST)
      else (b\<lparr>b_interest := (b_interest b)(fd \<mapsto> ptr), b_ready := b_ready b @ [fd]\<rparr>, ok))"

definition epoll_forget :: "int \<Rightarrow> epoll_set \<Rightarrow> epoll_set" where
  "epoll_forget fd b = b\<lparr>b_interest := (b_interest b)(fd := None), b_ready := removeAll fd (b_ready b)\<rparr>"

text \<open>
  Closing a descriptor takes it out of the set only when it was the last one of its open file. \<open>held\<close> are
  the masters whose open file another process still has, like a child that was forked and did not
  execute another program: they stay in the set, with their object.
\<close>

definition epoll_close :: "int set \<Rightarrow> int \<Rightarrow> epoll_set \<Rightarrow> epoll_set" where
  "epoll_close held fd b = (if fd \<in> held then b else epoll_forget fd b)"

lemma epoll_close_last [simp]: "epoll_close {} = epoll_forget"
  by (intro ext) (simp add: epoll_close_def)

definition shl_pty_bridge_new :: "errno + int \<Rightarrow> errno + (int \<times> epoll_set)" where
  "shl_pty_bridge_new resp =
     (case resp of Inl e \<Rightarrow> Inl e | Inr fd \<Rightarrow> Inr (fd, \<lparr>b_interest = (\<lambda>_. None), b_ready = []\<rparr>))"

text \<open>Closing the bridge releases its descriptor; the PTYs are not touched.\<close>

definition shl_pty_bridge_free :: "int \<Rightarrow> (int \<rightharpoonup> epoll_set) \<Rightarrow> (int \<rightharpoonup> epoll_set)" where
  "shl_pty_bridge_free bridge fds = fds(bridge := None)"

definition shl_pty_bridge_dispatch ::
  "int set \<Rightarrow> input_cb \<Rightarrow> errno + nat \<Rightarrow> errno option \<Rightarrow> epoll_set \<Rightarrow> (nat \<rightharpoonup> pty_world) \<Rightarrow> (epoll_set \<times> (nat \<rightharpoonup> pty_world) \<times> unit res) option"
where
  "shl_pty_bridge_dispatch held cb resp wait_err b objs =
     (case wait_err of
        Some e \<Rightarrow> if e = EAGAIN \<or> e = EINTR then Some (b, objs, ok) else Some (b, objs, Inl e)
      | None \<Rightarrow>
          (case b_ready b of
             [] \<Rightarrow> Some (b, objs, ok)
           | fd # rest \<Rightarrow> do {
               ptr \<leftarrow> b_interest b fd;
               w \<leftarrow> objs ptr;
               (w', r) \<leftarrow> shl_pty_dispatch cb resp w;
               let b = fold (epoll_close held) (drop (length (w_closed w)) (w_closed w')) (b\<lparr>b_ready := rest\<rparr>);
                   objs = objs(ptr \<mapsto> w')
               in if r = Inl EAGAIN then do {
                    pty \<leftarrow> w_obj w';
                    Some (fst (epoll_ctl_add (shl_pty_get_fd pty) ptr b), objs, ok) }
                  else Some (b, objs, ok) }))"

definition shl_pty_bridge_add :: "epoll_set \<Rightarrow> nat \<Rightarrow> shl_pty \<Rightarrow> epoll_set \<times> unit res" where
  "shl_pty_bridge_add b ptr pty = epoll_ctl_add (shl_pty_get_fd pty) ptr b"

definition shl_pty_bridge_remove :: "epoll_set \<Rightarrow> shl_pty \<Rightarrow> epoll_set" where
  "shl_pty_bridge_remove b pty = epoll_forget (shl_pty_get_fd pty) b"

subsection \<open>Routing\<close>

text \<open>
  The invariant of a bridge: every registered descriptor belongs to an open PTY object with that master,
  events are only queued for registered descriptors, and at most one for each.
\<close>

definition bridge_inv :: "epoll_set \<Rightarrow> (nat \<rightharpoonup> pty_world) \<Rightarrow> bool" where
  "bridge_inv b objs \<longleftrightarrow>
     distinct (b_ready b) \<and> set (b_ready b) \<subseteq> dom (b_interest b) \<and>
     (\<forall>fd ptr. b_interest b fd = Some ptr \<longrightarrow> (\<exists>w. objs ptr = Some w \<and> pty_inv w \<and> fd_of w = fd \<and> 0 \<le> fd))"

text \<open>How a PTY goes from open to closed: its descriptor is closed once.\<close>

definition closing :: "pty_world \<Rightarrow> pty_world \<Rightarrow> bool" where
  "closing w w' \<longleftrightarrow> fd_of w' \<in> {fd_of w, -1} \<and> w_closed w' = w_closed w @ (if fd_of w' = fd_of w then [] else [fd_of w])"

definition closing_cb :: "input_cb \<Rightarrow> bool" where
  "closing_cb cb \<longleftrightarrow> (\<forall>d w w'. cb d w = Some w' \<longrightarrow> closing w w')"

lemma closing_refl: "fd_of w' = fd_of w \<Longrightarrow> w_closed w' = w_closed w \<Longrightarrow> closing w w'"
  by (simp add: closing_def)

lemma closing_trans: "closing w w1 \<Longrightarrow> closing w1 w2 \<Longrightarrow> closing w w2"
  by (auto simp: closing_def split: if_splits)

lemma master_read_closing: "master_read fd w = (w1, r) \<Longrightarrow> closing w (w1\<lparr>w_input := i\<rparr>) \<and> closing w w1"
  by (auto simp: master_read_def closing_def fd_of_def split: if_splits list.splits sum.splits)

lemma read_loop_closing:
  assumes "closing_cb cb"
  shows "pty_read_loop cb num w = Some (w', n) \<Longrightarrow> closing w w'"
proof (induction num arbitrary: w rule: less_induct)
  case (less num)
  from less.prems obtain pty where pty: "w_obj w = Some pty"
    by (subst (asm) pty_read_loop.simps) (auto split: bind_splits)
  obtain w1 r where mr: "master_read (pty_fd pty) w = (w1, r)" by fastforce
  note mc = master_read_closing [OF mr]
  show ?case
  proof (cases "\<exists>c. r = Inr c \<and> c \<noteq> []")
    case False
    then have "w' = w1" using less.prems pty mr by (subst (asm) pty_read_loop.simps) (auto split: sum.splits)
    with mc show ?thesis by blast
  next
    case True
    then obtain c where c: "r = Inr c" "c \<noteq> []" by blast
    with less.prems pty mr obtain w2 where
      w2: "cb c (w1\<lparr>w_input := w_input w1 @ [c]\<rparr>) = Some w2"
        "(if num - 1 = 0 then Some (w2, 0) else pty_read_loop cb (num - 1) w2) = Some (w', n)"
      by (subst (asm) pty_read_loop.simps) (auto split: bind_splits)
    have "closing w w2" using assms w2(1) mc closing_trans unfolding closing_cb_def by blast
    moreover have "closing w2 w'"
    proof (cases "num - 1 = 0")
      case False
      then show ?thesis using w2(2) less.IH [of "num - 1" w2] by simp
    qed (use w2(2) in \<open>simp add: closing_refl\<close>)
    ultimately show ?thesis by (rule closing_trans)
  qed
qed

lemma pty_write_closing: "pty_write resp w = Some w' \<Longrightarrow> closing w w'"
  by (auto simp: pty_write_def master_writev_def closing_def fd_of_def split: bind_splits if_splits sum.splits prod.splits option.splits)

lemma dispatch_closing: "closing_cb cb \<Longrightarrow> shl_pty_dispatch cb resp w = Some (w', r) \<Longrightarrow> closing w w'"
  by (auto simp: shl_pty_dispatch_def pty_read_def split: bind_splits
      dest!: read_loop_closing pty_write_closing intro: closing_trans)

lemma dispatch_defined:
  assumes "pty_inv w" "well_behaved cb"
  shows "\<exists>w' r. shl_pty_dispatch cb resp w = Some (w', r) \<and> pty_inv w'"
proof -
  have "(0::nat) < 50" by simp
  from pty_read_loop_spec [OF assms this] obtain w1 n cs where
    "pty_read_loop cb 50 w = Some (w1, n)" "read_effect w w1 cs" by blast
  moreover from this(2) have "pty_inv w1" by (simp add: read_effect_def)
  ultimately show ?thesis using pty_write_spec [of w1 resp] by (auto simp: shl_pty_dispatch_def pty_read_def)
qed

text \<open>Registering an open PTY that is not registered yet, and removing one.\<close>

lemma bridge_add_inv:
  assumes "bridge_inv b objs" "objs ptr = Some w" "pty_inv w" "w_obj w = Some pty"
  shows "bridge_inv (fst (shl_pty_bridge_add b ptr pty)) objs"
proof -
  have "pty_fd pty = fd_of w" using assms(4) by (simp add: fd_of_def)
  with assms(1-3) show ?thesis
    by (auto simp: bridge_inv_def shl_pty_bridge_add_def epoll_ctl_add_def shl_pty_get_fd_def split: if_splits)
qed

lemma bridge_remove_inv: "bridge_inv b objs \<Longrightarrow> bridge_inv (shl_pty_bridge_remove b pty) objs"
  by (auto simp: bridge_inv_def shl_pty_bridge_remove_def epoll_forget_def distinct_removeAll)

text \<open>
  One dispatch: exactly the PTY whose event is next is dispatched, its event is taken off the queue, and its
  descriptor is forgotten exactly when it was closed meanwhile.
\<close>

lemma bridge_routes:
  assumes "bridge_inv b objs" "b_ready b = fd # rest" "well_behaved cb" "closing_cb cb"
  shows "\<exists>ptr w w' r b'. b_interest b fd = Some ptr \<and> objs ptr = Some w \<and>
    shl_pty_dispatch cb resp w = Some (w', r) \<and>
    shl_pty_bridge_dispatch {} cb resp None b objs = Some (b', objs(ptr \<mapsto> w'), ok) \<and>
    b_ready b' = rest \<and>
    b_interest b' = (if fd_of w' = fd then b_interest b else (b_interest b)(fd := None)) \<and>
    bridge_inv b' (objs(ptr \<mapsto> w'))"
proof -
  from assms(1,2) obtain ptr where ptr: "b_interest b fd = Some ptr" by (auto simp: bridge_inv_def)
  with assms(1) obtain w where w: "objs ptr = Some w" "pty_inv w" "fd_of w = fd" "0 \<le> fd"
    unfolding bridge_inv_def by blast
  from dispatch_defined [OF w(2) assms(3), of resp] obtain w' r where
    d: "shl_pty_dispatch cb resp w = Some (w', r)" "pty_inv w'" by blast
  then obtain pty' where pty': "w_obj w' = Some pty'" "pty_fd pty' = fd_of w'"
    by (auto simp: pty_inv_def fd_of_def split: option.splits)
  have cl: "closing w w'" by (rule dispatch_closing [OF assms(4) d(1)])
  define b1 where "b1 = b\<lparr>b_ready := rest, b_interest := (if fd_of w' = fd then b_interest b else (b_interest b)(fd := None))\<rparr>"
  have "removeAll fd rest = rest" using assms(1,2) by (simp add: bridge_inv_def)
  then have forget: "fold epoll_forget (drop (length (w_closed w)) (w_closed w')) (b\<lparr>b_ready := rest\<rparr>) = b1"
    using cl w(3) by (auto simp: closing_def epoll_forget_def b1_def)
  have "fst (epoll_ctl_add (fd_of w') ptr b1) = b1"
    using cl w(3,4) ptr by (auto simp: closing_def epoll_ctl_add_def b1_def)
  then have run: "shl_pty_bridge_dispatch {} cb resp None b objs = Some (b1, objs(ptr \<mapsto> w'), ok)"
    using assms(2) ptr w(1) d(1) forget pty' by (simp add: shl_pty_bridge_dispatch_def shl_pty_get_fd_def Let_def)
  have other: "fd2 = fd" if "b_interest b fd2 = Some ptr" for fd2
    using assms(1) that w unfolding bridge_inv_def by fastforce
  have "bridge_inv b1 (objs(ptr \<mapsto> w'))"
    using assms(1,2) d(2) w(4) other by (auto simp: bridge_inv_def b1_def split: if_splits)
  with run ptr w(1) d(1) show ?thesis
    by (intro exI [of _ ptr] exI [of _ w] exI [of _ w'] exI [of _ r] exI [of _ b1]) (simp add: b1_def)
qed

lemma answer_cb_closing: "closing_cb answer_cb"
  unfolding closing_cb_def
  by (auto simp: answer_cb_def shl_pty_close_def shl_pty_write_def closing_def fd_of_def
      split: if_splits bind_splits option.splits)

subsection \<open>The read limit\<close>

text \<open>
  The bridge does not re-arm a PTY that hit the read limit: it adds the descriptor again where it would
  have to modify it, which the kernel refuses. After the dispatch no event is queued for the
  PTY, even if input is pending.
\<close>

theorem bridge_not_rearmed:
  assumes "b_interest b fd = Some ptr" "b_ready b = [fd]" "objs ptr = Some w"
    and "shl_pty_dispatch cb resp w = Some (w', Inl EAGAIN)" "w_obj w' = Some pty'" "pty_fd pty' = fd" "0 \<le> fd"
    and "w_closed w' = w_closed w"
  shows "shl_pty_bridge_dispatch held cb resp None b objs = Some (b\<lparr>b_ready := []\<rparr>, objs(ptr \<mapsto> w'), ok)"
  using assms by (simp add: shl_pty_bridge_dispatch_def epoll_ctl_add_def shl_pty_get_fd_def)

lemma read_loop_busy:
  assumes "w_obj w = Some pty" "0 \<le> pty_fd pty" "w_pending w = replicate (Suc n) (Inr [c]) @ rest"
  shows "pty_read_loop (\<lambda>_. Some) (Suc n) w = Some (w\<lparr>w_pending := rest, w_input := w_input w @ replicate (Suc n) [c]\<rparr>, 0)"
  using assms
proof (induction n arbitrary: w)
  case 0
  then show ?case by (subst pty_read_loop.simps) (simp add: master_read_def SHL_PTY_BUFSIZE_def)
next
  case (Suc n)
  then show ?case by (subst pty_read_loop.simps) (simp add: master_read_def SHL_PTY_BUFSIZE_def)
qed

theorem bridge_not_rearmed_witness:
  "\<exists>w'. shl_pty_bridge_dispatch {} (\<lambda>_. Some) (Inr 0) None \<lparr>b_interest = [3 \<mapsto> 0], b_ready = [3]\<rparr>
       [0 \<mapsto> pty_world0\<lparr>w_pending := replicate 51 (Inr [97])\<rparr>] =
     Some (\<lparr>b_interest = [3 \<mapsto> 0], b_ready = []\<rparr>, [0 \<mapsto> w'], ok) \<and> w_pending w' = [Inr [97]]"
proof -
  let ?w = "pty_world0\<lparr>w_pending := replicate 51 (Inr [97])\<rparr>"
  let ?w' = "?w\<lparr>w_pending := [Inr [97]], w_input := replicate 50 [97]\<rparr>"
  have "replicate 51 x = replicate (Suc 49) x @ [x]" for x :: "errno + u8 list"
    by (simp add: numeral_eq_Suc)
  then have "pty_read_loop (\<lambda>_. Some) 50 ?w = Some (?w', 0)"
    using read_loop_busy [of ?w _ 49 97 "[Inr [97]]"] by (simp add: pty_world0_def)
  then have "shl_pty_dispatch (\<lambda>_. Some) (Inr 0) ?w = Some (?w', Inl EAGAIN)"
    by (simp add: shl_pty_dispatch_def pty_read_def pty_write_def pty_world0_def ring_peek_def pring_zero_def)
  from bridge_not_rearmed [OF _ _ _ this, of "\<lparr>b_interest = [3 \<mapsto> 0], b_ready = [3]\<rparr>" 3 0 "[0 \<mapsto> ?w]"]
  show ?thesis by (intro exI [of _ ?w']) (simp add: pty_world0_def)
qed

end
