(* ===== verification/Shl_Pty_Session.thy ===== *)
theory Shl_Pty_Session
  imports Shl_Pty Shl_Trace
begin

text \<open>
  The life of a PTY (\<^verbatim>\<open>src/shl_pty.c\<close>): what a caller sees of the object that \<^verbatim>\<open>shl_pty_open\<close> returned, as
  an abstract machine, and the proof that every sequence of calls takes the steps of that machine.
\<close>

subsection \<open>The specification\<close>

text \<open>
  The state a caller can reason about: the references, whether the master is open, all output that
  was accepted and how much of it the terminal has received, the input that is still to come and the
  input that was handed out, and the size and the signals that were set.
\<close>

record session =
  ss_refs :: nat
  ss_open :: bool
  ss_out :: "u8 list"
  ss_sent :: nat
  ss_in :: "u8 list"
  ss_got :: "u8 list"
  ss_size :: "winsize option"
  ss_signals :: "int list"

datatype pty_call = CWrite "u8 list" | CDispatch | CRef | CUnref | CClose | CSignal int | CResize u16 u16

text \<open>
  What may happen while input is read: the callback gets the input \<open>d\<close> and leaves \<open>rest\<close> to come, it queues
  the output \<open>bs\<close>, and it may close the PTY.
\<close>

definition moved :: "session \<Rightarrow> u8 list \<Rightarrow> bool \<Rightarrow> u8 list \<Rightarrow> u8 list \<Rightarrow> session" where
  "moved s bs op d rest =
     s\<lparr>ss_open := op, ss_out := ss_out s @ bs, ss_in := rest, ss_got := ss_got s @ d\<rparr>"

inductive pty_step :: "session \<Rightarrow> pty_call \<Rightarrow> unit res \<Rightarrow> session \<Rightarrow> bool" where
  write_ok: "ss_open s \<Longrightarrow> pty_step s (CWrite bs) ok (s\<lparr>ss_out := ss_out s @ bs\<rparr>)"
| write_nomem: "ss_open s \<Longrightarrow> pty_step s (CWrite bs) (Inl ENOMEM) s"
| write_closed: "\<not> ss_open s \<Longrightarrow> pty_step s (CWrite bs) (Inl ENODEV) s"
| dispatch: "ss_in s = d @ rest \<Longrightarrow> op \<longrightarrow> ss_open s \<Longrightarrow> ss_sent s \<le> n \<Longrightarrow> n \<le> length (ss_out s @ bs) \<Longrightarrow>
    \<not> ss_open s \<longrightarrow> d = [] \<and> bs = [] \<and> n = ss_sent s \<Longrightarrow> r \<in> {ok, Inl EAGAIN} \<Longrightarrow>
    pty_step s CDispatch r ((moved s bs op d rest)\<lparr>ss_sent := n\<rparr>)"
| add_ref: "pty_step s CRef ok (s\<lparr>ss_refs := ss_refs s + 1\<rparr>)"
| drop_ref: "1 < ss_refs s \<Longrightarrow> pty_step s CUnref ok (s\<lparr>ss_refs := ss_refs s - 1\<rparr>)"
| last_ref: "ss_refs s = 1 \<Longrightarrow>
    pty_step s CUnref ok (s\<lparr>ss_refs := 0, ss_open := False, ss_out := take (ss_sent s) (ss_out s)\<rparr>)"
| close_pty: "pty_step s CClose ok (s\<lparr>ss_open := False\<rparr>)"
| signal_ok: "ss_open s \<Longrightarrow> pty_step s (CSignal sig) ok (s\<lparr>ss_signals := ss_signals s @ [sig]\<rparr>)"
| resize_ok: "ss_open s \<Longrightarrow> pty_step s (CResize cols rows) ok (s\<lparr>ss_size := Some \<lparr>ws_col = cols, ws_row = rows\<rparr>\<rparr>)"
| ioctl_err: "ss_open s \<Longrightarrow> c \<in> {CSignal sig, CResize cols rows} \<Longrightarrow> pty_step s c (Inl e) s"
| ioctl_closed: "\<not> ss_open s \<Longrightarrow> c \<in> {CSignal sig, CResize cols rows} \<Longrightarrow> pty_step s c (Inl ENODEV) s"

definition session_start :: "u8 list \<Rightarrow> session" where
  "session_start inp = \<lparr>ss_refs = 1, ss_open = True, ss_out = [], ss_sent = 0, ss_in = inp, ss_got = [],
     ss_size = None, ss_signals = []\<rparr>"

subsection \<open>The calls\<close>

text \<open>What the system answers during a call: the allocator, \<^verbatim>\<open>writev\<close> and \<^verbatim>\<open>ioctl\<close>.\<close>

record answers =
  a_alloc :: alloc_env
  a_writev :: "errno + nat"
  a_ioctl :: "unit res"

definition pty_exec :: "input_cb \<Rightarrow> pty_call \<times> answers \<Rightarrow> pty_world \<Rightarrow> (pty_world \<times> unit res) option" where
  "pty_exec cb c w =
     (case c of
        (CWrite bs, a) \<Rightarrow> shl_pty_write (a_alloc a) bs w
      | (CDispatch, a) \<Rightarrow> shl_pty_dispatch cb (a_writev a) w
      | (CRef, a) \<Rightarrow> do { w \<leftarrow> shl_pty_ref False w; Some (w, ok) }
      | (CUnref, a) \<Rightarrow> do { w \<leftarrow> shl_pty_unref False w; Some (w, ok) }
      | (CClose, a) \<Rightarrow> do { w \<leftarrow> shl_pty_close w; Some (w, ok) }
      | (CSignal sig, a) \<Rightarrow> shl_pty_signal (a_ioctl a) sig w
      | (CResize cols rows, a) \<Rightarrow> shl_pty_resize (a_ioctl a) cols rows w)"

text \<open>The world of an object that was just opened, with what its terminal is going to send.\<close>

definition pty_world_of :: "shl_pty \<Rightarrow> (errno + u8 list) list \<Rightarrow> pty_world" where
  "pty_world_of pty pending =
     \<lparr>w_obj = Some pty, w_closed = [], w_pending = pending, w_input = [], w_sent = [], w_size = None, w_signals = []\<rparr>"

text \<open>The relation between the two: \<open>fd\<close> is the descriptor of the master.\<close>

definition obj_rel :: "int \<Rightarrow> shl_pty \<Rightarrow> session \<Rightarrow> bool" where
  "obj_rel fd pty s \<longleftrightarrow>
     pring_inv (pty_out pty) \<and> unat (pty_ref pty) = ss_refs s \<and> (if ss_open s then pty_fd pty = fd else pty_fd pty < 0)"

definition session_rel :: "int \<Rightarrow> pty_world \<Rightarrow> session \<Rightarrow> bool" where
  "session_rel fd w s \<longleftrightarrow>
     (case w_obj w of None \<Rightarrow> ss_refs s = 0 \<and> \<not> ss_open s | Some pty \<Rightarrow> 0 < ss_refs s \<and> obj_rel fd pty s) \<and>
     w_closed w = (if ss_open s then [] else [fd]) \<and>
     out_stream w = ss_out s \<and> length (w_sent w) = ss_sent s \<and>
     in_stream (w_pending w) = ss_in s \<and> concat (w_input w) = ss_got s \<and>
     w_size w = ss_size s \<and> w_signals w = ss_signals s"

text \<open>
  What the input callback has to keep to: it may write at most \<open>m\<close> bytes and may close the PTY, through
  the functions of the object, so that the object stays related to the specification.
\<close>

definition cb_law :: "int \<Rightarrow> nat \<Rightarrow> input_cb \<Rightarrow> bool" where
  "cb_law fd m cb \<longleftrightarrow>
     (\<forall>d w s. session_rel fd w s \<longrightarrow> 0 < ss_refs s \<longrightarrow> length (ss_out s) + m < 2 ^ 62 \<longrightarrow>
        (\<exists>w' bs op. cb d w = Some w' \<and> w_pending w' = w_pending w \<and> length bs \<le> m \<and> (op \<longrightarrow> ss_open s) \<and>
           (bs \<noteq> [] \<longrightarrow> ss_open s) \<and> w_sent w' = w_sent w \<and> session_rel fd w' (moved s bs op [] (ss_in s))))"

text \<open>
  Which calls may follow: none after the last reference was dropped, and no more output than a queue
  can hold (a dispatch calls back at most 50 times).
\<close>

fun live_calls :: "nat \<Rightarrow> pty_call list \<Rightarrow> bool" where
  "live_calls n [] \<longleftrightarrow> True"
| "live_calls n (c # cs) \<longleftrightarrow> 0 < n \<and> live_calls (case c of CRef \<Rightarrow> n + 1 | CUnref \<Rightarrow> n - 1 | _ \<Rightarrow> n) cs"

definition call_cost :: "nat \<Rightarrow> pty_call \<Rightarrow> nat" where
  "call_cost m c = (case c of CWrite bs \<Rightarrow> length bs | CDispatch \<Rightarrow> 50 * m | _ \<Rightarrow> 0)"

definition calls_enabled :: "nat \<Rightarrow> session \<Rightarrow> (pty_call \<times> answers) list \<Rightarrow> bool" where
  "calls_enabled m s cs \<longleftrightarrow>
     live_calls (ss_refs s) (map fst cs) \<and> ss_refs s + length cs < 2 ^ 64 \<and>
     length (ss_out s) + m + sum_list (map (call_cost m \<circ> fst) cs) < 2 ^ 62"

subsection \<open>Every call takes a step\<close>

lemma session_relD:
  assumes "session_rel fd w s"
  shows "w_closed w = (if ss_open s then [] else [fd])" "out_stream w = ss_out s" "length (w_sent w) = ss_sent s"
    "in_stream (w_pending w) = ss_in s" "concat (w_input w) = ss_got s" "w_size w = ss_size s" "w_signals w = ss_signals s"
  using assms by (simp_all add: session_rel_def)

lemma session_rel_obj:
  assumes "session_rel fd w s" "0 < ss_refs s"
  obtains pty where "w_obj w = Some pty" "obj_rel fd pty s" "pty_inv w" "fd_of w = pty_fd pty"
  using assms by (auto simp: session_rel_def pty_inv_def obj_rel_def fd_of_def split: option.splits)

lemma sent_prefix:
  assumes "session_rel fd w s"
  shows "w_sent w = take (ss_sent s) (ss_out s)"
  using session_relD(2,3) [OF assms] by (metis append_eq_conv_conj out_stream_def)

lemma sent_le: "session_rel fd w s \<Longrightarrow> ss_sent s \<le> length (ss_out s)"
  using sent_prefix [of fd w s] session_relD(3) [of fd w s] by (metis length_take min.cobounded1)

lemma moved_simps [simp]:
  "ss_refs (moved s bs op d rest) = ss_refs s" "ss_open (moved s bs op d rest) = op"
  "ss_out (moved s bs op d rest) = ss_out s @ bs" "ss_sent (moved s bs op d rest) = ss_sent s"
  "ss_in (moved s bs op d rest) = rest" "ss_got (moved s bs op d rest) = ss_got s @ d"
  "ss_size (moved s bs op d rest) = ss_size s" "ss_signals (moved s bs op d rest) = ss_signals s"
  by (simp_all add: moved_def)

lemma moved_moved: "moved (moved s bs op d rest) bs' op' d' rest' = moved s (bs @ bs') op' (d @ d') rest'"
  by (simp add: moved_def)

lemma moved_id: "moved s [] (ss_open s) [] (ss_in s) = s"
  by (simp add: moved_def)

lemma cb_lawD:
  assumes "cb_law fd m cb" "session_rel fd w s" "0 < ss_refs s" "length (ss_out s) + m < 2 ^ 62"
  obtains w' bs op where "cb d w = Some w'" "w_pending w' = w_pending w" "length bs \<le> m" "op \<longrightarrow> ss_open s"
    "bs \<noteq> [] \<longrightarrow> ss_open s" "w_sent w' = w_sent w" "session_rel fd w' (moved s bs op [] (ss_in s))"
  using assms unfolding cb_law_def by blast

text \<open>Reading: by induction over the rounds of the loop.\<close>

lemma session_read_round:
  assumes "session_rel fd w s" "0 < ss_refs s" "cb_law fd m cb" "length (ss_out s) + m < 2 ^ 62"
    and "master_read (fd_of w) w = (w1, Inr c)"
  obtains w2 bs op where "cb c (w1\<lparr>w_input := w_input w1 @ [c]\<rparr>) = Some w2" "length bs \<le> m" "ss_open s"
    "w_sent w2 = w_sent w" "ss_in s = c @ in_stream (w_pending w2)"
    "session_rel fd w2 (moved s bs op c (in_stream (w_pending w2)))"
proof -
  let ?w = "w1\<lparr>w_input := w_input w1 @ [c]\<rparr>" and ?s = "moved s [] (ss_open s) c (in_stream (w_pending w1))"
  note m = master_read_data [OF assms(5)]
  have same: "w_obj w1 = w_obj w" "w_sent w1 = w_sent w" "w_input w1 = w_input w" "w_closed w1 = w_closed w"
    "w_size w1 = w_size w" "w_signals w1 = w_signals w" by (subst m(2), simp)+
  have op: "ss_open s"
    using m(1) session_rel_obj [OF assms(1,2)] by (fastforce simp: obj_rel_def split: if_splits)
  have rel: "session_rel fd ?w ?s"
    using assms(1) same by (auto simp: session_rel_def out_stream_def obj_rel_def split: option.splits)
  have "0 < ss_refs ?s" "length (ss_out ?s) + m < 2 ^ 62" using assms(2,4) by simp_all
  from cb_lawD [OF assms(3) rel this, of c] obtain w2 bs op where
    w2: "cb c ?w = Some w2" "w_pending w2 = w_pending ?w" "length bs \<le> m" "w_sent w2 = w_sent ?w"
      "session_rel fd w2 (moved ?s bs op [] (ss_in ?s))" by metis
  have "moved ?s bs op [] (ss_in ?s) = moved s bs op c (in_stream (w_pending w2))"
    using w2(2) by (simp add: moved_moved)
  with w2 op m(3) same(2) session_relD(4) [OF assms(1)] show thesis by (intro that [of w2 bs op]) (simp_all add: moved_moved)
qed

lemma session_read:
  assumes "cb_law fd m cb"
  shows "session_rel fd w s \<Longrightarrow> 0 < ss_refs s \<Longrightarrow> length (ss_out s) + m + num * m < 2 ^ 62 \<Longrightarrow> 0 < num \<Longrightarrow>
    \<exists>w' n bs op d rest. pty_read_loop cb num w = Some (w', n) \<and> length bs \<le> num * m \<and> (op \<longrightarrow> ss_open s) \<and>
      (\<not> ss_open s \<longrightarrow> d = [] \<and> bs = []) \<and> ss_in s = d @ rest \<and> w_sent w' = w_sent w \<and>
      session_rel fd w' (moved s bs op d rest)"
proof (induction num arbitrary: w s)
  case (Suc num)
  obtain pty where pty: "w_obj w = Some pty" "fd_of w = pty_fd pty"
    using session_rel_obj [OF Suc.prems(1,2)] by metis
  obtain w1 r where mr: "master_read (fd_of w) w = (w1, r)" by fastforce
  note eq = pty_read_loop.simps [of cb "Suc num" w]
  show ?case
  proof (cases "\<exists>c. r = Inr c \<and> c \<noteq> []")
    case True
    then obtain c where c: "r = Inr c" "c \<noteq> []" by blast
    have "length (ss_out s) + m < 2 ^ 62" using Suc.prems(3) by linarith
    from session_read_round [OF Suc.prems(1,2) assms this mr [unfolded c(1)]] obtain w2 bs op where
      w2: "cb c (w1\<lparr>w_input := w_input w1 @ [c]\<rparr>) = Some w2" "length bs \<le> m" "ss_open s"
        "w_sent w2 = w_sent w" "ss_in s = c @ in_stream (w_pending w2)"
        "session_rel fd w2 (moved s bs op c (in_stream (w_pending w2)))" .
    show ?thesis
    proof (cases num)
      case 0
      then have "pty_read_loop cb (Suc num) w = Some (w2, 0)" using eq pty mr c w2(1) by simp
      moreover have "length bs \<le> Suc num * m" using w2(2) by simp
      ultimately show ?thesis using w2(3-6) by metis
    next
      case (Suc k)
      then have step: "pty_read_loop cb (Suc num) w = pty_read_loop cb num w2" using eq pty mr c w2(1) by simp
      let ?s = "moved s bs op c (in_stream (w_pending w2))"
      have "0 < ss_refs ?s" "length (ss_out ?s) + m + num * m < 2 ^ 62" "0 < num"
        using Suc.prems(2,3) w2(2) Suc by simp_all
      from Suc.IH [OF w2(6) this] obtain w' n bs' op' d rest where
        ih: "pty_read_loop cb num w2 = Some (w', n)" "length bs' \<le> num * m"
          "ss_in ?s = d @ rest" "w_sent w' = w_sent w2" "session_rel fd w' (moved ?s bs' op' d rest)" by metis
      have "length (bs @ bs') \<le> Suc num * m" using w2(2) ih(2) by simp
      moreover have "ss_in s = (c @ d) @ rest" using w2(5) ih(3) by simp
      ultimately show ?thesis
        using step ih(1,4,5) w2(3,4) unfolding moved_moved by metis
    qed
  next
    case False
    then have res: "pty_read_loop cb (Suc num) w = Some (w1, Suc num)" using eq pty mr by (auto split: sum.splits)
    have keep: "w1 = w\<lparr>w_pending := w_pending w1\<rparr>" "in_stream (w_pending w) = in_stream (w_pending w1)"
      using False mr master_read_none [of "fd_of w" w w1] master_read_data [of "fd_of w" w w1] by (cases r; auto)+
    have same: "w_obj w1 = w_obj w" "w_sent w1 = w_sent w" "w_input w1 = w_input w" "w_closed w1 = w_closed w"
      "w_size w1 = w_size w" "w_signals w1 = w_signals w" by (subst keep(1), simp)+
    have "session_rel fd w1 (moved s [] (ss_open s) [] (ss_in s))"
      using Suc.prems(1) same keep(2) unfolding moved_id by (simp add: session_rel_def out_stream_def)
    moreover have "length [] \<le> Suc num * m" "ss_in s = [] @ ss_in s" by simp_all
    ultimately show ?thesis using res same(2) by metis
  qed
qed simp

text \<open>What a call that only touches the output queue leaves alone.\<close>

definition same_frame :: "pty_world \<Rightarrow> pty_world \<Rightarrow> bool" where
  "same_frame w w' \<longleftrightarrow>
     map_option pty_ref (w_obj w') = map_option pty_ref (w_obj w) \<and> w_closed w' = w_closed w \<and>
     w_size w' = w_size w \<and> w_signals w' = w_signals w \<and> w_input w' = w_input w \<and> w_pending w' = w_pending w"

lemma pty_write_frame: "pty_write resp w = Some w' \<Longrightarrow> same_frame w w'"
  by (auto simp: pty_write_def master_writev_def same_frame_def split: bind_splits if_splits sum.splits prod.splits)

lemma shl_pty_write_frame: "shl_pty_write env bs w = Some (w', r) \<Longrightarrow> same_frame w w'"
  by (auto simp: shl_pty_write_def same_frame_def split: bind_splits if_splits)

lemma session_rel_frame:
  assumes "session_rel fd w s" "0 < ss_refs s" "same_frame w w'" "pty_inv w'" "fd_of w' = fd_of w"
  shows "session_rel fd w' (s\<lparr>ss_out := out_stream w', ss_sent := length (w_sent w')\<rparr>)"
  using assms
  by (auto simp: session_rel_def same_frame_def pty_inv_def obj_rel_def fd_of_def split: option.splits if_splits)

lemma session_flush:
  assumes "session_rel fd w s" "0 < ss_refs s"
  shows "\<exists>w' n. pty_write resp w = Some w' \<and> ss_sent s \<le> n \<and> n \<le> length (ss_out s) \<and> (\<not> ss_open s \<longrightarrow> n = ss_sent s) \<and>
    session_rel fd w' (s\<lparr>ss_sent := n\<rparr>)"
proof -
  from session_rel_obj [OF assms] obtain pty where pty: "obj_rel fd pty s" "pty_inv w" "fd_of w = pty_fd pty" by metis
  from pty_write_spec [OF pty(2), of resp] obtain w' where
    w': "pty_write resp w = Some w'" "pty_inv w'" "out_stream w' = out_stream w" "fd_of w' = fd_of w"
      "w_sent w' = w_sent w @ (case resp of Inl _ \<Rightarrow> [] | Inr n \<Rightarrow> if fd_of w < 0 then [] else take n (drop (length (w_sent w)) (out_stream w)))"
    by blast
  have "s\<lparr>ss_out := out_stream w', ss_sent := length (w_sent w')\<rparr> = s\<lparr>ss_sent := length (w_sent w')\<rparr>"
    using w'(3) session_relD(2) [OF assms(1)] by simp
  with session_rel_frame [OF assms pty_write_frame [OF w'(1)] w'(2,4)]
  have rel: "session_rel fd w' (s\<lparr>ss_sent := length (w_sent w')\<rparr>)" by simp
  have "ss_sent s \<le> length (w_sent w')" using w'(5) session_relD(3) [OF assms(1)] by simp
  moreover have "length (w_sent w') \<le> length (ss_out s)" using sent_le [OF rel] by simp
  moreover have "length (w_sent w') = ss_sent s" if "\<not> ss_open s"
    using that pty w'(5) session_relD(3) [OF assms(1)] by (auto simp: obj_rel_def split: sum.splits)
  ultimately show ?thesis using w'(1) rel by blast
qed

lemma session_write:
  assumes "session_rel fd w s" "0 < ss_refs s" "length (ss_out s) + length bs < 2 ^ 62" "0 \<le> fd"
  shows "\<exists>w' r s'. shl_pty_write env bs w = Some (w', r) \<and> pty_step s (CWrite bs) r s' \<and> session_rel fd w' s' \<and>
    ss_refs s' = ss_refs s \<and> length (ss_out s') \<le> length (ss_out s) + length bs"
proof -
  from session_rel_obj [OF assms(1,2)] obtain pty where pty: "obj_rel fd pty s" "pty_inv w" "fd_of w = pty_fd pty" by metis
  have "length (out_stream w) - length (w_sent w) + length bs < 2 ^ 62"
    using assms(3) session_relD(2) [OF assms(1)] by simp
  from shl_pty_write_spec [OF pty(2) this, of env] obtain w' r where
    w': "shl_pty_write env bs w = Some (w', r)" "pty_inv w'" "w_sent w' = w_sent w" "fd_of w' = fd_of w"
      "if fd_of w < 0 then r = Inl ENODEV \<and> w' = w
       else r = ok \<and> out_stream w' = out_stream w @ bs \<or> r = Inl ENOMEM \<and> out_stream w' = out_stream w" by blast
  have "s\<lparr>ss_out := out_stream w', ss_sent := length (w_sent w')\<rparr> = s\<lparr>ss_out := out_stream w'\<rparr>"
    using w'(3) session_relD(3) [OF assms(1)] by simp
  with session_rel_frame [OF assms(1,2) shl_pty_write_frame [OF w'(1)] w'(2,4)]
  have rel: "session_rel fd w' (s\<lparr>ss_out := out_stream w'\<rparr>)" by simp
  have same: "s\<lparr>ss_out := out_stream w'\<rparr> = s" if "out_stream w' = out_stream w"
    using that session_relD(2) [OF assms(1)] by simp
  have op: "fd_of w < 0 \<longleftrightarrow> \<not> ss_open s" using pty assms(4) by (auto simp: obj_rel_def)
  show ?thesis
  proof (cases "r = ok")
    case True
    then have "ss_open s" "out_stream w' = ss_out s @ bs"
      using w'(5) op session_relD(2) [OF assms(1)] by (auto split: if_splits)
    then have "pty_step s (CWrite bs) r (s\<lparr>ss_out := out_stream w'\<rparr>)"
      using True write_ok [of s bs] by simp
    with w'(1) rel \<open>out_stream w' = ss_out s @ bs\<close> show ?thesis by fastforce
  next
    case False
    then have "out_stream w' = out_stream w" using w'(5) by (auto split: if_splits)
    moreover have "pty_step s (CWrite bs) r s"
      using False w'(5) op write_nomem [of s bs] write_closed [of s bs] by (auto split: if_splits)
    ultimately show ?thesis using w'(1) rel same by fastforce
  qed
qed

lemma session_dispatch:
  assumes "session_rel fd w s" "0 < ss_refs s" "cb_law fd m cb" "length (ss_out s) + m + 50 * m < 2 ^ 62"
  shows "\<exists>w' r s'. shl_pty_dispatch cb resp w = Some (w', r) \<and> pty_step s CDispatch r s' \<and> session_rel fd w' s' \<and>
    ss_refs s' = ss_refs s \<and> length (ss_out s') \<le> length (ss_out s) + 50 * m"
proof -
  have "(0::nat) < 50" by simp
  from session_read [OF assms(3,1,2,4) this] obtain w1 n bs op d rest where
    1: "pty_read_loop cb 50 w = Some (w1, n)" "length bs \<le> 50 * m" "op \<longrightarrow> ss_open s"
      "\<not> ss_open s \<longrightarrow> d = [] \<and> bs = []" "ss_in s = d @ rest" "session_rel fd w1 (moved s bs op d rest)" by blast
  let ?s = "moved s bs op d rest"
  have "0 < ss_refs ?s" using assms(2) by simp
  from session_flush [OF 1(6) this, of resp] obtain w2 k where
    2: "pty_write resp w1 = Some w2" "ss_sent s \<le> k" "k \<le> length (ss_out s @ bs)" "\<not> op \<longrightarrow> k = ss_sent s"
      "session_rel fd w2 (?s\<lparr>ss_sent := k\<rparr>)" by auto
  have "shl_pty_dispatch cb resp w = Some (w2, if n = 0 then Inl EAGAIN else ok)"
    using 1(1) 2(1) by (simp add: shl_pty_dispatch_def pty_read_def)
  moreover have "pty_step s CDispatch (if n = 0 then Inl EAGAIN else ok) (?s\<lparr>ss_sent := k\<rparr>)"
    using 1(3-5) 2(2-4) by (intro dispatch) auto
  ultimately show ?thesis using 1(2) 2(5) by fastforce
qed

text \<open>The calls that touch neither stream.\<close>

lemma session_ref:
  assumes "session_rel fd w s" "0 < ss_refs s" "ss_refs s + 1 < 2 ^ 64"
  shows "\<exists>w'. shl_pty_ref False w = Some w' \<and> session_rel fd w' (s\<lparr>ss_refs := ss_refs s + 1\<rparr>)"
proof -
  obtain pty where pty: "w_obj w = Some pty" "obj_rel fd pty s" using session_rel_obj [OF assms(1,2)] by metis
  then have ref: "unat (pty_ref pty) = ss_refs s" by (simp add: obj_rel_def)
  then have "pty_ref pty \<noteq> 0" "unat (pty_ref pty + 1) = ss_refs s + 1"
    using assms(2,3) by (auto simp: unat_add_nowrap)
  with assms(1) pty show ?thesis
    by (simp add: shl_pty_ref_def session_rel_def obj_rel_def out_stream_def)
qed

lemma session_close:
  assumes "session_rel fd w s" "0 < ss_refs s" "0 \<le> fd"
  shows "\<exists>w'. shl_pty_close w = Some w' \<and> session_rel fd w' (s\<lparr>ss_open := False\<rparr>)"
proof -
  obtain pty where pty: "w_obj w = Some pty" "obj_rel fd pty s" using session_rel_obj [OF assms(1,2)] by metis
  with assms show ?thesis
    by (auto simp: shl_pty_close_def session_rel_def obj_rel_def out_stream_def)
qed

lemma session_unref:
  assumes "session_rel fd w s" "0 < ss_refs s" "0 \<le> fd"
  shows "\<exists>w' s'. shl_pty_unref False w = Some w' \<and> pty_step s CUnref ok s' \<and> session_rel fd w' s' \<and>
    ss_refs s' = ss_refs s - 1 \<and> length (ss_out s') \<le> length (ss_out s)"
proof -
  obtain pty where pty: "w_obj w = Some pty" "obj_rel fd pty s" using session_rel_obj [OF assms(1,2)] by metis
  let ?pty = "pty\<lparr>pty_ref := pty_ref pty - 1\<rparr>"
  let ?w = "w\<lparr>w_obj := Some ?pty\<rparr>"
  have "unat (pty_ref pty) = ss_refs s" using pty(2) by (simp add: obj_rel_def)
  then have ref: "pty_ref pty \<noteq> 0" "unat (pty_ref pty - 1) = ss_refs s - 1"
    using assms(2) by (auto simp: unat_sub_nowrap word_le_nat_alt)
  then have last: "pty_ref pty - 1 = 0 \<longleftrightarrow> ss_refs s = 1"
    using assms(2) by (metis One_nat_def Suc_pred diff_self_eq_0 unat_eq_zero)
  show ?thesis
  proof (cases "ss_refs s = 1")
    case False
    then have "shl_pty_unref False w = Some ?w" using pty(1) ref(1) last by (simp add: shl_pty_unref_def Let_def)
    moreover have "session_rel fd ?w (s\<lparr>ss_refs := ss_refs s - 1\<rparr>)"
      using assms(1,2) pty ref(2) False by (simp add: session_rel_def obj_rel_def out_stream_def)
    ultimately show ?thesis using False assms(2) drop_ref [of s] by fastforce
  next
    case True
    have "shl_pty_unref False w = do { w \<leftarrow> shl_pty_close ?w; Some (w\<lparr>w_obj := None\<rparr>) }"
      using pty(1) ref(1) last True by (simp add: shl_pty_unref_def Let_def)
    moreover have "\<exists>w'. shl_pty_close ?w = Some w' \<and> session_rel fd (w'\<lparr>w_obj := None\<rparr>)
        (s\<lparr>ss_refs := 0, ss_open := False, ss_out := take (ss_sent s) (ss_out s)\<rparr>)"
      using assms(1,3) pty sent_prefix [OF assms(1)]
      by (auto simp: shl_pty_close_def session_rel_def obj_rel_def out_stream_def)
    ultimately show ?thesis using True last_ref [of s] by fastforce
  qed
qed

lemma session_ioctl:
  assumes "session_rel fd w s" "0 < ss_refs s" "0 \<le> fd"
  shows "\<exists>w' r s'. shl_pty_signal resp sig w = Some (w', r) \<and> pty_step s (CSignal sig) r s' \<and> session_rel fd w' s' \<and>
      ss_refs s' = ss_refs s \<and> ss_out s' = ss_out s"
    and "\<exists>w' r s'. shl_pty_resize resp cols rows w = Some (w', r) \<and> pty_step s (CResize cols rows) r s' \<and> session_rel fd w' s' \<and>
      ss_refs s' = ss_refs s \<and> ss_out s' = ss_out s"
proof -
  obtain pty where pty: "w_obj w = Some pty" "obj_rel fd pty s" using session_rel_obj [OF assms(1,2)] by metis
  then have op: "shl_pty_is_open pty \<longleftrightarrow> ss_open s" using assms(3) by (auto simp: shl_pty_is_open_def obj_rel_def split: if_splits)
  have "session_rel fd (w\<lparr>w_signals := w_signals w @ [sig]\<rparr>) (s\<lparr>ss_signals := ss_signals s @ [sig]\<rparr>)"
    "session_rel fd (w\<lparr>w_size := Some z\<rparr>) (s\<lparr>ss_size := Some z\<rparr>)" for z
    using assms(1) pty by (simp_all add: session_rel_def obj_rel_def out_stream_def)
  note rel = this assms(1)
  show "\<exists>w' r s'. shl_pty_signal resp sig w = Some (w', r) \<and> pty_step s (CSignal sig) r s' \<and> session_rel fd w' s' \<and>
      ss_refs s' = ss_refs s \<and> ss_out s' = ss_out s"
    using rel(1,3) pty(1) op signal_ok [of s sig] ioctl_err [of s "CSignal sig"] ioctl_closed [of s "CSignal sig"]
    by (cases "ss_open s"; cases resp) (fastforce simp: shl_pty_signal_def)+
  show "\<exists>w' r s'. shl_pty_resize resp cols rows w = Some (w', r) \<and> pty_step s (CResize cols rows) r s' \<and> session_rel fd w' s' \<and>
      ss_refs s' = ss_refs s \<and> ss_out s' = ss_out s"
    using rel(2,3) pty(1) op resize_ok [of s cols rows] ioctl_err [of s "CResize cols rows"] ioctl_closed [of s "CResize cols rows"]
    by (cases "ss_open s"; cases resp) (fastforce simp: shl_pty_resize_def)+
qed

lemma session_step:
  assumes "session_rel fd w s" "cb_law fd m cb" "0 \<le> fd" "calls_enabled m s (c # cs)"
  shows "\<exists>w' r s'. pty_exec cb c w = Some (w', r) \<and> pty_step s (fst c) r s' \<and> session_rel fd w' s' \<and> calls_enabled m s' cs"
proof -
  obtain k a where c: "c = (k, a)" by fastforce
  let ?n = "case k of CRef \<Rightarrow> ss_refs s + 1 | CUnref \<Rightarrow> ss_refs s - 1 | _ \<Rightarrow> ss_refs s"
  have en: "0 < ss_refs s" "live_calls ?n (map fst cs)" "ss_refs s + 1 + length cs < 2 ^ 64"
    "length (ss_out s) + m + (call_cost m k + sum_list (map (call_cost m \<circ> fst) cs)) < 2 ^ 62"
    using assms(4) by (simp_all add: calls_enabled_def c)
  have nxt: "calls_enabled m s' cs" if "ss_refs s' = ?n" "length (ss_out s') \<le> length (ss_out s) + call_cost m k" for s'
    using that en by (auto simp: calls_enabled_def split: pty_call.splits)
  note rel = assms(1) en(1)
  show ?thesis
  proof (cases k)
    case (CWrite bs)
    with session_write [OF rel _ assms(3), of bs "a_alloc a"] en(4) nxt show ?thesis
      by (fastforce simp: c pty_exec_def call_cost_def)
  next
    case CDispatch
    with session_dispatch [OF rel assms(2), of "a_writev a"] en(4) nxt show ?thesis
      by (fastforce simp: c pty_exec_def call_cost_def)
  next
    case CRef
    with session_ref [OF rel] en(3) nxt [of "s\<lparr>ss_refs := ss_refs s + 1\<rparr>"] add_ref [of s] show ?thesis
      by (fastforce simp: c pty_exec_def)
  next
    case CUnref
    with session_unref [OF rel assms(3)] nxt show ?thesis by (fastforce simp: c pty_exec_def)
  next
    case CClose
    with session_close [OF rel assms(3)] nxt [of "s\<lparr>ss_open := False\<rparr>"] close_pty [of s] show ?thesis
      by (fastforce simp: c pty_exec_def)
  next
    case (CSignal sig)
    with session_ioctl(1) [OF rel assms(3), of "a_ioctl a" sig] nxt show ?thesis by (fastforce simp: c pty_exec_def)
  next
    case (CResize cols rows)
    with session_ioctl(2) [OF rel assms(3), of "a_ioctl a" cols rows] nxt show ?thesis by (fastforce simp: c pty_exec_def)
  qed
qed

interpretation pty: simulation "pty_exec cb" fst pty_step
  "\<lambda>w s. cb_law fd m cb \<and> 0 \<le> fd \<and> session_rel fd w s" "calls_enabled m"
  for cb :: input_cb and fd :: int and m :: nat
  by unfold_locales (use session_step in \<open>blast\<close>)

subsection \<open>What the specification promises\<close>

text \<open>No input is lost, duplicated or reordered, and the terminal never receives more than was accepted.\<close>

lemma pty_step_input: "pty_step s c r s' \<Longrightarrow> ss_got s' @ ss_in s' = ss_got s @ ss_in s"
  by (induction rule: pty_step.induct) auto

lemma session_input:
  "trace pty_step (session_start inp) cs rs s \<Longrightarrow> ss_got s @ ss_in s = inp"
  by (erule trace_invariant [where P = "\<lambda>s. ss_got s @ ss_in s = inp"]) (simp_all add: session_start_def pty_step_input)

inductive_cases pty_step_writeE: "pty_step s (CWrite bs) r s'"

lemma session_start_rel:
  "pty = \<lparr>pty_ref = 1, pty_fd = fd, pty_child = pid, pty_out = pring_zero\<rparr> \<Longrightarrow>
   session_rel fd (pty_world_of pty pending) (session_start (in_stream pending))"
  by (simp add: session_rel_def pty_world_of_def session_start_def obj_rel_def pring_zero_inv out_stream_def)

text \<open>The callback that answers every input keeps to the law.\<close>

lemma answer_cb_law:
  assumes "0 \<le> fd"
  shows "cb_law fd 4 answer_cb"
  unfolding cb_law_def
proof (intro allI impI)
  fix d w s
  assume rel: "session_rel fd w s" "0 < ss_refs s" and small: "length (ss_out s) + 4 < 2 ^ 62"
  let ?bs = "[27, 91, 48, 110] :: u8 list" and ?env = "\<lparr>alloc_fails = (\<lambda>_. False), junk = (\<lambda>_. 0)\<rparr>"
  let ?goal = "\<lambda>w' bs op. answer_cb d w = Some w' \<and> w_pending w' = w_pending w \<and> length bs \<le> 4 \<and> (op \<longrightarrow> ss_open s) \<and>
     (bs \<noteq> [] \<longrightarrow> ss_open s) \<and> w_sent w' = w_sent w \<and> session_rel fd w' (moved s bs op [] (ss_in s))"
  consider (eot) "4 \<in> set d" | (full) "4 \<notin> set d" "\<not> length (out_stream w) < 2 ^ 20"
    | (answer) "4 \<notin> set d" "length (out_stream w) < 2 ^ 20" by blast
  then show "\<exists>w' bs op. ?goal w' bs op"
  proof cases
    case eot
    from session_close [OF rel assms] obtain w' where
      w': "shl_pty_close w = Some w'" "session_rel fd w' (s\<lparr>ss_open := False\<rparr>)" by blast
    have "w_pending w' = w_pending w" "w_sent w' = w_sent w"
      using w'(1) by (auto simp: shl_pty_close_def split: bind_splits if_splits)
    with w' eot show ?thesis
      by (intro exI [of _ w'] exI [of _ "[]"] exI [of _ False]) (simp add: answer_cb_def moved_def)
  next
    case full
    then show ?thesis using rel
      by (intro exI [of _ w] exI [of _ "[]"] exI [of _ "ss_open s"]) (simp add: answer_cb_def moved_id)
  next
    case answer
    have "length (ss_out s) + length ?bs < 2 ^ 62" using small by simp
    from session_write [OF rel this assms, of ?env] obtain w' r s' where
      w': "shl_pty_write ?env ?bs w = Some (w', r)" "pty_step s (CWrite ?bs) r s'" "session_rel fd w' s'" by blast
    have "s' = moved s [] (ss_open s) [] (ss_in s) \<or> ss_open s \<and> s' = moved s ?bs (ss_open s) [] (ss_in s)"
      using w'(2) by (rule pty_step_writeE) (simp_all add: moved_def)
    then obtain bs where bs: "s' = moved s bs (ss_open s) [] (ss_in s)" "length bs \<le> 4" "bs \<noteq> [] \<longrightarrow> ss_open s" by fastforce
    have "w_sent w' = w_sent w"
      using sent_prefix [OF w'(3)] sent_prefix [OF rel(1)] sent_le [OF rel(1)] bs(1) by simp
    moreover have "w_pending w' = w_pending w" using shl_pty_write_frame [OF w'(1)] by (simp add: same_frame_def)
    ultimately show ?thesis
      using w'(1,3) bs answer by (intro exI [of _ w'] exI [of _ bs] exI [of _ "ss_open s"]) (simp add: answer_cb_def)
  qed
qed

subsection \<open>The property\<close>

text \<open>
  C37. The life of a PTY: on an object that \<^verbatim>\<open>shl_pty_open\<close> returned to the parent, every sequence of writes,
  dispatches, references, closes, signals and resizes (none after the last reference is dropped) is
  defined and returns what the specification allows, whatever the allocator, \<^verbatim>\<open>writev\<close> and \<^verbatim>\<open>ioctl\<close>
  answer and although the input callback may write to the PTY and close it. The terminal has received
  the accepted output in order, up to a point; the callback got the input in order, and the rest is still to
  come; the object is freed exactly when the last reference is dropped, and the master is closed once.
\<close>

theorem pty_session_refines:
  assumes "fresh_fds k p" "k_fork k \<noteq> Inr 0"
    and "shl_pty_open k cols rows p = Some (p', live, Returned (Inr pid) (Some (Some pty)))"
    and "cb_law (pty_fd pty) m cb"
    and "live_calls 1 (map fst calls)" "length calls < 2 ^ 63"
    and "m + sum_list (map (call_cost m \<circ> fst) calls) < 2 ^ 62"
  shows "\<exists>w rs s. run_calls (pty_exec cb) calls (pty_world_of pty pending) = Some (w, rs) \<and>
    trace pty_step (session_start (in_stream pending)) (map fst calls) rs s \<and>
    w_sent w = take (ss_sent s) (ss_out s) \<and> concat (w_input w) @ in_stream (w_pending w) = in_stream pending \<and>
    (w_obj w = None \<longleftrightarrow> ss_refs s = 0) \<and> w_closed w = (if ss_open s then [] else [pty_fd pty]) \<and>
    w_size w = ss_size s \<and> w_signals w = ss_signals s"
proof -
  from pty_open_parent_result [OF assms(1-3)] obtain fd where
    pty: "pty = \<lparr>pty_ref = 1, pty_fd = fd, pty_child = pid, pty_out = pring_zero\<rparr>" "k_openpt k = Inr fd" by auto
  then have "0 \<le> fd" "fd = pty_fd pty" using assms(1) by (auto simp: fresh_fds_def)
  with assms(4) session_start_rel [OF pty(1)]
  have rel: "cb_law fd m cb \<and> 0 \<le> fd \<and> session_rel fd (pty_world_of pty pending) (session_start (in_stream pending))" by simp
  have en: "calls_enabled m (session_start (in_stream pending)) calls"
    using assms(5-7) by (simp add: calls_enabled_def session_start_def)
  from pty.run_simulates [OF rel en] obtain w rs s where
    w: "run_calls (pty_exec cb) calls (pty_world_of pty pending) = Some (w, rs)"
      "trace pty_step (session_start (in_stream pending)) (map fst calls) rs s" "session_rel fd w s" by blast
  have "w_obj w = None \<longleftrightarrow> ss_refs s = 0" using w(3) by (auto simp: session_rel_def split: option.splits)
  with w sent_prefix [OF w(3)] session_relD [OF w(3)] session_input [OF w(2)] \<open>fd = pty_fd pty\<close> show ?thesis
    by (intro exI [of _ w] exI [of _ rs] exI [of _ s]) simp
qed

definition answers0 :: answers where
  "answers0 = \<lparr>a_alloc = \<lparr>alloc_fails = (\<lambda>_. False), junk = (\<lambda>_. 0)\<rparr>, a_writev = Inr 3, a_ioctl = ok\<rparr>"

theorem pty_session_refines_witness:
  "\<exists>w rs s. run_calls (pty_exec answer_cb)
      [(CWrite [65, 66], answers0), (CDispatch, answers0), (CResize 80 24, answers0), (CUnref, answers0)]
      (pty_world_of \<lparr>pty_ref = 1, pty_fd = 3, pty_child = 77, pty_out = pring_zero\<rparr> [Inr [97], Inr [98]]) = Some (w, rs) \<and>
    trace pty_step (session_start (in_stream [Inr [97], Inr [98]])) [CWrite [65, 66], CDispatch, CResize 80 24, CUnref] rs s \<and>
    w_sent w = take (ss_sent s) (ss_out s) \<and> concat (w_input w) @ in_stream (w_pending w) = [97, 98]"
proof -
  have f: "k_fork kernel0 \<noteq> Inr 0" by (simp add: kernel0_def)
  let ?calls = "[(CWrite [65, 66], answers0), (CDispatch, answers0), (CResize 80 24, answers0), (CUnref, answers0)]"
  have "cb_law (pty_fd \<lparr>pty_ref = 1, pty_fd = 3, pty_child = 77, pty_out = pring_zero\<rparr>) 4 answer_cb"
    using answer_cb_law [of 3] by simp
  moreover have "live_calls 1 (map fst ?calls)" "length ?calls < 2 ^ 63" by simp_all
  moreover have "4 + sum_list (map (call_cost 4 \<circ> fst) ?calls) < 2 ^ 62" by (simp add: call_cost_def)
  moreover have "map fst ?calls = [CWrite [65, 66], CDispatch, CResize 80 24, CUnref]"
    "in_stream [Inr [97], Inr [98]] = [97, 98]" by simp_all
  ultimately show ?thesis
    using pty_session_refines [OF kernel0_fresh f open0, of 4 answer_cb ?calls "[Inr [97], Inr [98]]"] by metis
qed

end
