(* ===== verification/Shl_Pty_Bridge_Life.thy ===== *)
theory Shl_Pty_Bridge_Life
  imports Shl_Pty_Bridge Shl_Pty_Session
begin

text \<open>
  The life of a PTY bridge (\<^verbatim>\<open>src/shl_pty.c\<close>): everything that can happen to a bridge and to the PTYs around it, as an inductive
  definition of the reachable states, and that every dispatch in such a state is defined and routed correctly.
\<close>

text \<open>What a caller does to a PTY: a write must leave less than \<open>2^62\<close> bytes queued.\<close>

definition call_fits :: "pty_call \<Rightarrow> pty_world \<Rightarrow> bool" where
  "call_fits c w \<longleftrightarrow> (case c of CWrite bs \<Rightarrow> length (out_stream w) - length (w_sent w) + length bs < 2 ^ 62 | _ \<Rightarrow> True)"

text \<open>
  The states of a bridge and of all PTY objects. Objects come from \<^verbatim>\<open>shl_pty_open\<close>. They are added to and removed from
  the bridge in any order, also twice or after they were closed. Input arrives, and the kernel queues an edge for any registered
  descriptor. Any function is called on any object; what it closes leaves the epoll set unless another process holds its open
  file (\<open>held\<close>), and an object is gone with its last reference.
\<close>

inductive bridge_reach :: "int set \<Rightarrow> input_cb \<Rightarrow> epoll_set \<Rightarrow> (nat \<rightharpoonup> pty_world) \<Rightarrow> bool" for held cb where
  reach_new: "shl_pty_bridge_new resp = Inr (fd, b) \<Longrightarrow> bridge_reach held cb b Map.empty"
| reach_open: "bridge_reach held cb b objs \<Longrightarrow> objs ptr = None \<Longrightarrow> 0 \<le> fd \<Longrightarrow>
    bridge_reach held cb b (objs(ptr \<mapsto> pty_world_of \<lparr>pty_ref = 1, pty_fd = fd, pty_child = pid, pty_out = pring_zero\<rparr> pending))"
| reach_add: "bridge_reach held cb b objs \<Longrightarrow> objs ptr = Some w \<Longrightarrow> w_obj w = Some pty \<Longrightarrow>
    shl_pty_bridge_add b ptr pty = (b', r) \<Longrightarrow> bridge_reach held cb b' objs"
| reach_remove: "bridge_reach held cb b objs \<Longrightarrow> objs ptr = Some w \<Longrightarrow> w_obj w = Some pty \<Longrightarrow>
    bridge_reach held cb (shl_pty_bridge_remove b pty) objs"
| reach_input: "bridge_reach held cb b objs \<Longrightarrow> objs ptr = Some w \<Longrightarrow>
    bridge_reach held cb b (objs(ptr \<mapsto> w\<lparr>w_pending := w_pending w @ [chunk]\<rparr>))"
| reach_edge: "bridge_reach held cb b objs \<Longrightarrow> b_interest b fd \<noteq> None \<Longrightarrow> fd \<notin> set (b_ready b) \<Longrightarrow>
    bridge_reach held cb (b\<lparr>b_ready := b_ready b @ [fd]\<rparr>) objs"
| reach_call: "bridge_reach held cb b objs \<Longrightarrow> objs ptr = Some w \<Longrightarrow> call_fits (fst c) w \<Longrightarrow> pty_exec cb c w = Some (w', r) \<Longrightarrow>
    bridge_reach held cb (fold (epoll_close held) (drop (length (w_closed w)) (w_closed w')) b)
      (objs(ptr := (if w_obj w' = None then None else Some w')))"
| reach_dispatch: "bridge_reach held cb b objs \<Longrightarrow> shl_pty_bridge_dispatch held cb resp err b objs = Some (b', objs', r) \<Longrightarrow>
    bridge_reach held cb b' objs'"

text \<open>Beside the invariant of the bridge, every object is well-formed, and its descriptor is \<open>-1\<close> once it is closed.\<close>

definition objs_inv :: "(nat \<rightharpoonup> pty_world) \<Rightarrow> bool" where
  "objs_inv objs \<longleftrightarrow> (\<forall>w \<in> ran objs. pty_inv w \<and> -1 \<le> fd_of w)"

lemma objs_invD: "objs_inv objs \<Longrightarrow> objs ptr = Some w \<Longrightarrow> pty_inv w \<and> -1 \<le> fd_of w"
  by (auto simp: objs_inv_def ran_def)

lemma objs_inv_upd: "objs_inv objs \<Longrightarrow> pty_inv w \<Longrightarrow> -1 \<le> fd_of w \<Longrightarrow> objs_inv (objs(ptr \<mapsto> w))"
  by (auto simp: objs_inv_def ran_def)

lemma closing_fd: "closing w w' \<Longrightarrow> -1 \<le> fd_of w \<Longrightarrow> -1 \<le> fd_of w'"
  by (auto simp: closing_def)

lemma unref_closing:
  assumes "w_obj w = Some pty" "pring_inv (pty_out pty)" "-1 \<le> pty_fd pty" "shl_pty_unref False w = Some w'"
  shows "closing w w' \<and> (w_obj w' \<noteq> None \<longrightarrow> pty_inv w')"
proof -
  consider "pty_ref pty = 0" | "pty_ref pty \<noteq> 0" "pty_ref pty - 1 \<noteq> 0" | "pty_ref pty \<noteq> 0" "pty_ref pty - 1 = 0" by blast
  then show ?thesis
  proof cases
    case 1
    then have "w' = w" using assms(1,4) by (simp add: shl_pty_unref_def)
    then show ?thesis using assms(1,2) by (simp add: closing_refl pty_inv_def)
  next
    case 2
    then have "w' = w\<lparr>w_obj := Some (pty\<lparr>pty_ref := pty_ref pty - 1\<rparr>)\<rparr>" using assms(1,4) by (simp add: shl_pty_unref_def)
    then show ?thesis using assms(1,2) by (simp add: closing_def fd_of_def pty_inv_def)
  next
    case 3
    then have "w' = w\<lparr>w_closed := w_closed w @ (if pty_fd pty < 0 then [] else [pty_fd pty]), w_obj := None\<rparr>"
      using assms(1,4) by (auto simp: shl_pty_unref_def shl_pty_close_def split: if_splits)
    then show ?thesis using assms(1,3) by (auto simp: closing_def fd_of_def)
  qed
qed

text \<open>Every call closes the descriptor at most once and keeps the object well-formed, or frees it.\<close>

lemma exec_closing:
  assumes "pty_inv w" "-1 \<le> fd_of w" "call_fits (fst c) w" "well_behaved cb" "closing_cb cb" "pty_exec cb c w = Some (w', r)"
  shows "closing w w' \<and> (w_obj w' \<noteq> None \<longrightarrow> pty_inv w')"
proof -
  obtain pty where pty: "w_obj w = Some pty" "pring_inv (pty_out pty)" "-1 \<le> pty_fd pty"
    using assms(1,2) by (auto simp: pty_inv_def fd_of_def split: option.splits)
  obtain call a where c: "c = (call, a)" by fastforce
  show ?thesis
  proof (cases call)
    case (CWrite bs)
    then show ?thesis
      using assms(3,6) c shl_pty_write_spec [OF assms(1), of bs "a_alloc a"]
      by (auto simp: call_fits_def pty_exec_def intro: closing_refl)
  next
    case CDispatch
    then show ?thesis
      using assms(6) c dispatch_defined [OF assms(1,4), of "a_writev a"] dispatch_closing [OF assms(5), of "a_writev a" w]
      by (auto simp: pty_exec_def)
  next
    case CRef
    then have "w' = w \<or> w' = w\<lparr>w_obj := Some (pty\<lparr>pty_ref := pty_ref pty + 1\<rparr>)\<rparr>"
      using assms(6) pty c by (auto simp: pty_exec_def shl_pty_ref_def split: if_splits)
    then show ?thesis using pty by (auto simp: closing_def fd_of_def pty_inv_def)
  next
    case CUnref
    then show ?thesis using assms(6) c unref_closing [OF pty] by (auto simp: pty_exec_def split: Option.bind_splits)
  next
    case CClose
    then have "w' = (if pty_fd pty < 0 then w else w\<lparr>w_closed := w_closed w @ [pty_fd pty], w_obj := Some (pty\<lparr>pty_fd := -1\<rparr>)\<rparr>)"
      using assms(6) pty c by (simp add: pty_exec_def shl_pty_close_def split: if_splits)
    then show ?thesis using pty by (simp add: closing_def fd_of_def pty_inv_def)
  next
    case (CSignal sig)
    then have "w_obj w' = w_obj w" "w_closed w' = w_closed w"
      using assms(6) pty c by (cases "a_ioctl a"; cases "shl_pty_is_open pty"; simp add: pty_exec_def shl_pty_signal_def; auto)+
    then show ?thesis using pty by (simp add: closing_def fd_of_def pty_inv_def)
  next
    case (CResize cols rows)
    then have "w_obj w' = w_obj w" "w_closed w' = w_closed w"
      using assms(6) pty c by (cases "a_ioctl a"; cases "shl_pty_is_open pty"; simp add: pty_exec_def shl_pty_resize_def; auto)+
    then show ?thesis using pty by (simp add: closing_def fd_of_def pty_inv_def)
  qed
qed

lemma bridge_inv_upd:
  assumes "bridge_inv b objs" "objs ptr = Some w" "closing w w'" "w_obj w' \<noteq> None \<longrightarrow> pty_inv w'"
  shows "bridge_inv (fold epoll_forget (drop (length (w_closed w)) (w_closed w')) b)
    (objs(ptr := (if w_obj w' = None then None else Some w')))"
proof -
  have open_obj: "fd_of w = fd \<and> 0 \<le> fd" if "b_interest b fd = Some ptr" for fd
    using assms(1,2) that unfolding bridge_inv_def by fastforce
  show ?thesis
  proof (cases "fd_of w' = fd_of w")
    case True
    have "w_obj w' \<noteq> None" if "b_interest b fd = Some ptr" for fd
      using open_obj [OF that] True by (cases "w_obj w'") (auto simp: fd_of_def)
    then show ?thesis
      using assms True open_obj by (auto simp: bridge_inv_def closing_def)
  next
    case False
    then have forget: "fold epoll_forget (drop (length (w_closed w)) (w_closed w')) b = epoll_forget (fd_of w) b"
      using assms(3) by (simp add: closing_def)
    show ?thesis
      unfolding forget using assms(1) open_obj by (fastforce simp: bridge_inv_def epoll_forget_def distinct_removeAll split: if_splits)
  qed
qed

lemma bridge_dispatch_keeps:
  assumes "bridge_inv b objs" "objs_inv objs" "well_behaved cb" "closing_cb cb"
    and "shl_pty_bridge_dispatch {} cb resp err b objs = Some (b', objs', r)"
  shows "bridge_inv b' objs' \<and> objs_inv objs'"
proof (cases "err \<noteq> None \<or> b_ready b = []")
  case True
  then show ?thesis using assms(1,2,5) by (auto simp: shl_pty_bridge_dispatch_def split: if_splits option.splits)
next
  case False
  then obtain fd rest where "err = None" "b_ready b = fd # rest" by (cases "b_ready b") auto
  with bridge_routes [OF assms(1) _ assms(3,4), of fd rest resp] assms(5) obtain ptr w w' r' where
    w: "objs ptr = Some w" "shl_pty_dispatch cb resp w = Some (w', r')" "objs' = objs(ptr \<mapsto> w')" "bridge_inv b' objs'"
    by auto
  note inv = objs_invD [OF assms(2) w(1)]
  have "pty_inv w'" using dispatch_defined [OF conjunct1 [OF inv] assms(3), of resp] w(2) by auto
  moreover have "-1 \<le> fd_of w'" using dispatch_closing [OF assms(4) w(2)] inv closing_fd by blast
  ultimately show ?thesis using w(3,4) objs_inv_upd [OF assms(2)] by simp
qed

lemma bridge_reach_inv:
  assumes "well_behaved cb" "closing_cb cb" "bridge_reach {} cb b objs"
  shows "bridge_inv b objs \<and> objs_inv objs"
  using assms(3)
proof induction
  case (reach_new resp fd b)
  then show ?case by (auto simp: shl_pty_bridge_new_def bridge_inv_def objs_inv_def split: sum.splits)
next
  case (reach_open b objs ptr fd pid pending)
  have "b_interest b fd2 \<noteq> Some ptr" for fd2 using reach_open unfolding bridge_inv_def by fastforce
  let ?w = "pty_world_of \<lparr>pty_ref = 1, pty_fd = fd, pty_child = pid, pty_out = pring_zero\<rparr> pending"
  have "pty_inv ?w" "fd_of ?w = fd" by (simp_all add: pty_inv_def fd_of_def pty_world_of_def pring_zero_inv)
  then have "objs_inv (objs(ptr \<mapsto> ?w))" using reach_open by (intro objs_inv_upd) simp_all
  moreover have "bridge_inv b (objs(ptr \<mapsto> ?w))" using reach_open \<open>\<And>fd2. b_interest b fd2 \<noteq> Some ptr\<close> by (auto simp: bridge_inv_def)
  ultimately show ?case by blast
next
  case (reach_add b objs ptr w pty b' r)
  then show ?case using bridge_add_inv [of b objs ptr w pty] objs_invD [of objs ptr w] by auto
next
  case (reach_remove b objs ptr w pty)
  then show ?case by (simp add: bridge_remove_inv)
next
  case (reach_input b objs ptr w chunk)
  note inv = objs_invD [of objs ptr w]
  have same: "pty_inv (w\<lparr>w_pending := p\<rparr>) = pty_inv w" "fd_of (w\<lparr>w_pending := p\<rparr>) = fd_of w" for p
    by (simp_all add: pty_inv_def fd_of_def)
  let ?w = "w\<lparr>w_pending := w_pending w @ [chunk]\<rparr>"
  have "closing w ?w" "w_obj ?w \<noteq> None" "pty_inv ?w"
    using reach_input inv by (auto simp: closing_def same pty_inv_def split: option.splits)
  then have "bridge_inv b (objs(ptr \<mapsto> ?w))" "objs_inv (objs(ptr \<mapsto> ?w))"
    using reach_input inv bridge_inv_upd [of b objs ptr w ?w] objs_inv_upd [of objs ?w ptr] by (auto simp: same)
  then show ?case by blast
next
  case (reach_edge b objs fd)
  then show ?case by (auto simp: bridge_inv_def)
next
  case (reach_call b objs ptr w c w' r)
  then have inv: "pty_inv w" "-1 \<le> fd_of w" using objs_invD by blast+
  note call = exec_closing [OF inv reach_call.hyps(3) assms(1,2) reach_call.hyps(4)]
  have "objs_inv (objs(ptr := (if w_obj w' = None then None else Some w')))"
    using reach_call.IH call closing_fd inv(2) by (auto simp: objs_inv_def ran_def)
  then show ?case using bridge_inv_upd [of b objs ptr w w'] reach_call call unfolding epoll_close_last by blast
next
  case (reach_dispatch b objs resp err b' objs' r)
  then show ?case using bridge_dispatch_keeps [OF _ _ assms(1,2)] by blast
qed

text \<open>
  C38. As long as no other process holds the open file of a master (\<open>held = {}\<close>, so that closing the descriptor takes it out of the
  epoll set), in every state a bridge can get into, whatever is added, removed, closed, freed and dispatched around it, a dispatch
  is defined, so it never calls into an object that is gone. If the wait fails or nothing is ready nothing changes; otherwise
  exactly the PTY whose event is next is dispatched, and its descriptor leaves the epoll set exactly when the PTY was closed
  meanwhile. Its event leaves the queue in all cases, also when the PTY stopped at its read limit with more input pending
  (\<^verbatim>\<open>-EAGAIN\<close>): the comment in \<^verbatim>\<open>shl_pty_bridge_dispatch\<close> says that the descriptor then gets a new event for the next
  round, but the code adds it a second time, which the kernel refuses (\<open>bridge_not_rearmed\<close>).
\<close>

theorem bridge_session_routes:
  assumes "well_behaved cb" "closing_cb cb" "held = {}" "bridge_reach held cb b objs"
  shows "(\<forall>e. shl_pty_bridge_dispatch held cb resp (Some e) b objs = Some (b, objs, if e \<in> {EAGAIN, EINTR} then ok else Inl e)) \<and>
    (case b_ready b of
       [] \<Rightarrow> shl_pty_bridge_dispatch held cb resp None b objs = Some (b, objs, ok)
     | fd # rest \<Rightarrow>
         \<exists>ptr w w' r b'. b_interest b fd = Some ptr \<and> objs ptr = Some w \<and> fd_of w = fd \<and>
           shl_pty_dispatch cb resp w = Some (w', r) \<and>
           shl_pty_bridge_dispatch held cb resp None b objs = Some (b', objs(ptr \<mapsto> w'), ok) \<and>
           b_ready b' = rest \<and> b_interest b' = (if fd_of w' = fd then b_interest b else (b_interest b)(fd := None)))"
proof -
  note inv = bridge_reach_inv [OF assms(1,2) assms(4) [unfolded assms(3)]]
  have "\<exists>ptr w w' r b'. b_interest b fd = Some ptr \<and> objs ptr = Some w \<and> fd_of w = fd \<and>
      shl_pty_dispatch cb resp w = Some (w', r) \<and>
      shl_pty_bridge_dispatch {} cb resp None b objs = Some (b', objs(ptr \<mapsto> w'), ok) \<and>
      b_ready b' = rest \<and> b_interest b' = (if fd_of w' = fd then b_interest b else (b_interest b)(fd := None))"
    if "b_ready b = fd # rest" for fd rest
  proof -
    from bridge_routes [OF conjunct1 [OF inv] that assms(1,2), of resp] obtain ptr w w' r b' where
      d: "b_interest b fd = Some ptr" "objs ptr = Some w" "shl_pty_dispatch cb resp w = Some (w', r)"
        "shl_pty_bridge_dispatch {} cb resp None b objs = Some (b', objs(ptr \<mapsto> w'), ok)" "b_ready b' = rest"
        "b_interest b' = (if fd_of w' = fd then b_interest b else (b_interest b)(fd := None))" by blast
    moreover have "fd_of w = fd" using inv d(1,2) unfolding bridge_inv_def by fastforce
    ultimately show ?thesis by blast
  qed
  moreover have "shl_pty_bridge_dispatch {} cb resp (Some e) b objs = Some (b, objs, if e \<in> {EAGAIN, EINTR} then ok else Inl e)" for e
    by (simp add: shl_pty_bridge_dispatch_def)
  moreover have "b_ready b = [] \<Longrightarrow> shl_pty_bridge_dispatch {} cb resp None b objs = Some (b, objs, ok)"
    by (simp add: shl_pty_bridge_dispatch_def)
  ultimately show ?thesis unfolding assms(3) by (cases "b_ready b") simp_all
qed

text \<open>A PTY with master 3 is opened, gets input, is added, and is dispatched.\<close>

theorem bridge_session_routes_witness:
  "\<exists>b w w' r b'. bridge_reach {} answer_cb b [0 \<mapsto> w] \<and> b_ready b = [3] \<and>
     shl_pty_dispatch answer_cb (Inr 6) w = Some (w', r) \<and>
     shl_pty_bridge_dispatch {} answer_cb (Inr 6) None b [0 \<mapsto> w] = Some (b', [0 \<mapsto> w'], ok) \<and> b_ready b' = []"
proof -
  let ?pty = "\<lparr>pty_ref = 1, pty_fd = 3, pty_child = 77, pty_out = pring_zero\<rparr>"
  let ?w = "pty_world_of ?pty [Inr [97]]" and ?b = "\<lparr>b_interest = [3 \<mapsto> 0], b_ready = [3]\<rparr>"
  have "bridge_reach {} answer_cb \<lparr>b_interest = (\<lambda>_. None), b_ready = []\<rparr> Map.empty"
    by (rule reach_new [of "Inr 7" 7]) (simp add: shl_pty_bridge_new_def)
  then have "bridge_reach {} answer_cb \<lparr>b_interest = (\<lambda>_. None), b_ready = []\<rparr> [0 \<mapsto> ?w]"
    by (rule reach_open) simp_all
  then have reach: "bridge_reach {} answer_cb ?b [0 \<mapsto> ?w]"
    by (rule reach_add [where ptr = 0 and w = ?w and pty = ?pty])
      (simp_all add: pty_world_of_def shl_pty_bridge_add_def epoll_ctl_add_def shl_pty_get_fd_def)
  from bridge_session_routes [OF answer_cb_well_behaved answer_cb_closing refl reach, of "Inr 6"] reach
  show ?thesis by (fastforce split: if_splits)
qed

text \<open>
  The condition is needed. Where a child holds the master, freeing a PTY that was not removed from the bridge leaves its entry in
  the epoll set, and the next event is dispatched to the object that is gone.
\<close>

lemma bridge_dangling:
  "\<exists>b. bridge_reach {3} answer_cb b Map.empty \<and> shl_pty_bridge_dispatch {3} answer_cb resp None b Map.empty = None"
proof -
  let ?pty = "\<lparr>pty_ref = 1, pty_fd = 3, pty_child = 77, pty_out = pring_zero\<rparr>"
  let ?w = "pty_world_of ?pty []" and ?b = "\<lparr>b_interest = [3 \<mapsto> 0], b_ready = [3]\<rparr>"
  let ?c = "(CUnref, \<lparr>a_alloc = \<lparr>alloc_fails = (\<lambda>_. False), junk = (\<lambda>_. 0)\<rparr>, a_writev = Inr 0, a_ioctl = ok\<rparr>)"
  have "bridge_reach {3} answer_cb \<lparr>b_interest = (\<lambda>_. None), b_ready = []\<rparr> Map.empty"
    by (rule reach_new [of "Inr 7" 7]) (simp add: shl_pty_bridge_new_def)
  then have "bridge_reach {3} answer_cb \<lparr>b_interest = (\<lambda>_. None), b_ready = []\<rparr> [0 \<mapsto> ?w]"
    by (rule reach_open) simp_all
  then have "bridge_reach {3} answer_cb ?b [0 \<mapsto> ?w]"
    by (rule reach_add [where ptr = 0 and w = ?w and pty = ?pty])
      (simp_all add: pty_world_of_def shl_pty_bridge_add_def epoll_ctl_add_def shl_pty_get_fd_def)
  moreover have "pty_exec answer_cb ?c ?w = Some (?w\<lparr>w_closed := [3], w_obj := None\<rparr>, ok)"
    by (simp add: pty_exec_def pty_world_of_def shl_pty_unref_def shl_pty_close_def)
  ultimately have "bridge_reach {3} answer_cb (fold (epoll_close {3}) (drop (length (w_closed ?w)) [3]) ?b) (Map.empty(0 := None))"
    using reach_call [of "{3}" answer_cb ?b "[0 \<mapsto> ?w]" 0 ?w ?c] by (simp add: call_fits_def)
  then have "bridge_reach {3} answer_cb ?b Map.empty" by (simp add: pty_world_of_def epoll_close_def)
  moreover have "shl_pty_bridge_dispatch {3} answer_cb resp None ?b Map.empty = None"
    by (simp add: shl_pty_bridge_dispatch_def)
  ultimately show ?thesis by blast
qed

end
