(* ===== verification/Shl_Log.thy ===== *)
theory Shl_Log
  imports Shl_Prelude
begin

text \<open>
  The loggers (\<^verbatim>\<open>src/shl_log.c\<close>, \<^verbatim>\<open>src/shl_log.h\<close>, \<^verbatim>\<open>src/shl_llog.h\<close>). The state is the start time, the
  severity limit, what was written to \<^verbatim>\<open>stderr\<close> and \<^verbatim>\<open>errno\<close>. A message (the format and its arguments) is
  the function that renders it for the \<^verbatim>\<open>errno\<close> at the time of printing, as \<^verbatim>\<open>%m\<close> reads it. The calls
  into the C library may leave any value (the argument \<open>clobber\<close>) in \<^verbatim>\<open>errno\<close>. The locks are empty
  functions, as in the code.
\<close>

type_synonym log_msg = "int \<Rightarrow> string"

record log_state =
  lg_ftime :: "int \<times> int"
  log_max_sev :: u32
  lg_out :: string
  lg_errno :: int

definition LOG_FATAL :: u32 where "LOG_FATAL = 0"
definition LOG_ALERT :: u32 where "LOG_ALERT = 1"
definition LOG_CRITICAL :: u32 where "LOG_CRITICAL = 2"
definition LOG_ERROR :: u32 where "LOG_ERROR = 3"
definition LOG_WARNING :: u32 where "LOG_WARNING = 4"
definition LOG_NOTICE :: u32 where "LOG_NOTICE = 5"
definition LOG_INFO :: u32 where "LOG_INFO = 6"
definition LOG_DEBUG :: u32 where "LOG_DEBUG = 7"
definition LOG_SEV_NUM :: u32 where "LOG_SEV_NUM = 8"

lemmas severities =
  LOG_FATAL_def LOG_ALERT_def LOG_CRITICAL_def LOG_ERROR_def LOG_WARNING_def LOG_NOTICE_def LOG_INFO_def
  LOG_DEBUG_def LOG_SEV_NUM_def

text \<open>The initial values of the static variables.\<close>

definition log_initial :: log_state where
  "log_initial = \<lparr>lg_ftime = (0, 0), log_max_sev = LOG_NOTICE, lg_out = [], lg_errno = 0\<rparr>"

subsection \<open>Printing numbers\<close>

definition digit :: "nat \<Rightarrow> char" where
  "digit n = char_of (48 + n)"

fun dec_nat :: "nat \<Rightarrow> string" where
  "dec_nat n = (if n < 10 then [digit n] else dec_nat (n div 10) @ [digit (n mod 10)])"

declare dec_nat.simps [simp del]

text \<open>The conversion \<^verbatim>\<open>%.<p>lld\<close>: at least \<open>p\<close> digits, behind the sign; \<^verbatim>\<open>%d\<close> is the case of one digit.\<close>

definition dec_prec :: "nat \<Rightarrow> int \<Rightarrow> string" where
  "dec_prec p i =
     (let ds = dec_nat (nat \<bar>i\<bar>)
      in (if i < 0 then ''-'' else []) @ replicate (p - length ds) (digit 0) @ ds)"

subsection \<open>The logger\<close>

definition log__time :: "int \<times> int \<Rightarrow> log_state \<Rightarrow> log_state \<times> int \<times> int" where
  "log__time now st =
     (if fst (lg_ftime st) = 0 \<and> snd (lg_ftime st) = 0 then (st\<lparr>lg_ftime := now\<rparr>, 0, 0)
      else
        let sec = fst now - fst (lg_ftime st); usec = snd now - snd (lg_ftime st)
        in if usec < 0
           then let sec = sec - 1; sec = (if sec < 0 then 0 else sec) in (st, sec, 1000000 + usec)
           else (st, sec, usec))"

definition log__sev2str :: "string list" where
  "log__sev2str = [''FATAL'', ''ALERT'', ''CRITICAL'', ''ERROR'', ''WARNING'', ''NOTICE'', ''INFO'', ''DEBUG'']"

definition fprintf :: "int \<Rightarrow> string \<Rightarrow> log_state \<Rightarrow> log_state" where
  "fprintf clobber s st = st\<lparr>lg_out := lg_out st @ s, lg_errno := clobber\<rparr>"

definition log__submit ::
  "int \<Rightarrow> int \<times> int \<Rightarrow> string option \<Rightarrow> int \<Rightarrow> string option \<Rightarrow> string option \<Rightarrow> u32 \<Rightarrow> log_msg \<Rightarrow> log_state \<Rightarrow> log_state"
where
  "log__submit clobber now file line func subs sev format st =
     (let saved_errno = lg_errno st
      in case log__time now st of
           (st, sec, usec) \<Rightarrow>
             let st = st\<lparr>lg_errno := clobber\<rparr>
             in if sev < LOG_SEV_NUM \<and> sev > log_max_sev st then st
                else
                  let prefix = (if sev < LOG_SEV_NUM then Some (log__sev2str ! unat sev) else None);
                      stamp = ''['' @ dec_prec 4 sec @ ''.'' @ dec_prec 6 usec @ ''] '';
                      st =
                        (case prefix of
                           Some p \<Rightarrow>
                             (case subs of
                                Some s \<Rightarrow> fprintf clobber (stamp @ p @ '': '' @ s @ '': '') st
                              | None \<Rightarrow> fprintf clobber (stamp @ p @ '': '') st)
                         | None \<Rightarrow>
                             (case subs of
                                Some s \<Rightarrow> fprintf clobber (stamp @ s @ '': '') st
                              | None \<Rightarrow> fprintf clobber stamp st));
                      st = st\<lparr>lg_errno := saved_errno\<rparr>;
                      st = fprintf clobber (format (lg_errno st)) st
                  in if sev = LOG_DEBUG then
                       let func = (case func of None \<Rightarrow> ''<unknown>'' | Some f \<Rightarrow> f);
                           file = (case file of None \<Rightarrow> ''<unknown>'' | Some f \<Rightarrow> f);
                           line = (if line < 0 then 0 else line)
                       in fprintf clobber ('' ('' @ func @ ''() in '' @ file @ '':'' @ dec_prec 1 line @ '')'' @ [CHR 0x0A]) st
                     else fprintf clobber [CHR 0x0A] st)"

definition log_lock :: "log_state \<Rightarrow> log_state" where "log_lock st = st"

definition log_unlock :: "log_state \<Rightarrow> log_state" where "log_unlock st = st"

definition log_submit ::
  "int \<Rightarrow> int \<times> int \<Rightarrow> string option \<Rightarrow> int \<Rightarrow> string option \<Rightarrow> string option \<Rightarrow> u32 \<Rightarrow> log_msg \<Rightarrow> log_state \<Rightarrow> log_state"
where
  "log_submit clobber now file line func subs sev format st =
     (let saved_errno = lg_errno st;
          st = log_lock st;
          st = st\<lparr>lg_errno := saved_errno\<rparr>;
          st = log__submit clobber now file line func subs sev format st;
          st = log_unlock st
      in st\<lparr>lg_errno := saved_errno\<rparr>)"

definition log_format ::
  "int \<Rightarrow> int \<times> int \<Rightarrow> string option \<Rightarrow> int \<Rightarrow> string option \<Rightarrow> string option \<Rightarrow> u32 \<Rightarrow> log_msg \<Rightarrow> log_state \<Rightarrow> log_state"
where
  "log_format clobber now file line func subs sev format st =
     (let saved_errno = lg_errno st;
          st = log_lock st;
          st = st\<lparr>lg_errno := saved_errno\<rparr>;
          st = log__submit clobber now file line func subs sev format st;
          st = log_unlock st
      in st\<lparr>lg_errno := saved_errno\<rparr>)"

lemmas log_locks [simp] = log_lock_def log_unlock_def

definition log_llog ::
  "int \<Rightarrow> int \<times> int \<Rightarrow> nat \<Rightarrow> string option \<Rightarrow> int \<Rightarrow> string option \<Rightarrow> string option \<Rightarrow> u32 \<Rightarrow> log_msg \<Rightarrow> log_state \<Rightarrow> log_state"
where
  "log_llog clobber now data file line func subs sev format st = log_submit clobber now file line func subs sev format st"

definition log_dummyf :: "u32 \<Rightarrow> log_msg \<Rightarrow> log_state \<Rightarrow> log_state" where
  "log_dummyf sev format st = st"

subsection \<open>The logging macros\<close>

text \<open>
  A place where a macro is used: the file, line, function and subsystem it picks up, the clock and
  the library's effect on \<^verbatim>\<open>errno\<close> there, and the table of error texts.
\<close>

record log_site =
  ls_file :: string
  ls_line :: int
  ls_func :: string
  ls_subs :: "string option"
  ls_now :: "int \<times> int"
  ls_clobber :: int
  ls_strerror :: "int \<Rightarrow> string"

definition log_printf :: "log_site \<Rightarrow> u32 \<Rightarrow> log_msg \<Rightarrow> log_state \<Rightarrow> log_state" where
  "log_printf site sev format st =
     log_format (ls_clobber site) (ls_now site) (Some (ls_file site)) (ls_line site) (Some (ls_func site)) (ls_subs site)
       sev format st"

definition log_debug :: "bool \<Rightarrow> log_site \<Rightarrow> log_msg \<Rightarrow> log_state \<Rightarrow> log_state" where
  "log_debug enable_debug site format st =
     (if enable_debug then log_printf site LOG_DEBUG format st else log_dummyf LOG_DEBUG format st)"

definition log_info :: "log_site \<Rightarrow> log_msg \<Rightarrow> log_state \<Rightarrow> log_state" where
  "log_info site format st = log_printf site LOG_INFO format st"

definition log_notice :: "log_site \<Rightarrow> log_msg \<Rightarrow> log_state \<Rightarrow> log_state" where
  "log_notice site format st = log_printf site LOG_NOTICE format st"

definition log_warning :: "log_site \<Rightarrow> log_msg \<Rightarrow> log_state \<Rightarrow> log_state" where
  "log_warning site format st = log_printf site LOG_WARNING format st"

definition log_error :: "log_site \<Rightarrow> log_msg \<Rightarrow> log_state \<Rightarrow> log_state" where
  "log_error site format st = log_printf site LOG_ERROR format st"

definition log_critical :: "log_site \<Rightarrow> log_msg \<Rightarrow> log_state \<Rightarrow> log_state" where
  "log_critical site format st = log_printf site LOG_CRITICAL format st"

definition log_alert :: "log_site \<Rightarrow> log_msg \<Rightarrow> log_state \<Rightarrow> log_state" where
  "log_alert site format st = log_printf site LOG_ALERT format st"

definition log_fatal :: "log_site \<Rightarrow> log_msg \<Rightarrow> log_state \<Rightarrow> log_state" where
  "log_fatal site format st = log_printf site LOG_FATAL format st"

text \<open>The error numbers of Linux that the macros return.\<close>

definition EINVAL_no :: int where "EINVAL_no = 22"
definition EFAULT_no :: int where "EFAULT_no = 14"
definition ENOMEM_no :: int where "ENOMEM_no = 12"
definition EPIPE_no :: int where "EPIPE_no = 32"

definition log_EINVAL :: "log_site \<Rightarrow> log_state \<Rightarrow> log_state \<times> int" where
  "log_EINVAL site st = (log_error site (\<lambda>_. ''invalid arguments'') st, - EINVAL_no)"

definition log_EFAULT :: "log_site \<Rightarrow> log_state \<Rightarrow> log_state \<times> int" where
  "log_EFAULT site st = (log_error site (\<lambda>_. ''internal operation failed'') st, - EFAULT_no)"

definition log_ENOMEM :: "log_site \<Rightarrow> log_state \<Rightarrow> log_state \<times> int" where
  "log_ENOMEM site st = (log_error site (\<lambda>_. ''out of memory'') st, - ENOMEM_no)"

definition log_EPIPE :: "log_site \<Rightarrow> log_state \<Rightarrow> log_state \<times> int" where
  "log_EPIPE site st = (log_error site (\<lambda>_. ''fd closed unexpectedly'') st, - EPIPE_no)"

text \<open>
  The message of the system-call macros: the number is an argument, the text of \<^verbatim>\<open>%m\<close> belongs to the
  value of \<^verbatim>\<open>errno\<close> when the message is printed.
\<close>

definition syscall_msg :: "log_site \<Rightarrow> int \<Rightarrow> log_msg" where
  "syscall_msg site n = (\<lambda>e. ''syscall failed ('' @ dec_prec 1 n @ ''): '' @ ls_strerror site e)"

text \<open>Negating an \<^verbatim>\<open>int\<close> is undefined for the smallest one.\<close>

definition INT_MIN :: int where "INT_MIN = - (2 ^ 31)"

definition int_neg :: "int \<Rightarrow> int option" where
  "int_neg x = (if INT_MIN < x then Some (- x) else None)"

definition log_ERRNO :: "log_site \<Rightarrow> log_state \<Rightarrow> (log_state \<times> int) option" where
  "log_ERRNO site st =
     (let st = log_error site (syscall_msg site (lg_errno st)) st
      in do { r \<leftarrow> int_neg (lg_errno st); Some (st, r) })"

definition log_ERR :: "log_site \<Rightarrow> int \<Rightarrow> log_state \<Rightarrow> (log_state \<times> int) option" where
  "log_ERR site r st = do {
     e \<leftarrow> int_neg r;
     let st = st\<lparr>lg_errno := e\<rparr>;
     Some (log_error site (syscall_msg site r) st, r) }"

text \<open>The variants that are cast to \<^verbatim>\<open>void\<close>.\<close>

definition log_vEINVAL :: "log_site \<Rightarrow> log_state \<Rightarrow> log_state" where
  "log_vEINVAL site st = fst (log_EINVAL site st)"

definition log_vEFAULT :: "log_site \<Rightarrow> log_state \<Rightarrow> log_state" where
  "log_vEFAULT site st = fst (log_EFAULT site st)"

definition log_vENOMEM :: "log_site \<Rightarrow> log_state \<Rightarrow> log_state" where
  "log_vENOMEM site st = fst (log_ENOMEM site st)"

definition log_vEPIPE :: "log_site \<Rightarrow> log_state \<Rightarrow> log_state" where
  "log_vEPIPE site st = fst (log_EPIPE site st)"

definition log_vERRNO :: "log_site \<Rightarrow> log_state \<Rightarrow> log_state option" where
  "log_vERRNO site st = map_option fst (log_ERRNO site st)"

definition log_vERR :: "log_site \<Rightarrow> int \<Rightarrow> log_state \<Rightarrow> log_state option" where
  "log_vERR site r st = map_option fst (log_ERR site r st)"

text \<open>The subsystem of a source file that does not define one.\<close>

definition LOG_SUBSYSTEM :: "string option" where "LOG_SUBSYSTEM = None"

subsection \<open>The library logger\<close>

text \<open>The severities of \<^verbatim>\<open>shl_llog.h\<close> are the same numbers as those of \<^verbatim>\<open>shl_log.h\<close>.\<close>

definition LLOG_FATAL :: u32 where "LLOG_FATAL = 0"
definition LLOG_ALERT :: u32 where "LLOG_ALERT = 1"
definition LLOG_CRITICAL :: u32 where "LLOG_CRITICAL = 2"
definition LLOG_ERROR :: u32 where "LLOG_ERROR = 3"
definition LLOG_WARNING :: u32 where "LLOG_WARNING = 4"
definition LLOG_NOTICE :: u32 where "LLOG_NOTICE = 5"
definition LLOG_INFO :: u32 where "LLOG_INFO = 6"
definition LLOG_DEBUG :: u32 where "LLOG_DEBUG = 7"
definition LLOG_SEV_NUM :: u32 where "LLOG_SEV_NUM = 8"

lemma llog_severities [simp]:
  "LLOG_FATAL = LOG_FATAL" "LLOG_ALERT = LOG_ALERT" "LLOG_CRITICAL = LOG_CRITICAL" "LLOG_ERROR = LOG_ERROR"
  "LLOG_WARNING = LOG_WARNING" "LLOG_NOTICE = LOG_NOTICE" "LLOG_INFO = LOG_INFO" "LLOG_DEBUG = LOG_DEBUG"
  "LLOG_SEV_NUM = LOG_SEV_NUM"
  by (simp_all add: severities LLOG_FATAL_def LLOG_ALERT_def LLOG_CRITICAL_def LLOG_ERROR_def LLOG_WARNING_def LLOG_NOTICE_def LLOG_INFO_def LLOG_DEBUG_def LLOG_SEV_NUM_def)

type_synonym llog_submit_t =
  "nat \<Rightarrow> string option \<Rightarrow> int \<Rightarrow> string option \<Rightarrow> string option \<Rightarrow> u32 \<Rightarrow> log_msg \<Rightarrow> log_state \<Rightarrow> log_state"

definition llog_format ::
  "llog_submit_t option \<Rightarrow> nat \<Rightarrow> string option \<Rightarrow> int \<Rightarrow> string option \<Rightarrow> string option \<Rightarrow> u32 \<Rightarrow> log_msg \<Rightarrow> log_state \<Rightarrow> log_state"
where
  "llog_format llog data file line func subs sev format st =
     (let saved_errno = lg_errno st
      in case llog of
           None \<Rightarrow> st
         | Some f \<Rightarrow> f data file line func subs sev format (st\<lparr>lg_errno := saved_errno\<rparr>))"

text \<open>An object with the two fields the macros use.\<close>

record llog_obj =
  llog :: "llog_submit_t option"
  llog_data :: nat

definition llog_dprintf :: "log_site \<Rightarrow> llog_submit_t option \<Rightarrow> nat \<Rightarrow> u32 \<Rightarrow> log_msg \<Rightarrow> log_state \<Rightarrow> log_state" where
  "llog_dprintf site f data sev format st =
     llog_format f data (Some (ls_file site)) (ls_line site) (Some (ls_func site)) (ls_subs site) sev format st"

definition llog_printf :: "log_site \<Rightarrow> llog_obj \<Rightarrow> u32 \<Rightarrow> log_msg \<Rightarrow> log_state \<Rightarrow> log_state" where
  "llog_printf site obj sev format st =
     llog_format (llog obj) (llog_data obj) (Some (ls_file site)) (ls_line site) (Some (ls_func site)) (ls_subs site)
       sev format st"

definition llog_dummyf :: "llog_submit_t option \<Rightarrow> nat \<Rightarrow> u32 \<Rightarrow> log_msg \<Rightarrow> log_state \<Rightarrow> log_state" where
  "llog_dummyf f data sev format st = st"

definition llog_ddebug :: "bool \<Rightarrow> log_site \<Rightarrow> llog_submit_t option \<Rightarrow> nat \<Rightarrow> log_msg \<Rightarrow> log_state \<Rightarrow> log_state" where
  "llog_ddebug enable_debug site f data format st =
     (if enable_debug then llog_dprintf site f data LLOG_DEBUG format st else llog_dummyf f data LLOG_DEBUG format st)"

definition llog_debug :: "bool \<Rightarrow> log_site \<Rightarrow> llog_obj \<Rightarrow> log_msg \<Rightarrow> log_state \<Rightarrow> log_state" where
  "llog_debug enable_debug site obj format st = llog_ddebug enable_debug site (llog obj) (llog_data obj) format st"

definition llog_info :: "log_site \<Rightarrow> llog_obj \<Rightarrow> log_msg \<Rightarrow> log_state \<Rightarrow> log_state" where
  "llog_info site obj format st = llog_printf site obj LLOG_INFO format st"

definition llog_dinfo :: "log_site \<Rightarrow> llog_submit_t option \<Rightarrow> nat \<Rightarrow> log_msg \<Rightarrow> log_state \<Rightarrow> log_state" where
  "llog_dinfo site f data format st = llog_dprintf site f data LLOG_INFO format st"

definition llog_notice :: "log_site \<Rightarrow> llog_obj \<Rightarrow> log_msg \<Rightarrow> log_state \<Rightarrow> log_state" where
  "llog_notice site obj format st = llog_printf site obj LLOG_NOTICE format st"

definition llog_dnotice :: "log_site \<Rightarrow> llog_submit_t option \<Rightarrow> nat \<Rightarrow> log_msg \<Rightarrow> log_state \<Rightarrow> log_state" where
  "llog_dnotice site f data format st = llog_dprintf site f data LLOG_NOTICE format st"

definition llog_warning :: "log_site \<Rightarrow> llog_obj \<Rightarrow> log_msg \<Rightarrow> log_state \<Rightarrow> log_state" where
  "llog_warning site obj format st = llog_printf site obj LLOG_WARNING format st"

definition llog_dwarning :: "log_site \<Rightarrow> llog_submit_t option \<Rightarrow> nat \<Rightarrow> log_msg \<Rightarrow> log_state \<Rightarrow> log_state" where
  "llog_dwarning site f data format st = llog_dprintf site f data LLOG_WARNING format st"

definition llog_error :: "log_site \<Rightarrow> llog_obj \<Rightarrow> log_msg \<Rightarrow> log_state \<Rightarrow> log_state" where
  "llog_error site obj format st = llog_printf site obj LLOG_ERROR format st"

definition llog_derror :: "log_site \<Rightarrow> llog_submit_t option \<Rightarrow> nat \<Rightarrow> log_msg \<Rightarrow> log_state \<Rightarrow> log_state" where
  "llog_derror site f data format st = llog_dprintf site f data LLOG_ERROR format st"

definition llog_critical :: "log_site \<Rightarrow> llog_obj \<Rightarrow> log_msg \<Rightarrow> log_state \<Rightarrow> log_state" where
  "llog_critical site obj format st = llog_printf site obj LLOG_CRITICAL format st"

definition llog_dcritical :: "log_site \<Rightarrow> llog_submit_t option \<Rightarrow> nat \<Rightarrow> log_msg \<Rightarrow> log_state \<Rightarrow> log_state" where
  "llog_dcritical site f data format st = llog_dprintf site f data LLOG_CRITICAL format st"

definition llog_alert :: "log_site \<Rightarrow> llog_obj \<Rightarrow> log_msg \<Rightarrow> log_state \<Rightarrow> log_state" where
  "llog_alert site obj format st = llog_printf site obj LLOG_ALERT format st"

definition llog_dalert :: "log_site \<Rightarrow> llog_submit_t option \<Rightarrow> nat \<Rightarrow> log_msg \<Rightarrow> log_state \<Rightarrow> log_state" where
  "llog_dalert site f data format st = llog_dprintf site f data LLOG_ALERT format st"

definition llog_fatal :: "log_site \<Rightarrow> llog_obj \<Rightarrow> log_msg \<Rightarrow> log_state \<Rightarrow> log_state" where
  "llog_fatal site obj format st = llog_printf site obj LLOG_FATAL format st"

definition llog_dfatal :: "log_site \<Rightarrow> llog_submit_t option \<Rightarrow> nat \<Rightarrow> log_msg \<Rightarrow> log_state \<Rightarrow> log_state" where
  "llog_dfatal site f data format st = llog_dprintf site f data LLOG_FATAL format st"

definition llog_dEINVAL :: "log_site \<Rightarrow> llog_submit_t option \<Rightarrow> nat \<Rightarrow> log_state \<Rightarrow> log_state \<times> int" where
  "llog_dEINVAL site f data st = (llog_derror site f data (\<lambda>_. ''invalid arguments'') st, - EINVAL_no)"

definition llog_EINVAL :: "log_site \<Rightarrow> llog_obj \<Rightarrow> log_state \<Rightarrow> log_state \<times> int" where
  "llog_EINVAL site obj st = llog_dEINVAL site (llog obj) (llog_data obj) st"

definition llog_dEFAULT :: "log_site \<Rightarrow> llog_submit_t option \<Rightarrow> nat \<Rightarrow> log_state \<Rightarrow> log_state \<times> int" where
  "llog_dEFAULT site f data st = (llog_derror site f data (\<lambda>_. ''internal operation failed'') st, - EFAULT_no)"

definition llog_EFAULT :: "log_site \<Rightarrow> llog_obj \<Rightarrow> log_state \<Rightarrow> log_state \<times> int" where
  "llog_EFAULT site obj st = llog_dEFAULT site (llog obj) (llog_data obj) st"

definition llog_dENOMEM :: "log_site \<Rightarrow> llog_submit_t option \<Rightarrow> nat \<Rightarrow> log_state \<Rightarrow> log_state \<times> int" where
  "llog_dENOMEM site f data st = (llog_derror site f data (\<lambda>_. ''out of memory'') st, - ENOMEM_no)"

definition llog_ENOMEM :: "log_site \<Rightarrow> llog_obj \<Rightarrow> log_state \<Rightarrow> log_state \<times> int" where
  "llog_ENOMEM site obj st = llog_dENOMEM site (llog obj) (llog_data obj) st"

definition llog_dEPIPE :: "log_site \<Rightarrow> llog_submit_t option \<Rightarrow> nat \<Rightarrow> log_state \<Rightarrow> log_state \<times> int" where
  "llog_dEPIPE site f data st = (llog_derror site f data (\<lambda>_. ''fd closed unexpectedly'') st, - EPIPE_no)"

definition llog_EPIPE :: "log_site \<Rightarrow> llog_obj \<Rightarrow> log_state \<Rightarrow> log_state \<times> int" where
  "llog_EPIPE site obj st = llog_dEPIPE site (llog obj) (llog_data obj) st"

definition llog_dERRNO :: "log_site \<Rightarrow> llog_submit_t option \<Rightarrow> nat \<Rightarrow> log_state \<Rightarrow> (log_state \<times> int) option" where
  "llog_dERRNO site f data st =
     (let st = llog_derror site f data (syscall_msg site (lg_errno st)) st
      in do { r \<leftarrow> int_neg (lg_errno st); Some (st, r) })"

definition llog_ERRNO :: "log_site \<Rightarrow> llog_obj \<Rightarrow> log_state \<Rightarrow> (log_state \<times> int) option" where
  "llog_ERRNO site obj st = llog_dERRNO site (llog obj) (llog_data obj) st"

definition llog_dERR :: "log_site \<Rightarrow> llog_submit_t option \<Rightarrow> nat \<Rightarrow> int \<Rightarrow> log_state \<Rightarrow> (log_state \<times> int) option" where
  "llog_dERR site f data r st = do {
     e \<leftarrow> int_neg r;
     let st = st\<lparr>lg_errno := e\<rparr>;
     Some (llog_derror site f data (syscall_msg site r) st, r) }"

definition llog_ERR :: "log_site \<Rightarrow> llog_obj \<Rightarrow> int \<Rightarrow> log_state \<Rightarrow> (log_state \<times> int) option" where
  "llog_ERR site obj r st = llog_dERR site (llog obj) (llog_data obj) r st"

text \<open>The variants that are cast to \<^verbatim>\<open>void\<close>.\<close>

definition llog_vEINVAL :: "log_site \<Rightarrow> llog_obj \<Rightarrow> log_state \<Rightarrow> log_state" where
  "llog_vEINVAL site obj st = fst (llog_EINVAL site obj st)"

definition llog_vdEINVAL :: "log_site \<Rightarrow> llog_submit_t option \<Rightarrow> nat \<Rightarrow> log_state \<Rightarrow> log_state" where
  "llog_vdEINVAL site f data st = fst (llog_dEINVAL site f data st)"

definition llog_vEFAULT :: "log_site \<Rightarrow> llog_obj \<Rightarrow> log_state \<Rightarrow> log_state" where
  "llog_vEFAULT site obj st = fst (llog_EFAULT site obj st)"

definition llog_vdEFAULT :: "log_site \<Rightarrow> llog_submit_t option \<Rightarrow> nat \<Rightarrow> log_state \<Rightarrow> log_state" where
  "llog_vdEFAULT site f data st = fst (llog_dEFAULT site f data st)"

definition llog_vENOMEM :: "log_site \<Rightarrow> llog_obj \<Rightarrow> log_state \<Rightarrow> log_state" where
  "llog_vENOMEM site obj st = fst (llog_ENOMEM site obj st)"

definition llog_vdENOMEM :: "log_site \<Rightarrow> llog_submit_t option \<Rightarrow> nat \<Rightarrow> log_state \<Rightarrow> log_state" where
  "llog_vdENOMEM site f data st = fst (llog_dENOMEM site f data st)"

definition llog_vEPIPE :: "log_site \<Rightarrow> llog_obj \<Rightarrow> log_state \<Rightarrow> log_state" where
  "llog_vEPIPE site obj st = fst (llog_EPIPE site obj st)"

definition llog_vdEPIPE :: "log_site \<Rightarrow> llog_submit_t option \<Rightarrow> nat \<Rightarrow> log_state \<Rightarrow> log_state" where
  "llog_vdEPIPE site f data st = fst (llog_dEPIPE site f data st)"

definition llog_vERRNO :: "log_site \<Rightarrow> llog_obj \<Rightarrow> log_state \<Rightarrow> log_state option" where
  "llog_vERRNO site obj st = map_option fst (llog_ERRNO site obj st)"

definition llog_vdERRNO :: "log_site \<Rightarrow> llog_submit_t option \<Rightarrow> nat \<Rightarrow> log_state \<Rightarrow> log_state option" where
  "llog_vdERRNO site f data st = map_option fst (llog_dERRNO site f data st)"

definition llog_vERR :: "log_site \<Rightarrow> llog_obj \<Rightarrow> int \<Rightarrow> log_state \<Rightarrow> log_state option" where
  "llog_vERR site obj r st = map_option fst (llog_ERR site obj r st)"

definition llog_vdERR :: "log_site \<Rightarrow> llog_submit_t option \<Rightarrow> nat \<Rightarrow> int \<Rightarrow> log_state \<Rightarrow> log_state option" where
  "llog_vdERR site f data r st = map_option fst (llog_dERR site f data r st)"

subsection \<open>Numbers\<close>

definition dec_value :: "string \<Rightarrow> nat" where
  "dec_value s = foldl (\<lambda>a c. 10 * a + (of_char c - 48)) 0 s"

lemma dec_value_snoc: "dec_value (s @ [c]) = 10 * dec_value s + (of_char c - 48)"
  by (simp add: dec_value_def)

lemma of_char_digit: "n < 10 \<Longrightarrow> of_char (digit n) = 48 + n"
  by (simp add: digit_def)

lemma dec_value_dec_nat: "dec_value (dec_nat n) = n"
proof (induction n rule: dec_nat.induct)
  case (1 n)
  show ?case
  proof (cases "n < 10")
    case True
    then show ?thesis by (simp add: dec_nat.simps [of n] dec_value_def of_char_digit)
  next
    case False
    then show ?thesis
      using 1 by (simp add: dec_nat.simps [of n] dec_value_snoc of_char_digit)
  qed
qed

lemma dec_value_zeros: "dec_value (replicate k (digit 0) @ s) = dec_value s"
  by (induction k) (simp_all add: dec_value_def of_char_digit)

lemma length_dec_nat: "n < 10 ^ k \<Longrightarrow> 0 < k \<Longrightarrow> length (dec_nat n) \<le> k"
proof (induction k arbitrary: n)
  case (Suc k)
  show ?case
  proof (cases "n < 10")
    case True
    then show ?thesis by (simp add: dec_nat.simps [of n])
  next
    case False
    then have "0 < k" using Suc.prems by (cases k) auto
    moreover have "n div 10 < 10 ^ k" using Suc.prems by (simp add: div_less_iff_less_mult mult.commute)
    ultimately show ?thesis using Suc.IH [of "n div 10"] False by (simp add: dec_nat.simps [of n])
  qed
qed simp

lemma newline_digit: "n < 10 \<Longrightarrow> digit n \<noteq> CHR 0x0A"
  using of_char_digit [of n] by auto

lemma newline_dec_nat: "CHR 0x0A \<notin> set (dec_nat n)"
proof (induction n rule: dec_nat.induct)
  case (1 n)
  then show ?case
    using newline_digit [of n] newline_digit [of "n mod 10"] by (cases "n < 10") (auto simp: dec_nat.simps [of n])
qed

lemma newline_dec_prec: "CHR 0x0A \<notin> set (dec_prec p i)"
  using newline_dec_nat [of "nat \<bar>i\<bar>"] newline_digit [of 0] by (auto simp: dec_prec_def Let_def)

lemma dec_prec_nonneg:
  assumes "0 \<le> i"
  shows "dec_value (dec_prec p i) = nat i" "i < 10 ^ p \<Longrightarrow> 0 < p \<Longrightarrow> length (dec_prec p i) = p"
proof -
  show "dec_value (dec_prec p i) = nat i"
    using assms by (simp add: dec_prec_def Let_def dec_value_zeros dec_value_dec_nat)
  assume "i < 10 ^ p" "0 < p"
  then have "length (dec_nat (nat i)) \<le> p" using assms by (intro length_dec_nat) (simp_all add: nat_less_iff)
  then show "length (dec_prec p i) = p" using assms by (simp add: dec_prec_def Let_def)
qed

subsection \<open>Properties\<close>

text \<open>
  C39. A message is one line or nothing. It is discarded exactly when its severity is known and above the limit;
  otherwise the output grows by a single line that contains the message as rendered for the
  \<^verbatim>\<open>errno\<close> of the caller, followed by the location only for debug messages. In both cases
  \<^verbatim>\<open>errno\<close> is that of the caller afterwards, whatever the C library did to it.
\<close>

theorem log_submit_line:
  assumes "CHR 0x0A \<notin> set (format (lg_errno st))" "CHR 0x0A \<notin> set (case_option [] id subs)"
    and "CHR 0x0A \<notin> set (case_option [] id file)" "CHR 0x0A \<notin> set (case_option [] id func)"
  shows "lg_errno (log_submit clobber now file line func subs sev format st) = lg_errno st \<and>
    log_max_sev (log_submit clobber now file line func subs sev format st) = log_max_sev st \<and>
    (if sev < LOG_SEV_NUM \<and> log_max_sev st < sev
     then lg_out (log_submit clobber now file line func subs sev format st) = lg_out st
     else \<exists>stamp loc. lg_out (log_submit clobber now file line func subs sev format st) =
            lg_out st @ (stamp @ format (lg_errno st) @ loc) @ [CHR 0x0A] \<and>
          CHR 0x0A \<notin> set (stamp @ format (lg_errno st) @ loc) \<and> (loc = [] \<longleftrightarrow> sev \<noteq> LOG_DEBUG))"
proof -
  obtain st1 sec usec where t: "log__time now st = (st1, sec, usec)" by (metis prod_cases3)
  have st1: "lg_out st1 = lg_out st" "log_max_sev st1 = log_max_sev st" "lg_errno st1 = lg_errno st"
    using t by (auto simp: log__time_def Let_def split: if_splits)
  have p: "CHR 0x0A \<notin> set (log__sev2str ! unat sev)" if "sev < LOG_SEV_NUM"
  proof -
    have "unat sev < 8" using that by (simp add: LOG_SEV_NUM_def word_less_nat_alt)
    then have "log__sev2str ! unat sev \<in> set log__sev2str" by (intro nth_mem) (simp add: log__sev2str_def)
    then show ?thesis by (auto simp: log__sev2str_def)
  qed
  define stamp where "stamp = ''['' @ dec_prec 4 sec @ ''.'' @ dec_prec 6 usec @ ''] '' @
      (if sev < LOG_SEV_NUM then log__sev2str ! unat sev @ '': '' else []) @ (case subs of None \<Rightarrow> [] | Some s \<Rightarrow> s @ '': '')"
  define loc where "loc = (if sev = LOG_DEBUG then '' ('' @ (case func of None \<Rightarrow> ''<unknown>'' | Some f \<Rightarrow> f) @ ''() in '' @
      (case file of None \<Rightarrow> ''<unknown>'' | Some f \<Rightarrow> f) @ '':'' @ dec_prec 1 (if line < 0 then 0 else line) @ '')'' else [])"
  have "CHR 0x0A \<notin> set stamp"
    using p assms(2) newline_dec_prec by (cases subs) (auto simp: stamp_def)
  moreover have "CHR 0x0A \<notin> set loc"
    using assms(3,4) newline_dec_prec by (cases "file"; cases func) (auto simp: loc_def)
  ultimately have clean: "CHR 0x0A \<notin> set (stamp @ format (lg_errno st) @ loc)"
    using assms(1) by simp
  have out: "lg_out (log_submit clobber now file line func subs sev format st) =
      (if sev < LOG_SEV_NUM \<and> log_max_sev st < sev then lg_out st
       else lg_out st @ (stamp @ format (lg_errno st) @ loc) @ [CHR 0x0A])"
    by (cases subs) (simp_all add: log_submit_def log__submit_def t st1 fprintf_def Let_def stamp_def loc_def)
  have keep: "lg_errno (log_submit clobber now file line func subs sev format st) = lg_errno st"
    "log_max_sev (log_submit clobber now file line func subs sev format st) = log_max_sev st"
    by (simp_all add: log_submit_def log__submit_def t st1 fprintf_def Let_def split: option.split)
  have loc: "loc = [] \<longleftrightarrow> sev \<noteq> LOG_DEBUG" by (simp add: loc_def)
  show ?thesis
  proof (cases "sev < LOG_SEV_NUM \<and> log_max_sev st < sev")
    case True
    then show ?thesis by (simp add: keep out)
  next
    case False
    then show ?thesis unfolding out keep if_not_P [OF False] using clean loc by blast
  qed
qed

theorem log_submit_line_witness:
  "\<exists>stamp loc. lg_out (log_submit 5 (7, 3) (Some ''a.c'') 12 None (Some ''log'') LOG_ERROR (\<lambda>e. ''hello'') log_initial) =
     (stamp @ ''hello'' @ loc) @ [CHR 0x0A] \<and> CHR 0x0A \<notin> set (stamp @ ''hello'' @ loc) \<and> loc = []"
  using log_submit_line [of "\<lambda>_. ''hello''" log_initial "Some ''log''" "Some ''a.c''" None 5 "(7, 3)" 12 LOG_ERROR]
  by (auto simp: log_initial_def severities)

text \<open>
  Time stamps: once the start time is set, a clock that does not run backwards gives the elapsed
  time, as seconds and a number of microseconds below a million, and the printed stamp reads back as these
  numbers, the microseconds always with six digits. The first message starts the clock at zero.
\<close>

theorem log_time_elapsed:
  assumes "0 \<le> s0" "0 \<le> u0" "u0 < 1000000" "0 \<le> u" "u < 1000000" "s0 * 1000000 + u0 \<le> s * 1000000 + u"
    and "lg_ftime st = (s0, u0)"
  shows "case log__time (s, u) st of (st', sec, usec) \<Rightarrow>
    0 \<le> sec \<and> 0 \<le> usec \<and> usec < 1000000 \<and>
    (if (s0, u0) = (0, 0) then lg_ftime st' = (s, u) \<and> sec = 0 \<and> usec = 0
     else st' = st \<and> sec * 1000000 + usec = s * 1000000 + u - (s0 * 1000000 + u0)) \<and>
    dec_value (dec_prec 4 sec) = nat sec \<and> dec_value (dec_prec 6 usec) = nat usec \<and> length (dec_prec 6 usec) = 6"
proof -
  obtain st' sec usec where t: "log__time (s, u) st = (st', sec, usec)" by (metis prod_cases3)
  have "0 \<le> sec" "0 \<le> usec" "usec < 1000000"
    and "if (s0, u0) = (0, 0) then lg_ftime st' = (s, u) \<and> sec = 0 \<and> usec = 0
     else st' = st \<and> sec * 1000000 + usec = s * 1000000 + u - (s0 * 1000000 + u0)"
    using t assms by (auto simp: log__time_def Let_def split: if_splits)
  moreover from this have "dec_value (dec_prec 4 sec) = nat sec" "dec_value (dec_prec 6 usec) = nat usec"
    "length (dec_prec 6 usec) = 6"
    by (simp_all add: dec_prec_nonneg)
  ultimately show ?thesis using t by simp
qed

theorem log_time_elapsed_witness:
  "case log__time (5, 100) (log_initial\<lparr>lg_ftime := (3, 200)\<rparr>) of (st', sec, usec) \<Rightarrow>
     sec * 1000000 + usec = 1999900 \<and> length (dec_prec 6 usec) = 6"
  using log_time_elapsed [of 3 200 100 5 "log_initial\<lparr>lg_ftime := (3, 200)\<rparr>"] by (auto split: prod.splits)

text \<open>
  When the clock was set back, negative differences are not always reverted: the seconds stay negative if
  the microseconds did not decrease.
\<close>

lemma log_time_negative:
  assumes "s < s0" "u0 \<le> u" "lg_ftime st = (s0, u0)" "s0 \<noteq> 0"
  shows "log__time (s, u) st = (st, s - s0, u - u0)" "s - s0 < 0"
  using assms by (simp_all add: log__time_def)

lemma log_format_errno: "lg_errno (log_format clobber now file line func subs sev format st) = lg_errno st"
  by (simp add: log_format_def Let_def)

lemma log_submit_errno: "lg_errno (log_submit clobber now file line func subs sev format st) = lg_errno st"
  by (simp add: log_submit_def Let_def)

lemma log_error_errno: "lg_errno (log_error site format st) = lg_errno st"
  by (simp add: log_error_def log_printf_def log_format_errno)

text \<open>A callback of the library logger that leaves \<^verbatim>\<open>errno\<close> as it finds it, or none.\<close>

definition errno_kept :: "llog_submit_t option \<Rightarrow> bool" where
  "errno_kept f \<longleftrightarrow>
     (case f of
        None \<Rightarrow> True
      | Some g \<Rightarrow> \<forall>data file line func subs sev format st. lg_errno (g data file line func subs sev format st) = lg_errno st)"

lemma llog_derror_errno: "errno_kept f \<Longrightarrow> lg_errno (llog_derror site f data format st) = lg_errno st"
  by (auto simp: llog_derror_def llog_dprintf_def llog_format_def errno_kept_def Let_def split: option.splits)

lemma log_llog_errno: "errno_kept None" "errno_kept (Some (log_llog clobber now))"
  by (simp_all add: errno_kept_def log_llog_def log_submit_errno)

text \<open>
  The library logger itself does not restore \<^verbatim>\<open>errno\<close>: with a callback that changes it, the macro for
  failed system calls returns the changed value.
\<close>

lemma llog_errno_lost:
  "map_option snd (llog_dERRNO site (Some (\<lambda>_ _ _ _ _ _ _ st. st\<lparr>lg_errno := 0\<rparr>)) data st) = Some 0"
  by (simp add: llog_dERRNO_def llog_derror_def llog_dprintf_def llog_format_def int_neg_def INT_MIN_def Let_def)

lemmas error_macros =
  log_EINVAL_def log_EFAULT_def log_ENOMEM_def log_EPIPE_def log_ERRNO_def log_ERR_def
  llog_dEINVAL_def llog_dEFAULT_def llog_dENOMEM_def llog_dEPIPE_def llog_dERRNO_def llog_dERR_def
  int_neg_def EINVAL_no_def EFAULT_no_def ENOMEM_no_def EPIPE_no_def

text \<open>
  C40. The error macros return their error, although they print first. The four for fixed errors give the
  negative error number they are named after and leave \<^verbatim>\<open>errno\<close> as it was. \<^verbatim>\<open>log_ERRNO\<close> and
  \<^verbatim>\<open>llog_dERRNO\<close> give the negative \<^verbatim>\<open>errno\<close> of the caller and leave it as it was. \<^verbatim>\<open>log_ERR\<close> and
  \<^verbatim>\<open>llog_dERR\<close> give the code \<open>r\<close> they are passed and set \<^verbatim>\<open>errno\<close> to \<open>-r\<close>. The library macros do so under the
  condition that their callback is null or leaves \<^verbatim>\<open>errno\<close> alone, as \<^verbatim>\<open>log_llog\<close> does (with any other
  callback the value is lost, \<open>llog_errno_lost\<close>), and the numbers that are negated, \<open>r\<close> and \<^verbatim>\<open>errno\<close>, must
  not be \<^verbatim>\<open>INT_MIN\<close>.
\<close>

theorem log_errors_returned:
  assumes "errno_kept f" "INT_MIN < r" "INT_MIN < lg_errno st"
  shows "map (\<lambda>(st', r). (lg_errno st', r))
      [log_EINVAL site st, log_EFAULT site st, log_ENOMEM site st, log_EPIPE site st,
       llog_dEINVAL site f data st, llog_dEFAULT site f data st, llog_dENOMEM site f data st, llog_dEPIPE site f data st] =
    [(lg_errno st, -22), (lg_errno st, -14), (lg_errno st, -12), (lg_errno st, -32),
     (lg_errno st, -22), (lg_errno st, -14), (lg_errno st, -12), (lg_errno st, -32)] \<and>
    map (map_option (\<lambda>(st', r). (lg_errno st', r)))
      [log_ERRNO site st, log_ERR site r st, llog_dERRNO site f data st, llog_dERR site f data r st] =
    [Some (lg_errno st, - lg_errno st), Some (- r, r), Some (lg_errno st, - lg_errno st), Some (- r, r)]"
  using llog_derror_errno [OF assms(1)] assms(2,3) by (simp add: error_macros log_error_errno Let_def)

definition site0 :: log_site where
  "site0 = \<lparr>ls_file = ''a.c'', ls_line = 4, ls_func = ''main'', ls_subs = None, ls_now = (9, 9), ls_clobber = 11,
     ls_strerror = (\<lambda>e. if e = 2 then ''No such file or directory'' else ''?'')\<rparr>"

theorem log_errors_returned_witness:
  "map_option snd (log_ERRNO site0 (log_initial\<lparr>lg_errno := 2\<rparr>)) = Some (-2) \<and>
   map_option snd (llog_dERRNO site0 (Some (log_llog 11 (9, 9))) 0 (log_initial\<lparr>lg_errno := 2\<rparr>)) = Some (-2) \<and>
   map_option (\<lambda>(st, r). (lg_errno st, r)) (log_ERR site0 (-5) log_initial) = Some (5, -5)"
proof -
  have "INT_MIN < -5" "INT_MIN < 2" "lg_errno log_initial = 0" "INT_MIN < 0" by (simp_all add: INT_MIN_def log_initial_def)
  with log_errors_returned [OF log_llog_errno(2) [of 11 "(9, 9)"], of "-5" "log_initial\<lparr>lg_errno := 2\<rparr>" site0 0]
    log_errors_returned [OF log_llog_errno(1), of "-5" log_initial site0 0]
  show ?thesis by (auto simp: split_beta)
qed

end
