(* ===== verification/Shl_Edbus.thy ===== *)
theory Shl_Edbus
  imports Shl_Prelude
begin

text \<open>
  The integration of a D-Bus connection into epoll (\<^verbatim>\<open>src/shl_edbus.c\<close>). The context keeps one source per watch and
  timeout of libdbus, on a heap, and a list of dead sources that are freed once no event can
  refer to them any more. libdbus is an argument: the record \<open>dbus_lib\<close> holds the functions the code
  calls, over an opaque state, and may call the registered callbacks back. The answers of the system calls of a
  callback are an argument of it (\<open>esys\<close>).
\<close>

record esource =
  s_next :: nat
  s_object :: nat
  s_fd :: int
  s_timeout :: bool
  s_dupped :: bool
  s_dead :: bool

text \<open>
  A timer of the kernel: its setting (seconds and nanoseconds), and whether it has expired since it was set. An
  expired timer is readable until its descriptor is read.
\<close>

record itimerspec =
  it_interval :: "u64 \<times> u64"
  it_value :: "u64 \<times> u64"

record timer =
  t_its :: itimerspec
  t_expired :: bool

text \<open>
  The context: the connection's state \<open>e_dbus\<close>, the head \<open>e_free\<close> of the list of dead sources (0 is null), the epoll
  descriptor \<open>e_efd\<close> while it is open and whether the context owns the connection. \<open>e_heap\<close> holds the sources,
  \<open>e_epoll\<close> is the epoll set, \<open>e_owned\<close> the descriptors the context opened for sources and \<open>e_timers\<close> the timers among them.
\<close>

record 'd edbus =
  e_heap :: "nat \<rightharpoonup> esource"
  e_free :: nat
  e_efd :: "int option"
  e_owns_bus :: bool
  e_epoll :: "int \<rightharpoonup> u32 \<times> nat"
  e_owned :: "int list"
  e_timers :: "int \<rightharpoonup> timer"
  e_dbus :: 'd

record 'd dbus_lib =
  watch_enabled :: "'d \<Rightarrow> nat \<Rightarrow> bool"
  watch_flags :: "'d \<Rightarrow> nat \<Rightarrow> u32"
  watch_fd :: "'d \<Rightarrow> nat \<Rightarrow> int"
  watch_get_data :: "'d \<Rightarrow> nat \<Rightarrow> nat"
  watch_set_data :: "nat \<Rightarrow> nat \<Rightarrow> 'd \<Rightarrow> 'd"
  timeout_enabled :: "'d \<Rightarrow> nat \<Rightarrow> bool"
  timeout_interval :: "'d \<Rightarrow> nat \<Rightarrow> u32"
  timeout_get_data :: "'d \<Rightarrow> nat \<Rightarrow> nat"
  timeout_set_data :: "nat \<Rightarrow> nat \<Rightarrow> 'd \<Rightarrow> 'd"
  watch_handle :: "nat \<Rightarrow> u32 \<Rightarrow> 'd edbus \<Rightarrow> 'd edbus option"
  timeout_handle :: "nat \<Rightarrow> 'd edbus \<Rightarrow> 'd edbus option"

text \<open>
  Allocation gives the address of the new source or nothing; the two attempts to add to the
  epoll set may fail for a reason of their own.
\<close>

record esys =
  y_calloc :: "nat option"
  y_add1 :: "errno option"
  y_add2 :: "errno option"
  y_dup :: "errno + int"
  y_timerfd :: "errno + int"
  y_settime :: "errno option"

definition EPOLLIN :: u32 where "EPOLLIN = 0x001"
definition EPOLLOUT :: u32 where "EPOLLOUT = 0x004"
definition EPOLLERR :: u32 where "EPOLLERR = 0x008"
definition EPOLLHUP :: u32 where "EPOLLHUP = 0x010"
definition DBUS_WATCH_READABLE :: u32 where "DBUS_WATCH_READABLE = 1"
definition DBUS_WATCH_WRITABLE :: u32 where "DBUS_WATCH_WRITABLE = 2"
definition DBUS_WATCH_ERROR :: u32 where "DBUS_WATCH_ERROR = 4"
definition DBUS_WATCH_HANGUP :: u32 where "DBUS_WATCH_HANGUP = 8"

lemmas event_bits =
  EPOLLIN_def EPOLLOUT_def EPOLLERR_def EPOLLHUP_def
  DBUS_WATCH_READABLE_def DBUS_WATCH_WRITABLE_def DBUS_WATCH_ERROR_def DBUS_WATCH_HANGUP_def

subsection \<open>Sources and the epoll set\<close>

definition shl_edbus_kill_source :: "nat \<Rightarrow> 'd edbus \<Rightarrow> 'd edbus option" where
  "shl_edbus_kill_source a w = do {
     s \<leftarrow> e_heap w a;
     if \<not> s_dead s
     then Some (w\<lparr>e_heap := (e_heap w)(a \<mapsto> s\<lparr>s_dead := True, s_next := e_free w\<rparr>), e_free := a\<rparr>)
     else Some w }"

definition shl_edbus_watch :: "errno option \<Rightarrow> int \<Rightarrow> u32 \<Rightarrow> nat \<Rightarrow> 'd edbus \<Rightarrow> 'd edbus \<times> unit res" where
  "shl_edbus_watch fails fd events s w =
     (case fails of
        Some e \<Rightarrow> (w, Inl e)
      | None \<Rightarrow>
          if e_epoll w fd \<noteq> None then (w, Inl EEXIST)
          else (w\<lparr>e_epoll := (e_epoll w)(fd \<mapsto> (events, s))\<rparr>, ok))"

definition shl_edbus_unwatch :: "int \<Rightarrow> 'd edbus \<Rightarrow> 'd edbus" where
  "shl_edbus_unwatch fd w = w\<lparr>e_epoll := (e_epoll w)(fd := None)\<rparr>"

definition shl_edbus_rewatch :: "int \<Rightarrow> u32 \<Rightarrow> nat \<Rightarrow> 'd edbus \<Rightarrow> 'd edbus" where
  "shl_edbus_rewatch fd events s w =
     (if e_epoll w fd = None then w else w\<lparr>e_epoll := (e_epoll w)(fd \<mapsto> (events, s))\<rparr>)"

definition shl_edbus_store_timespec :: "u64 \<Rightarrow> u64 \<times> u64" where
  "shl_edbus_store_timespec usec = (usec div 1000000, (usec mod 1000000) * 1000)"

definition shl_edbus_arm_timerfd :: "errno option \<Rightarrow> int \<Rightarrow> u64 \<Rightarrow> 'd edbus \<Rightarrow> 'd edbus \<times> unit res" where
  "shl_edbus_arm_timerfd fails fd usecs w =
     (let its_value = shl_edbus_store_timespec usecs; its = \<lparr>it_interval = its_value, it_value = its_value\<rparr>
      in case fails of
           Some e \<Rightarrow> (w, Inl e)
         | None \<Rightarrow> (w\<lparr>e_timers := (e_timers w)(fd \<mapsto> \<lparr>t_its = its, t_expired = False\<rparr>)\<rparr>, ok))"

text \<open>Closing one of the context's own descriptors; a closed timer is disarmed.\<close>

definition close_owned :: "int \<Rightarrow> 'd edbus \<Rightarrow> 'd edbus" where
  "close_owned fd w = w\<lparr>e_owned := removeAll fd (e_owned w), e_timers := (e_timers w)(fd := None)\<rparr>"

definition shl_edbus_get_watch_events :: "'d dbus_lib \<Rightarrow> esource \<Rightarrow> 'd \<Rightarrow> u32" where
  "shl_edbus_get_watch_events lib s d =
     (if \<not> watch_enabled lib d (s_object s) then 0
      else
        let flags = watch_flags lib d (s_object s); events = 0;
            events = (if flags AND DBUS_WATCH_READABLE \<noteq> 0 then events OR EPOLLIN else events)
        in if flags AND DBUS_WATCH_WRITABLE \<noteq> 0 then events OR EPOLLOUT else events)"

definition shl_edbus_events_to_flags :: "u32 \<Rightarrow> u32" where
  "shl_edbus_events_to_flags events =
     (let flags = 0;
          flags = (if events AND EPOLLIN \<noteq> 0 then flags OR DBUS_WATCH_READABLE else flags);
          flags = (if events AND EPOLLOUT \<noteq> 0 then flags OR DBUS_WATCH_WRITABLE else flags);
          flags = (if events AND EPOLLHUP \<noteq> 0 then flags OR DBUS_WATCH_HANGUP else flags)
      in if events AND EPOLLERR \<noteq> 0 then flags OR DBUS_WATCH_ERROR else flags)"

subsection \<open>The callbacks for watches\<close>

text \<open>A source that could not be added is freed again; its heap cell is released by \<open>drop_source\<close>.\<close>

definition drop_source :: "nat \<Rightarrow> 'd edbus \<Rightarrow> 'd edbus" where
  "drop_source a w = w\<lparr>e_heap := (e_heap w)(a := None)\<rparr>"

definition shl_edbus_add_watch :: "'d dbus_lib \<Rightarrow> esys \<Rightarrow> nat \<Rightarrow> 'd edbus \<Rightarrow> 'd edbus \<times> bool" where
  "shl_edbus_add_watch lib sys watch w =
     (case y_calloc sys of
        None \<Rightarrow> (w, False)
      | Some a \<Rightarrow>
          let s = \<lparr>s_next = 0, s_object = watch, s_fd = watch_fd lib (e_dbus w) watch, s_timeout = False,
                   s_dupped = False, s_dead = False\<rparr>;
              w = w\<lparr>e_heap := (e_heap w)(a \<mapsto> s)\<rparr>;
              events = shl_edbus_get_watch_events lib s (e_dbus w) OR EPOLLHUP OR EPOLLERR
          in case shl_edbus_watch (y_add1 sys) (s_fd s) events a w of
               (w, r) \<Rightarrow>
                 if r = Inl EEXIST then
                   (case y_dup sys of
                      Inl _ \<Rightarrow> (drop_source a w, False)
                    | Inr fd \<Rightarrow>
                        let s = s\<lparr>s_dupped := True, s_fd := fd\<rparr>;
                            w = w\<lparr>e_heap := (e_heap w)(a \<mapsto> s), e_owned := fd # e_owned w\<rparr>
                        in case shl_edbus_watch (y_add2 sys) fd events a w of
                             (w, Inl _) \<Rightarrow> (drop_source a (close_owned fd w), False)
                           | (w, Inr _) \<Rightarrow> (w\<lparr>e_dbus := watch_set_data lib watch a (e_dbus w)\<rparr>, True))
                 else (case r of
                         Inl _ \<Rightarrow> (drop_source a w, False)
                       | Inr _ \<Rightarrow> (w\<lparr>e_dbus := watch_set_data lib watch a (e_dbus w)\<rparr>, True)))"

definition shl_edbus_remove_watch :: "'d dbus_lib \<Rightarrow> nat \<Rightarrow> 'd edbus \<Rightarrow> 'd edbus option" where
  "shl_edbus_remove_watch lib watch w =
     (let a = watch_get_data lib (e_dbus w) watch
      in if a = 0 then Some w
         else do {
           s \<leftarrow> e_heap w a;
           let w = shl_edbus_unwatch (s_fd s) w; w = (if s_dupped s then close_owned (s_fd s) w else w)
           in shl_edbus_kill_source a w })"

definition shl_edbus_toggle_watch :: "'d dbus_lib \<Rightarrow> nat \<Rightarrow> 'd edbus \<Rightarrow> 'd edbus option" where
  "shl_edbus_toggle_watch lib watch w =
     (let a = watch_get_data lib (e_dbus w) watch
      in if a = 0 then Some w
         else do {
           s \<leftarrow> e_heap w a;
           Some (shl_edbus_rewatch (s_fd s) (shl_edbus_get_watch_events lib s (e_dbus w) OR EPOLLHUP OR EPOLLERR) a w) })"

subsection \<open>The callbacks for timeouts\<close>

text \<open>The interval is an \<^verbatim>\<open>int\<close> of milliseconds, sign-extended to 64 bits.\<close>

definition shl_edbus_adjust_timeout :: "'d dbus_lib \<Rightarrow> errno option \<Rightarrow> esource \<Rightarrow> 'd edbus \<Rightarrow> 'd edbus \<times> unit res" where
  "shl_edbus_adjust_timeout lib fails s w =
     (let t = (if timeout_enabled lib (e_dbus w) (s_object s)
               then scast (timeout_interval lib (e_dbus w) (s_object s)) * 1000 else 0)
      in shl_edbus_arm_timerfd fails (s_fd s) t w)"

definition shl_edbus_add_timeout :: "'d dbus_lib \<Rightarrow> esys \<Rightarrow> nat \<Rightarrow> 'd edbus \<Rightarrow> 'd edbus \<times> bool" where
  "shl_edbus_add_timeout lib sys timeout w =
     (case y_calloc sys of
        None \<Rightarrow> (w, False)
      | Some a \<Rightarrow>
          let s = \<lparr>s_next = 0, s_object = timeout, s_fd = 0, s_timeout = True, s_dupped = True, s_dead = False\<rparr>;
              w = w\<lparr>e_heap := (e_heap w)(a \<mapsto> s)\<rparr>
          in case y_timerfd sys of
               Inl _ \<Rightarrow> (drop_source a w, False)
             | Inr fd \<Rightarrow>
                 let s = s\<lparr>s_fd := fd\<rparr>;
                     w = w\<lparr>e_heap := (e_heap w)(a \<mapsto> s), e_owned := fd # e_owned w\<rparr>
                 in case shl_edbus_adjust_timeout lib (y_settime sys) s w of
                      (w, Inl _) \<Rightarrow> (drop_source a (close_owned fd w), False)
                    | (w, Inr _) \<Rightarrow>
                        (case shl_edbus_watch (y_add1 sys) fd EPOLLIN a w of
                           (w, Inl _) \<Rightarrow> (drop_source a (close_owned fd w), False)
                         | (w, Inr _) \<Rightarrow> (w\<lparr>e_dbus := timeout_set_data lib timeout a (e_dbus w)\<rparr>, True)))"

definition shl_edbus_remove_timeout :: "'d dbus_lib \<Rightarrow> nat \<Rightarrow> 'd edbus \<Rightarrow> 'd edbus option" where
  "shl_edbus_remove_timeout lib timeout w =
     (let a = timeout_get_data lib (e_dbus w) timeout
      in if a = 0 then Some w
         else do {
           s \<leftarrow> e_heap w a;
           shl_edbus_kill_source a (close_owned (s_fd s) (shl_edbus_unwatch (s_fd s) w)) })"

definition shl_edbus_toggle_timeout :: "'d dbus_lib \<Rightarrow> errno option \<Rightarrow> nat \<Rightarrow> 'd edbus \<Rightarrow> 'd edbus option" where
  "shl_edbus_toggle_timeout lib fails timeout w =
     (let a = timeout_get_data lib (e_dbus w) timeout
      in if a = 0 then Some w
         else do {
           s \<leftarrow> e_heap w a;
           Some (fst (shl_edbus_adjust_timeout lib fails s w)) })"

subsection \<open>Dispatching\<close>

definition dispatch_event :: "'d dbus_lib \<Rightarrow> u32 \<times> nat \<Rightarrow> 'd edbus \<Rightarrow> 'd edbus option" where
  "dispatch_event lib e w = do {
     s \<leftarrow> e_heap w (snd e);
     if s_dead s then Some w
     else if s_timeout s
     then (if timeout_enabled lib (e_dbus w) (s_object s) then timeout_handle lib (s_object s) w else Some w)
     else (if watch_enabled lib (e_dbus w) (s_object s)
           then watch_handle lib (s_object s) (shl_edbus_events_to_flags (fst e)) w else Some w) }"

partial_function (option) free_sources :: "'d edbus \<Rightarrow> 'd edbus option" where
  "free_sources w =
     (if e_free w = 0 then Some w
      else do {
        s \<leftarrow> e_heap w (e_free w);
        free_sources (w\<lparr>e_heap := (e_heap w)(e_free w := None), e_free := s_next s\<rparr>) })"

declare free_sources.simps [code]

datatype dispatch_status =
  DBUS_DISPATCH_COMPLETE | DBUS_DISPATCH_DATA_REMAINS | DBUS_DISPATCH_NEED_MEMORY | DBUS_DISPATCH_OTHER

text \<open>
  The successive calls of \<^verbatim>\<open>dbus_connection_dispatch\<close>: what each does to the context (through the
  callbacks) and its status; a loop that uses up the list has not returned.
\<close>

primrec bus_dispatch :: "(('d edbus \<Rightarrow> 'd edbus option) \<times> dispatch_status) list \<Rightarrow> 'd edbus \<Rightarrow> ('d edbus \<times> unit res) option" where
  "bus_dispatch [] w = None"
| "bus_dispatch (c # cs) w =
     fst c w \<bind> (\<lambda>w.
       case snd c of
         DBUS_DISPATCH_COMPLETE \<Rightarrow> Some (w, ok)
       | DBUS_DISPATCH_DATA_REMAINS \<Rightarrow> bus_dispatch cs w
       | DBUS_DISPATCH_NEED_MEMORY \<Rightarrow> Some (w, Inl ENOMEM)
       | DBUS_DISPATCH_OTHER \<Rightarrow> Some (w, Inl EIO))"

text \<open>
  \<open>wait\<close> is \<^verbatim>\<open>epoll_wait\<close>: given the room for events and the timeout it gives an error or events with their sources.
\<close>

type_synonym 'd epoll_wait = "nat \<Rightarrow> int \<Rightarrow> 'd edbus \<Rightarrow> errno + (u32 \<times> nat) list"

type_synonym 'd bus_calls = "(('d edbus \<Rightarrow> 'd edbus option) \<times> dispatch_status) list"

definition shl_edbus_dispatch ::
  "'d dbus_lib \<Rightarrow> 'd epoll_wait \<Rightarrow> 'd bus_calls \<Rightarrow> int \<Rightarrow> 'd edbus \<Rightarrow> ('d edbus \<times> unit res) option"
where
  "shl_edbus_dispatch lib wait bus timeout_ms w =
     (case wait 64 timeout_ms w of
        Inl e \<Rightarrow> if e = EAGAIN \<or> e = EINTR then Some (w, ok) else Some (w, Inl e)
      | Inr events \<Rightarrow> do {
          w \<leftarrow> foldM (dispatch_event lib) events w;
          w \<leftarrow> free_sources w;
          bus_dispatch bus w })"

subsection \<open>The context\<close>

text \<open>
  What libdbus does when the callbacks are set (it adds the existing watches and timeouts, or fails) and
  when they are unset (it removes them).
\<close>

record 'd bus_setup =
  set_watch_functions :: "'d edbus \<Rightarrow> ('d edbus \<times> bool) option"
  set_timeout_functions :: "'d edbus \<Rightarrow> ('d edbus \<times> bool) option"
  unset_watch_functions :: "'d edbus \<Rightarrow> 'd edbus option"
  unset_timeout_functions :: "'d edbus \<Rightarrow> 'd edbus option"

record bus_conn =
  c_refs :: int
  c_open :: bool

definition edbus_empty :: "'d \<Rightarrow> 'd edbus" where
  "edbus_empty d = \<lparr>e_heap = (\<lambda>_. None), e_free = 0, e_efd = None, e_owns_bus = False, e_epoll = (\<lambda>_. None), e_owned = [],
     e_timers = (\<lambda>_. None), e_dbus = d\<rparr>"

text \<open>Closing the epoll descriptor empties its set.\<close>

definition close_efd :: "'d edbus \<Rightarrow> 'd edbus" where
  "close_efd w = w\<lparr>e_epoll := (\<lambda>_. None), e_efd := None\<rparr>"

text \<open>
  The failure path of \<^verbatim>\<open>shl_edbus_new\<close>: the callbacks are unset, the epoll descriptor is closed if it was opened, and the
  context is freed. The result is what is left behind.
\<close>

definition new_error :: "'d bus_setup \<Rightarrow> 'd edbus \<Rightarrow> 'd edbus option" where
  "new_error setup w = do {
     w \<leftarrow> unset_timeout_functions setup w;
     w \<leftarrow> unset_watch_functions setup w;
     Some (if e_efd w \<noteq> None then close_efd w else w) }"

definition shl_edbus_new ::
  "bool \<Rightarrow> errno + int \<Rightarrow> 'd bus_setup \<Rightarrow> 'd \<Rightarrow> bus_conn \<Rightarrow> ('d edbus \<times> bus_conn \<times> (errno + int)) option"
where
  "shl_edbus_new calloc epoll_create setup d c =
     (let w = edbus_empty d
      in if \<not> calloc then Some (w, c, Inl ENOMEM)
         else case epoll_create of
           Inl e \<Rightarrow> do { w \<leftarrow> new_error setup w; Some (w, c, Inl e) }
         | Inr efd \<Rightarrow> do {
             (w, b) \<leftarrow> set_watch_functions setup (w\<lparr>e_efd := Some efd\<rparr>);
             if \<not> b then do { w \<leftarrow> new_error setup w; Some (w, c, Inl ENOMEM) }
             else do {
               (w, b) \<leftarrow> set_timeout_functions setup w;
               if \<not> b then do { w \<leftarrow> new_error setup w; Some (w, c, Inl ENOMEM) }
               else Some (w, c\<lparr>c_refs := c_refs c + 1\<rparr>, Inr efd) } })"

definition shl_edbus_new_bus ::
  "bus_conn option \<Rightarrow> bool \<Rightarrow> errno + int \<Rightarrow> 'd bus_setup \<Rightarrow> 'd \<Rightarrow> ('d edbus \<times> bus_conn option \<times> (errno + int)) option"
where
  "shl_edbus_new_bus private calloc epoll_create setup d =
     (case private of
        None \<Rightarrow> Some (edbus_empty d, None, Inl EIO)
      | Some c \<Rightarrow> do {
          (w, c, r) \<leftarrow> shl_edbus_new calloc epoll_create setup d c;
          case r of
            Inl e \<Rightarrow> Some (w, Some (c\<lparr>c_open := False, c_refs := c_refs c - 1\<rparr>), Inl e)
          | Inr efd \<Rightarrow> Some (w\<lparr>e_owns_bus := True\<rparr>, Some (c\<lparr>c_refs := c_refs c - 1\<rparr>), Inr efd) })"

definition shl_edbus_free :: "'d bus_setup \<Rightarrow> 'd edbus \<Rightarrow> bus_conn \<Rightarrow> ('d edbus \<times> bus_conn) option" where
  "shl_edbus_free setup w c = do {
     w \<leftarrow> unset_timeout_functions setup w;
     w \<leftarrow> unset_watch_functions setup w;
     let c = (if e_owns_bus w then c\<lparr>c_open := False\<rparr> else c); c = c\<lparr>c_refs := c_refs c - 1\<rparr>
     in do {
       w \<leftarrow> free_sources w;
       Some (close_efd w, c) } }"

text \<open>The events a watch waits for become its flags again, and a timer is armed to the microsecond.\<close>

lemma watch_event_flags:
  assumes "watch_enabled lib d (s_object s)"
  shows "shl_edbus_events_to_flags (shl_edbus_get_watch_events lib s d) = watch_flags lib d (s_object s) AND 3"
proof -
  let ?f = "watch_flags lib d (s_object s)"
  have f1: "?f AND 1 = (if bit ?f 0 then 1 else 0)"
    by (simp add: and_one_eq bit_0 odd_iff_mod_2_eq_one even_iff_mod_2_eq_zero)
  have f2: "?f AND 2 = (if bit ?f 1 then 2 else 0)" by (rule bit_word_eqI) (auto simp: bit_simps)
  have "?f AND 3 = ?f AND (1 OR 2)" by simp
  also have "\<dots> = (?f AND 1) OR (?f AND 2)" by (rule bit.conj_disj_distrib)
  finally show ?thesis
    using assms f1 f2 by (simp add: shl_edbus_events_to_flags_def shl_edbus_get_watch_events_def event_bits Let_def)
qed

lemma timespec_exact:
  "unat (fst (shl_edbus_store_timespec t)) * 1000000 + unat (snd (shl_edbus_store_timespec t)) div 1000 = unat t"
  "unat (snd (shl_edbus_store_timespec t)) < 1000000000"
proof -
  have m: "unat (t mod 1000000) = unat t mod 1000000" "unat (t div 1000000) = unat t div 1000000"
    by (simp_all add: unat_mod unat_div)
  have "unat (t mod 1000000 * 1000) = unat t mod 1000000 * 1000"
  proof -
    have "unat t mod 1000000 < 1000000" by simp
    then have "unat t mod 1000000 * 1000 < 2 ^ 64" by simp
    then show ?thesis using m(1) by (simp add: unat_word_ariths)
  qed
  then show "unat (fst (shl_edbus_store_timespec t)) * 1000000 + unat (snd (shl_edbus_store_timespec t)) div 1000 = unat t"
    "unat (snd (shl_edbus_store_timespec t)) < 1000000000"
    using m(2) by (simp_all add: shl_edbus_store_timespec_def)
qed

end
