(* ===== verification/Shl_Edbus_Inv.thy ===== *)
theory Shl_Edbus_Inv
  imports Shl_Edbus
begin

text \<open>
  The invariant of a D-Bus context (\<^verbatim>\<open>src/shl_edbus.c\<close>), that each of its callbacks keeps it, and what libdbus, its user and
  the kernel may do to a context as the step relation \<open>edbus_step\<close>.
\<close>

subsection \<open>The invariant\<close>

definition alive :: "'d edbus \<Rightarrow> nat \<Rightarrow> esource \<Rightarrow> bool" where
  "alive w a s \<longleftrightarrow> e_heap w a = Some s \<and> \<not> s_dead s"

definition data_of :: "'d dbus_lib \<Rightarrow> 'd edbus \<Rightarrow> esource \<Rightarrow> nat" where
  "data_of lib w s =
     (if s_timeout s then timeout_get_data lib (e_dbus w) (s_object s) else watch_get_data lib (e_dbus w) (s_object s))"

primrec free_chain :: "(nat \<rightharpoonup> esource) \<Rightarrow> nat \<Rightarrow> nat list \<Rightarrow> bool" where
  "free_chain h p [] \<longleftrightarrow> p = 0"
| "free_chain h p (a # as) \<longleftrightarrow>
     p = a \<and> a \<noteq> 0 \<and> (case h a of None \<Rightarrow> False | Some s \<Rightarrow> s_dead s \<and> free_chain h (s_next s) as)"

text \<open>
  The dead sources are exactly those of the free list. The live ones are exactly those in the epoll
  set, each under its descriptor and known to libdbus as the data of its object. The context owns exactly
  the duplicated descriptors of live sources; only they are timers.
\<close>

definition edbus_inv :: "'d dbus_lib \<Rightarrow> 'd edbus \<Rightarrow> bool" where
  "edbus_inv lib w \<longleftrightarrow>
     (\<exists>fl. free_chain (e_heap w) (e_free w) fl \<and> distinct fl \<and> (\<forall>a s. e_heap w a = Some s \<and> s_dead s \<longrightarrow> a \<in> set fl)) \<and>
     e_heap w 0 = None \<and>
     (\<forall>fd ev a. e_epoll w fd = Some (ev, a) \<longrightarrow> (\<exists>s. alive w a s \<and> s_fd s = fd)) \<and>
     (\<forall>a s. alive w a s \<longrightarrow>
        (\<exists>ev. e_epoll w (s_fd s) = Some (ev, a)) \<and> data_of lib w s = a \<and> (s_timeout s \<longrightarrow> s_dupped s)) \<and>
     set (e_owned w) = {s_fd s | a s. alive w a s \<and> s_dupped s} \<and>
     dom (e_timers w) \<subseteq> set (e_owned w)"

text \<open>What libdbus documents of the data pointers of its objects.\<close>

definition dbus_laws :: "'d dbus_lib \<Rightarrow> bool" where
  "dbus_laws lib \<longleftrightarrow>
     (\<forall>x a d y. watch_get_data lib (watch_set_data lib x a d) y = (if y = x then a else watch_get_data lib d y) \<and>
        timeout_get_data lib (watch_set_data lib x a d) y = timeout_get_data lib d y \<and>
        timeout_get_data lib (timeout_set_data lib x a d) y = (if y = x then a else timeout_get_data lib d y) \<and>
        watch_get_data lib (timeout_set_data lib x a d) y = watch_get_data lib d y)"

lemma edbus_invD:
  assumes "edbus_inv lib w"
  shows "\<exists>fl. free_chain (e_heap w) (e_free w) fl \<and> distinct fl \<and> (\<forall>a s. e_heap w a = Some s \<and> s_dead s \<longrightarrow> a \<in> set fl)"
    and "e_heap w 0 = None"
    and "\<forall>fd ev a. e_epoll w fd = Some (ev, a) \<longrightarrow> (\<exists>s. alive w a s \<and> s_fd s = fd)"
    and "\<forall>a s. alive w a s \<longrightarrow>
        (\<exists>ev. e_epoll w (s_fd s) = Some (ev, a)) \<and> data_of lib w s = a \<and> (s_timeout s \<longrightarrow> s_dupped s)"
    and "dom (e_timers w) \<subseteq> set (e_owned w)"
  using assms unfolding edbus_inv_def by - (elim conjE, assumption)+

lemma inv_alive:
  assumes "edbus_inv lib w" "alive w a s"
  obtains ev where "e_epoll w (s_fd s) = Some (ev, a)" "data_of lib w s = a" "s_timeout s \<longrightarrow> s_dupped s" "a \<noteq> 0"
proof -
  have "a \<noteq> 0"
  proof
    assume "a = 0"
    then show False using edbus_invD(2) [OF assms(1)] assms(2) by (simp add: alive_def)
  qed
  then show thesis using edbus_invD(4) [OF assms(1)] assms(2) that by blast
qed

lemma inv_epoll: "edbus_inv lib w \<Longrightarrow> e_epoll w fd = Some (ev, a) \<Longrightarrow> \<exists>s. alive w a s \<and> s_fd s = fd"
  using edbus_invD(3) by blast

lemma inv_owned: "edbus_inv lib w \<Longrightarrow> set (e_owned w) = {s_fd s | a s. alive w a s \<and> s_dupped s}"
  by (simp add: edbus_inv_def)

lemma inv_chain:
  assumes "edbus_inv lib w"
  obtains fl where "free_chain (e_heap w) (e_free w) fl" "distinct fl" "\<forall>a s. e_heap w a = Some s \<and> s_dead s \<longrightarrow> a \<in> set fl"
  using edbus_invD(1) [OF assms] by blast

lemma inv_add:
  assumes inv: "edbus_inv lib w" and "a \<noteq> 0" "e_heap w a = None" "\<not> s_dead s" "e_epoll w (s_fd s) = None"
    and "s_timeout s \<longrightarrow> s_dupped s" "s_dupped s \<longrightarrow> s_fd s \<notin> set (e_owned w)"
    and w': "e_heap w' = (e_heap w)(a \<mapsto> s)" "e_free w' = e_free w" "e_epoll w' = (e_epoll w)(s_fd s \<mapsto> (ev, a))"
      "set (e_owned w') = (if s_dupped s then insert (s_fd s) (set (e_owned w)) else set (e_owned w))"
      "dom (e_timers w') \<subseteq> set (e_owned w')"
    and data: "data_of lib w' s = a" "\<And>b t. alive w b t \<Longrightarrow> data_of lib w' t = data_of lib w t"
  shows "edbus_inv lib w'"
proof -
  have live: "alive w' b t \<longleftrightarrow> b = a \<and> t = s \<or> alive w b t" for b t
    using assms(3,4) w'(1) by (auto simp: alive_def)
  have old: "\<not> alive w a t" for t using assms(3) by (simp add: alive_def)
  have chain: "free_chain (e_heap w) p fl \<Longrightarrow> free_chain (e_heap w') p fl" for p fl
    using assms(3) w'(1) by (induction fl arbitrary: p) (auto split: option.splits)
  from inv_chain [OF inv] obtain fl where
    "free_chain (e_heap w) (e_free w) fl" "distinct fl" "\<forall>b t. e_heap w b = Some t \<and> s_dead t \<longrightarrow> b \<in> set fl" .
  then have "\<exists>fl. free_chain (e_heap w') (e_free w') fl \<and> distinct fl \<and> (\<forall>b t. e_heap w' b = Some t \<and> s_dead t \<longrightarrow> b \<in> set fl)"
    using chain w'(1,2) assms(4) by (intro exI [of _ fl]) auto
  moreover have "set (e_owned w') = {s_fd t | b t. alive w' b t \<and> s_dupped t}"
  proof -
    have "{s_fd t | b t. alive w' b t \<and> s_dupped t} =
        {s_fd t | b t. alive w b t \<and> s_dupped t} \<union> (if s_dupped s then {s_fd s} else {})"
      using old by (auto simp: live)
    then show ?thesis using inv_owned [OF inv] w'(4) by auto
  qed
  moreover have "\<forall>fd ev b. e_epoll w' fd = Some (ev, b) \<longrightarrow> (\<exists>t. alive w' b t \<and> s_fd t = fd)"
    using edbus_invD(3) [OF inv] w'(3) by (auto simp: live split: if_splits) blast
  moreover have "\<forall>b t. alive w' b t \<longrightarrow>
      (\<exists>ev. e_epoll w' (s_fd t) = Some (ev, b)) \<and> data_of lib w' t = b \<and> (s_timeout t \<longrightarrow> s_dupped t)"
  proof (intro allI impI)
    fix b t assume bt: "alive w' b t"
    show "(\<exists>ev. e_epoll w' (s_fd t) = Some (ev, b)) \<and> data_of lib w' t = b \<and> (s_timeout t \<longrightarrow> s_dupped t)"
    proof (cases "b = a")
      case True
      then have "t = s" using bt live old by blast
      then show ?thesis using True data(1) assms(6) w'(3) by simp
    next
      case False
      then have "alive w b t" using bt live by simp
      from inv_alive [OF inv this] obtain ev' where
        "e_epoll w (s_fd t) = Some (ev', b)" "data_of lib w t = b" "s_timeout t \<longrightarrow> s_dupped t" .
      moreover from this(1) have "s_fd t \<noteq> s_fd s" using assms(5) by auto
      ultimately show ?thesis using data(2) [OF \<open>alive w b t\<close>] w'(3) by simp
    qed
  qed
  ultimately show ?thesis
    using w'(1,5) assms(2) inv by (simp add: edbus_inv_def)
qed

lemma inv_kill:
  assumes inv: "edbus_inv lib w" and "alive w a s"
    and w': "e_heap w' = (e_heap w)(a \<mapsto> s\<lparr>s_dead := True, s_next := e_free w\<rparr>)" "e_free w' = a"
      "e_epoll w' = (e_epoll w)(s_fd s := None)"
      "set (e_owned w') = (if s_dupped s then set (e_owned w) - {s_fd s} else set (e_owned w))"
      "dom (e_timers w') \<subseteq> set (e_owned w')" "e_dbus w' = e_dbus w"
  shows "edbus_inv lib w'"
proof -
  have live: "alive w' b t \<longleftrightarrow> b \<noteq> a \<and> alive w b t" for b t
    using w'(1) by (auto simp: alive_def)
  have data: "data_of lib w' t = data_of lib w t" for t by (simp add: data_of_def w'(6))
  have epoll: "\<exists>ev. e_epoll w (s_fd t) = Some (ev, b)" if "alive w b t" for b t
    using inv_alive [OF inv that] by blast
  have other: "s_fd t \<noteq> s_fd s" if "alive w b t" "b \<noteq> a" for b t
    using epoll [OF that(1)] epoll [OF assms(2)] that(2) by auto
  from inv_chain [OF inv] obtain fl where fl: "free_chain (e_heap w) (e_free w) fl" "distinct fl"
    "\<forall>b t. e_heap w b = Some t \<and> s_dead t \<longrightarrow> b \<in> set fl" .
  have chain: "free_chain (e_heap w) p l \<Longrightarrow> a \<notin> set l \<and> free_chain (e_heap w') p l" for p l
    using assms(2) w'(1) by (induction l arbitrary: p) (auto simp: alive_def split: option.splits)
  have "a \<noteq> 0" using inv_alive [OF inv assms(2)] by blast
  then have "free_chain (e_heap w') (e_free w') (a # fl)" using chain [OF fl(1)] w'(1,2) by simp
  moreover have "distinct (a # fl)" using chain [OF fl(1)] fl(2) by simp
  moreover have "\<forall>b t. e_heap w' b = Some t \<and> s_dead t \<longrightarrow> b \<in> set (a # fl)" using fl(3) w'(1) by auto
  ultimately have "\<exists>fl. free_chain (e_heap w') (e_free w') fl \<and> distinct fl \<and>
      (\<forall>b t. e_heap w' b = Some t \<and> s_dead t \<longrightarrow> b \<in> set fl)" by blast
  moreover have "set (e_owned w') = {s_fd t | b t. alive w' b t \<and> s_dupped t}"
  proof -
    have a: "alive w a t \<longleftrightarrow> t = s" for t using assms(2) by (auto simp: alive_def)
    have "{s_fd t | b t. alive w b t \<and> s_dupped t} =
        {s_fd t | b t. alive w' b t \<and> s_dupped t} \<union> (if s_dupped s then {s_fd s} else {})"
      using a by (auto simp: live) metis+
    moreover have "s_fd s \<notin> {s_fd t | b t. alive w' b t \<and> s_dupped t}" using other by (auto simp: live) metis
    ultimately show ?thesis using w'(4) inv_owned [OF inv] by auto
  qed
  moreover have "\<forall>fd ev b. e_epoll w' fd = Some (ev, b) \<longrightarrow> (\<exists>t. alive w' b t \<and> s_fd t = fd)"
  proof (intro allI impI)
    fix fd ev b assume "e_epoll w' fd = Some (ev, b)"
    then have b: "fd \<noteq> s_fd s" "e_epoll w fd = Some (ev, b)" using w'(3) by (auto split: if_splits)
    then obtain t where t: "alive w b t" "s_fd t = fd" using inv_epoll [OF inv] by blast
    moreover have "b \<noteq> a" using t assms(2) b(1) by (auto simp: alive_def)
    ultimately show "\<exists>t. alive w' b t \<and> s_fd t = fd" using live by blast
  qed
  moreover have "\<forall>b t. alive w' b t \<longrightarrow>
      (\<exists>ev. e_epoll w' (s_fd t) = Some (ev, b)) \<and> data_of lib w' t = b \<and> (s_timeout t \<longrightarrow> s_dupped t)"
  proof (intro allI impI)
    fix b t assume "alive w' b t"
    then have b: "alive w b t" "b \<noteq> a" by (simp_all add: live)
    from inv_alive [OF inv b(1)] show "(\<exists>ev. e_epoll w' (s_fd t) = Some (ev, b)) \<and> data_of lib w' t = b \<and> (s_timeout t \<longrightarrow> s_dupped t)"
      using other [OF b] w'(3) by (auto simp: data)
  qed
  ultimately show ?thesis
    using w'(1,5) \<open>a \<noteq> 0\<close> inv by (simp add: edbus_inv_def)
qed

lemma inv_retune:
  assumes inv: "edbus_inv lib w" and "alive w a s"
    and "e_heap w' = e_heap w" "e_free w' = e_free w" "e_owned w' = e_owned w"
    and "e_epoll w' = e_epoll w \<or> e_epoll w' = (e_epoll w)(s_fd s \<mapsto> (ev, a))"
    and "dom (e_timers w') \<subseteq> set (e_owned w')" "\<And>t. data_of lib w' t = data_of lib w t"
  shows "edbus_inv lib w'"
proof -
  have live: "alive w' b t \<longleftrightarrow> alive w b t" for b t by (simp add: alive_def assms(3))
  obtain ev0 where "e_epoll w (s_fd s) = Some (ev0, a)" using inv_alive [OF inv assms(2)] by blast
  then have epoll: "(\<exists>ev. e_epoll w' fd = Some (ev, b)) \<longleftrightarrow> (\<exists>ev. e_epoll w fd = Some (ev, b))" for fd b
    using assms(6) by (cases "fd = s_fd s") auto
  have "\<forall>fd ev b. e_epoll w' fd = Some (ev, b) \<longrightarrow> (\<exists>t. alive w' b t \<and> s_fd t = fd)"
  proof (intro allI impI)
    fix fd ev b assume "e_epoll w' fd = Some (ev, b)"
    then obtain ev where "e_epoll w fd = Some (ev, b)" using epoll by blast
    then show "\<exists>t. alive w' b t \<and> s_fd t = fd" using inv_epoll [OF inv] by (simp add: live)
  qed
  moreover have "\<forall>b t. alive w' b t \<longrightarrow>
      (\<exists>ev. e_epoll w' (s_fd t) = Some (ev, b)) \<and> data_of lib w' t = b \<and> (s_timeout t \<longrightarrow> s_dupped t)"
    using inv_alive [OF inv] unfolding live epoll assms(8) by blast
  ultimately show ?thesis
    using inv assms(3-5,7) by (simp add: live edbus_inv_def)
qed

lemmas edbus_ops =
  shl_edbus_watch_def shl_edbus_unwatch_def shl_edbus_rewatch_def shl_edbus_arm_timerfd_def shl_edbus_adjust_timeout_def
  shl_edbus_kill_source_def close_owned_def drop_source_def

subsection \<open>The callbacks keep the invariant\<close>

definition registered :: "'d edbus \<Rightarrow> bool \<Rightarrow> nat \<Rightarrow> bool" where
  "registered w timeout x \<longleftrightarrow> (\<exists>a s. alive w a s \<and> s_timeout s = timeout \<and> s_object s = x)"

text \<open>Allocation returns unused memory, and the kernel hands out unused descriptor numbers.\<close>

definition fresh_sys :: "'d edbus \<Rightarrow> esys \<Rightarrow> bool" where
  "fresh_sys w sys \<longleftrightarrow>
     (case y_calloc sys of None \<Rightarrow> True | Some a \<Rightarrow> a \<noteq> 0 \<and> e_heap w a = None) \<and>
     (case y_dup sys of Inl _ \<Rightarrow> True | Inr fd \<Rightarrow> e_epoll w fd = None \<and> fd \<notin> set (e_owned w)) \<and>
     (case y_timerfd sys of Inl _ \<Rightarrow> True | Inr fd \<Rightarrow> e_epoll w fd = None \<and> fd \<notin> set (e_owned w))"

lemma data_of_add:
  assumes "dbus_laws lib" "\<not> registered w (s_timeout s) (s_object s)"
    and d: "e_dbus w' = (if s_timeout s then timeout_set_data lib (s_object s) a (e_dbus w) else watch_set_data lib (s_object s) a (e_dbus w))"
  shows "data_of lib w' s = a" "alive w b t \<Longrightarrow> data_of lib w' t = data_of lib w t"
proof -
  show "data_of lib w' s = a" using assms(1) d by (simp add: data_of_def dbus_laws_def)
  assume "alive w b t"
  then have "s_timeout t = s_timeout s \<Longrightarrow> s_object t \<noteq> s_object s" using assms(2) by (auto simp: registered_def)
  then show "data_of lib w' t = data_of lib w t" using assms(1) d by (auto simp: data_of_def dbus_laws_def)
qed

definition adds_source :: "'d edbus \<Rightarrow> 'd edbus \<Rightarrow> bool \<Rightarrow> nat \<Rightarrow> bool" where
  "adds_source w w' timeout x \<longleftrightarrow>
     (\<exists>a s. e_heap w a = None \<and> e_heap w' = (e_heap w)(a \<mapsto> s) \<and> \<not> s_dead s \<and> s_timeout s = timeout \<and> s_object s = x)"

lemma adds_sourceI:
  "e_heap w a = None \<Longrightarrow> e_heap w' = (e_heap w)(a \<mapsto> s) \<Longrightarrow> \<not> s_dead s \<Longrightarrow> s_timeout s = timeout \<Longrightarrow> s_object s = x \<Longrightarrow>
   adds_source w w' timeout x"
  unfolding adds_source_def by blast

lemma owned_timers:
  assumes "edbus_inv lib w" "fd \<notin> set (e_owned w)"
  shows "(e_timers w)(fd := None) = e_timers w"
proof -
  have "dom (e_timers w) \<subseteq> set (e_owned w)" using assms(1) by (rule edbus_invD)
  then have "e_timers w fd = None" using assms(2) by (auto simp: domIff)
  then show ?thesis by (rule fun_upd_idem)
qed

lemma add_watch_spec:
  assumes "dbus_laws lib" and inv: "edbus_inv lib w" and "\<not> registered w False x" "fresh_sys w sys"
    and add: "shl_edbus_add_watch lib sys x w = (w', b)"
  shows "edbus_inv lib w' \<and> (if b then adds_source w w' False x else w' = w)"
proof (cases "y_calloc sys")
  case None
  then show ?thesis using add inv by (auto simp: shl_edbus_add_watch_def)
next
  case (Some a)
  have a: "a \<noteq> 0" "e_heap w a = None" using assms(4) Some by (simp_all add: fresh_sys_def)
  have timers: "dom (e_timers w) \<subseteq> set (e_owned w)" using inv by (rule edbus_invD)
  let ?s = "\<lparr>s_next = 0, s_object = x, s_fd = watch_fd lib (e_dbus w) x, s_timeout = False, s_dupped = False, s_dead = False\<rparr>"
  let ?ev = "shl_edbus_get_watch_events lib ?s (e_dbus w) OR EPOLLHUP OR EPOLLERR"
  have undo: "(e_heap w)(a := None) = e_heap w" using a(2) by (rule fun_upd_idem)
  have new: "edbus_inv lib w1" if "\<not> s_dead s" "\<not> s_timeout s" "s_object s = x" "e_epoll w (s_fd s) = None"
    "s_dupped s \<longrightarrow> s_fd s \<notin> set (e_owned w)"
    "w1 = w\<lparr>e_heap := (e_heap w)(a \<mapsto> s), e_epoll := (e_epoll w)(s_fd s \<mapsto> (?ev, a)),
       e_owned := (if s_dupped s then s_fd s # e_owned w else e_owned w), e_dbus := watch_set_data lib x a (e_dbus w)\<rparr>" for s w1
    using that timers data_of_add [OF assms(1), of w s w1 a] assms(3)
    by (intro inv_add [OF inv a, of s w1 ?ev]) auto
  show ?thesis
  proof (cases "y_add1 sys = None \<and> e_epoll w (watch_fd lib (e_dbus w) x) = None")
    case True
    then have "b" "w' = w\<lparr>e_heap := (e_heap w)(a \<mapsto> ?s), e_epoll := (e_epoll w)(s_fd ?s \<mapsto> (?ev, a)),
        e_dbus := watch_set_data lib x a (e_dbus w)\<rparr>"
      using add Some by (auto simp: shl_edbus_add_watch_def shl_edbus_watch_def Let_def)
    then show ?thesis
      using new [of ?s w'] True adds_sourceI [OF a(2), of w' ?s False x] by simp
  next
    case first: False
    show ?thesis
    proof (cases "(y_add1 sys = None \<or> y_add1 sys = Some EEXIST) \<and> (\<exists>fd. y_dup sys = Inr fd)")
      case True
      then obtain fd where fd: "y_dup sys = Inr fd" by blast
      have fresh: "e_epoll w fd = None" "fd \<notin> set (e_owned w)" using assms(4) fd by (simp_all add: fresh_sys_def)
      let ?s2 = "?s\<lparr>s_dupped := True, s_fd := fd\<rparr>"
      show ?thesis
      proof (cases "y_add2 sys")
        case None
        then have "b" "w' = w\<lparr>e_heap := (e_heap w)(a \<mapsto> ?s2), e_epoll := (e_epoll w)(fd \<mapsto> (?ev, a)),
            e_owned := fd # e_owned w, e_dbus := watch_set_data lib x a (e_dbus w)\<rparr>"
          using add Some first True fd fresh by (auto simp: shl_edbus_add_watch_def shl_edbus_watch_def Let_def)
        then show ?thesis using new [of ?s2 w'] fresh adds_sourceI [OF a(2), of w' ?s2 False x] by simp
      next
        case (Some e)
        then have "\<not> b" "w' = w"
          using add \<open>y_calloc sys = Some a\<close> first True fd undo owned_timers [OF inv fresh(2)] fresh(2)
          by (auto simp: shl_edbus_add_watch_def shl_edbus_watch_def close_owned_def drop_source_def Let_def)
        then show ?thesis using inv by simp
      qed
    next
      case False
      then have "\<not> b" "w' = w"
        using add Some first undo
        by (auto simp: shl_edbus_add_watch_def shl_edbus_watch_def drop_source_def Let_def split: option.splits sum.splits if_splits)
      then show ?thesis using inv by simp
    qed
  qed
qed

lemma adjust_timeout_fails [simp]: "shl_edbus_adjust_timeout lib (Some e) s w = (w, Inl e)"
  by (simp add: shl_edbus_adjust_timeout_def shl_edbus_arm_timerfd_def)

lemma adjust_timeout_sets:
  obtains tm where "shl_edbus_adjust_timeout lib None s w = (w\<lparr>e_timers := (e_timers w)(s_fd s \<mapsto> tm)\<rparr>, ok)"
  by (simp add: shl_edbus_adjust_timeout_def shl_edbus_arm_timerfd_def Let_def)

lemma add_timeout_spec:
  assumes "dbus_laws lib" and inv: "edbus_inv lib w" and "\<not> registered w True x" "fresh_sys w sys"
    and add: "shl_edbus_add_timeout lib sys x w = (w', b)"
  shows "edbus_inv lib w' \<and> (if b then adds_source w w' True x else w' = w)"
proof (cases "y_calloc sys = None \<or> isl (y_timerfd sys)")
  case True
  have "(e_heap w)(a := None) = e_heap w" if "y_calloc sys = Some a" for a
    using assms(4) that by (intro fun_upd_idem) (simp add: fresh_sys_def)
  with True have "\<not> b" "w' = w"
    using add by (auto simp: shl_edbus_add_timeout_def drop_source_def Let_def split: option.splits sum.splits)
  then show ?thesis using inv by simp
next
  case False
  then obtain a fd where some: "y_calloc sys = Some a" "y_timerfd sys = Inr fd" by (cases "y_timerfd sys") auto
  have a: "a \<noteq> 0" "e_heap w a = None" and fd: "e_epoll w fd = None" "fd \<notin> set (e_owned w)"
    using assms(4) some by (simp_all add: fresh_sys_def)
  have timers: "dom (e_timers w) \<subseteq> set (e_owned w)" using inv by (rule edbus_invD)
  let ?s = "\<lparr>s_next = 0, s_object = x, s_fd = fd, s_timeout = True, s_dupped = True, s_dead = False\<rparr>"
  have undo: "(e_heap w)(a := None) = e_heap w" using a(2) by (rule fun_upd_idem)
  show ?thesis
  proof (cases "y_settime sys = None \<and> y_add1 sys = None")
    case True
    let ?w = "w\<lparr>e_heap := (e_heap w)(a \<mapsto> ?s), e_owned := fd # e_owned w\<rparr>"
    obtain tm where "shl_edbus_adjust_timeout lib None ?s ?w = (?w\<lparr>e_timers := (e_timers ?w)(s_fd ?s \<mapsto> tm)\<rparr>, ok)"
      by (rule adjust_timeout_sets)
    with True have w': "b" "w' = w\<lparr>e_heap := (e_heap w)(a \<mapsto> ?s), e_epoll := (e_epoll w)(fd \<mapsto> (EPOLLIN, a)), e_owned := fd # e_owned w,
        e_timers := (e_timers w)(fd \<mapsto> tm), e_dbus := timeout_set_data lib x a (e_dbus w)\<rparr>"
      using add some fd(1) by (auto simp: shl_edbus_add_timeout_def shl_edbus_watch_def Let_def)
    have "edbus_inv lib w'"
      using w'(2) fd timers data_of_add [OF assms(1), of w ?s w' a] assms(3)
      by (intro inv_add [OF inv a, of ?s w' EPOLLIN]) auto
    then show ?thesis using w' adds_sourceI [OF a(2), of w' ?s True x] by simp
  next
    case False
    then have "\<not> b" "w' = w"
      using add some fd(2) undo owned_timers [OF inv fd(2)]
      by (auto simp: shl_edbus_add_timeout_def shl_edbus_adjust_timeout_def shl_edbus_arm_timerfd_def shl_edbus_watch_def
          close_owned_def drop_source_def fd(1) Let_def split: option.splits)
    then show ?thesis using inv by simp
  qed
qed

definition kills_source :: "'d edbus \<Rightarrow> 'd edbus \<Rightarrow> bool \<Rightarrow> nat \<Rightarrow> bool" where
  "kills_source w w' timeout x \<longleftrightarrow>
     (\<exists>a s. alive w a s \<and> s_timeout s = timeout \<and> s_object s = x \<and>
        e_heap w' = (e_heap w)(a \<mapsto> s\<lparr>s_dead := True, s_next := e_free w\<rparr>) \<and> e_epoll w' (s_fd s) = None)"

lemma kills_registered:
  assumes "edbus_inv lib w" "kills_source w w' timeout x"
  shows "registered w' t y \<longleftrightarrow> registered w t y \<and> (t, y) \<noteq> (timeout, x)"
proof -
  from assms(2) obtain a s where s: "alive w a s" "s_timeout s = timeout" "s_object s = x"
    "e_heap w' = (e_heap w)(a \<mapsto> s\<lparr>s_dead := True, s_next := e_free w\<rparr>)" by (auto simp: kills_source_def)
  have live: "alive w' b u \<longleftrightarrow> b \<noteq> a \<and> alive w b u" for b u using s(4) by (auto simp: alive_def)
  have unique: "b = a \<longleftrightarrow> s_timeout u = timeout \<and> s_object u = x" if "alive w b u" for b u
  proof
    assume "b = a"
    then show "s_timeout u = timeout \<and> s_object u = x" using that s(1-3) by (auto simp: alive_def)
  next
    assume "s_timeout u = timeout \<and> s_object u = x"
    moreover have "data_of lib w u = b" "data_of lib w s = a" using inv_alive [OF assms(1)] that s(1) by blast+
    ultimately show "b = a" using s(2,3) by (auto simp: data_of_def)
  qed
  have "alive w' b u \<longleftrightarrow> alive w b u \<and> \<not> (s_timeout u = timeout \<and> s_object u = x)" for b u
    using live unique by blast
  then show ?thesis unfolding registered_def by blast
qed

lemma registered_source:
  assumes "edbus_inv lib w" "registered w timeout x"
  obtains a s where "alive w a s" "s_timeout s = timeout" "s_object s = x" "a \<noteq> 0"
    "(if timeout then timeout_get_data lib (e_dbus w) x else watch_get_data lib (e_dbus w) x) = a" "timeout \<longrightarrow> s_dupped s"
    "s_dupped s \<longrightarrow> s_fd s \<in> set (e_owned w)"
proof -
  from assms(2) obtain a s where s: "alive w a s" "s_timeout s = timeout" "s_object s = x" by (auto simp: registered_def)
  from inv_alive [OF assms(1) s(1)] have "data_of lib w s = a" "a \<noteq> 0" "s_timeout s \<longrightarrow> s_dupped s" by blast+
  moreover have "s_dupped s \<longrightarrow> s_fd s \<in> set (e_owned w)" using inv_owned [OF assms(1)] s(1) by auto
  ultimately show thesis using that [OF s] s by (auto simp: data_of_def)
qed

lemma registered_watch:
  assumes "edbus_inv lib w" "registered w False x"
  shows "\<exists>a s. alive w a s \<and> \<not> s_timeout s \<and> s_object s = x \<and> a \<noteq> 0 \<and> watch_get_data lib (e_dbus w) x = a"
proof (rule registered_source [OF assms])
  fix a s
  assume s: "alive w a s" "s_timeout s = False" "s_object s = x" "a \<noteq> 0"
    "(if False then timeout_get_data lib (e_dbus w) x else watch_get_data lib (e_dbus w) x) = a"
  then show ?thesis by (intro exI [of _ a] exI [of _ s]) simp
qed

lemma registered_timeout:
  assumes "edbus_inv lib w" "registered w True x"
  shows "\<exists>a s. alive w a s \<and> s_timeout s \<and> s_object s = x \<and> a \<noteq> 0 \<and> timeout_get_data lib (e_dbus w) x = a \<and>
    s_dupped s \<and> s_fd s \<in> set (e_owned w)"
proof (rule registered_source [OF assms])
  fix a s
  assume "alive w a s" "s_timeout s = True" "s_object s = x" "a \<noteq> 0"
    "(if True then timeout_get_data lib (e_dbus w) x else watch_get_data lib (e_dbus w) x) = a"
    "True \<longrightarrow> s_dupped s" "s_dupped s \<longrightarrow> s_fd s \<in> set (e_owned w)"
  then show ?thesis by (intro exI [of _ a] exI [of _ s]) simp
qed

lemma remove_watch_spec:
  assumes inv: "edbus_inv lib w" and "registered w False x"
  shows "\<exists>w'. shl_edbus_remove_watch lib x w = Some w' \<and> edbus_inv lib w' \<and> kills_source w w' False x"
proof -
  from registered_watch [OF assms] obtain a s where
    s: "alive w a s" "\<not> s_timeout s" "s_object s = x" "a \<noteq> 0" "watch_get_data lib (e_dbus w) x = a" by auto
  let ?w' = "w\<lparr>e_heap := (e_heap w)(a \<mapsto> s\<lparr>s_dead := True, s_next := e_free w\<rparr>), e_free := a,
      e_epoll := (e_epoll w)(s_fd s := None), e_owned := (if s_dupped s then removeAll (s_fd s) (e_owned w) else e_owned w),
      e_timers := (if s_dupped s then (e_timers w)(s_fd s := None) else e_timers w)\<rparr>"
  have "shl_edbus_remove_watch lib x w = Some ?w'"
    using s by (simp add: shl_edbus_remove_watch_def shl_edbus_kill_source_def shl_edbus_unwatch_def close_owned_def alive_def Let_def)
  moreover have "edbus_inv lib ?w'"
    using edbus_invD(5) [OF inv] by (intro inv_kill [OF inv s(1)]) auto
  moreover have "kills_source w ?w' False x"
    using s unfolding kills_source_def by (intro exI [of _ a] exI [of _ s]) simp
  ultimately show ?thesis by blast
qed

lemma remove_timeout_spec:
  assumes inv: "edbus_inv lib w" and "registered w True x"
  shows "\<exists>w'. shl_edbus_remove_timeout lib x w = Some w' \<and> edbus_inv lib w' \<and> kills_source w w' True x"
proof -
  from registered_timeout [OF assms] obtain a s where
    s: "alive w a s" "s_timeout s" "s_object s = x" "a \<noteq> 0" "timeout_get_data lib (e_dbus w) x = a" "s_dupped s" by auto
  let ?w' = "w\<lparr>e_heap := (e_heap w)(a \<mapsto> s\<lparr>s_dead := True, s_next := e_free w\<rparr>), e_free := a,
      e_epoll := (e_epoll w)(s_fd s := None), e_owned := removeAll (s_fd s) (e_owned w),
      e_timers := (e_timers w)(s_fd s := None)\<rparr>"
  have "shl_edbus_remove_timeout lib x w = Some ?w'"
    using s by (simp add: shl_edbus_remove_timeout_def shl_edbus_kill_source_def shl_edbus_unwatch_def close_owned_def alive_def Let_def)
  moreover have "edbus_inv lib ?w'"
    using edbus_invD(5) [OF inv] s(6) by (intro inv_kill [OF inv s(1)]) auto
  moreover have "kills_source w ?w' True x"
    using s unfolding kills_source_def by (intro exI [of _ a] exI [of _ s]) simp
  ultimately show ?thesis by blast
qed

lemma toggle_watch_spec:
  assumes inv: "edbus_inv lib w" and "registered w False x"
  shows "\<exists>w'. shl_edbus_toggle_watch lib x w = Some w' \<and> edbus_inv lib w' \<and> e_heap w' = e_heap w"
proof -
  from registered_watch [OF assms] obtain a s where
    s: "alive w a s" "\<not> s_timeout s" "s_object s = x" "a \<noteq> 0" "watch_get_data lib (e_dbus w) x = a" by auto
  from inv_alive [OF inv s(1)] obtain ev where ev: "e_epoll w (s_fd s) = Some (ev, a)" .
  let ?ev = "shl_edbus_get_watch_events lib s (e_dbus w) OR EPOLLHUP OR EPOLLERR"
  let ?w' = "w\<lparr>e_epoll := (e_epoll w)(s_fd s \<mapsto> (?ev, a))\<rparr>"
  have "shl_edbus_toggle_watch lib x w = Some ?w'"
    using s ev by (simp add: shl_edbus_toggle_watch_def shl_edbus_rewatch_def alive_def)
  moreover have "edbus_inv lib ?w'"
    using edbus_invD(5) [OF inv] by (intro inv_retune [OF inv s(1), of _ ?ev]) (simp_all add: data_of_def)
  ultimately show ?thesis by simp
qed

lemma toggle_timeout_spec:
  assumes inv: "edbus_inv lib w" and "registered w True x"
  shows "\<exists>w'. shl_edbus_toggle_timeout lib fails x w = Some w' \<and> edbus_inv lib w' \<and> e_heap w' = e_heap w"
proof -
  from registered_timeout [OF assms] obtain a s where
    s: "alive w a s" "s_timeout s" "s_object s = x" "a \<noteq> 0" "timeout_get_data lib (e_dbus w) x = a"
      "s_fd s \<in> set (e_owned w)" by auto
  obtain t where t: "dom t \<subseteq> set (e_owned w)" "shl_edbus_toggle_timeout lib fails x w = Some (w\<lparr>e_timers := t\<rparr>)"
  proof (cases fails)
    case None
    obtain tm where "shl_edbus_adjust_timeout lib None s w = (w\<lparr>e_timers := (e_timers w)(s_fd s \<mapsto> tm)\<rparr>, ok)"
      by (rule adjust_timeout_sets)
    then show ?thesis
      using that [of "(e_timers w)(s_fd s \<mapsto> tm)"] s edbus_invD(5) [OF inv] None
      by (simp add: shl_edbus_toggle_timeout_def alive_def)
  next
    case (Some e)
    then show ?thesis
      using that [of "e_timers w"] s edbus_invD(5) [OF inv]
      by (simp add: shl_edbus_toggle_timeout_def alive_def)
  qed
  have "edbus_inv lib (w\<lparr>e_timers := t\<rparr>)"
    using t(1) by (intro inv_retune [OF inv s(1)]) (simp_all add: data_of_def)
  with t(2) show ?thesis by simp
qed

subsection \<open>What libdbus may do\<close>

text \<open>
  libdbus adds objects that are not registered, removes and toggles registered ones, and changes its own
  state without touching the data pointers. Timers that are armed may expire at any time.
\<close>

inductive edbus_step :: "'d dbus_lib \<Rightarrow> 'd edbus \<Rightarrow> 'd edbus \<Rightarrow> bool" for lib where
  step_add_watch: "\<not> registered w False x \<Longrightarrow> fresh_sys w sys \<Longrightarrow> shl_edbus_add_watch lib sys x w = (w', b) \<Longrightarrow> edbus_step lib w w'"
| step_remove_watch: "registered w False x \<Longrightarrow> shl_edbus_remove_watch lib x w = Some w' \<Longrightarrow> edbus_step lib w w'"
| step_toggle_watch: "registered w False x \<Longrightarrow> shl_edbus_toggle_watch lib x w = Some w' \<Longrightarrow> edbus_step lib w w'"
| step_add_timeout: "\<not> registered w True x \<Longrightarrow> fresh_sys w sys \<Longrightarrow> shl_edbus_add_timeout lib sys x w = (w', b) \<Longrightarrow> edbus_step lib w w'"
| step_remove_timeout: "registered w True x \<Longrightarrow> shl_edbus_remove_timeout lib x w = Some w' \<Longrightarrow> edbus_step lib w w'"
| step_toggle_timeout: "registered w True x \<Longrightarrow> shl_edbus_toggle_timeout lib fails x w = Some w' \<Longrightarrow> edbus_step lib w w'"
| step_internal: "(\<And>x. watch_get_data lib d x = watch_get_data lib (e_dbus w) x \<and>
      timeout_get_data lib d x = timeout_get_data lib (e_dbus w) x) \<Longrightarrow> edbus_step lib w (w\<lparr>e_dbus := d\<rparr>)"
| step_expire: "e_timers w fd = Some tm \<Longrightarrow> it_value (t_its tm) \<noteq> (0, 0) \<Longrightarrow>
    edbus_step lib w (w\<lparr>e_timers := (e_timers w)(fd \<mapsto> tm\<lparr>t_expired := True\<rparr>)\<rparr>)"

lemma inv_same:
  assumes "edbus_inv lib w"
    and "\<exists>fl. free_chain (e_heap w') (e_free w') fl \<and> distinct fl \<and> (\<forall>a s. e_heap w' a = Some s \<and> s_dead s \<longrightarrow> a \<in> set fl)"
    and "e_heap w' 0 = None" "alive w' = alive w" "data_of lib w' = data_of lib w"
    and "e_epoll w' = e_epoll w" "e_owned w' = e_owned w" "dom (e_timers w') = dom (e_timers w)"
  shows "edbus_inv lib w'"
  unfolding edbus_inv_def assms(4-8)
  using assms(2,3) edbus_invD(3-5) [OF assms(1)] inv_owned [OF assms(1)] by (intro conjI)

lemma inv_internal:
  assumes "edbus_inv lib w" "\<And>x. watch_get_data lib d x = watch_get_data lib (e_dbus w) x \<and>
      timeout_get_data lib d x = timeout_get_data lib (e_dbus w) x"
  shows "edbus_inv lib (w\<lparr>e_dbus := d\<rparr>)"
proof -
  have "alive (w\<lparr>e_dbus := d\<rparr>) = alive w" by (intro ext) (simp add: alive_def)
  moreover have "data_of lib (w\<lparr>e_dbus := d\<rparr>) = data_of lib w" by (intro ext) (simp add: data_of_def assms(2))
  ultimately show ?thesis
    using edbus_invD(1,2) [OF assms(1)] by (intro inv_same [OF assms(1)]) simp_all
qed

lemma inv_expire:
  assumes "edbus_inv lib w" "e_timers w fd = Some tm"
  shows "edbus_inv lib (w\<lparr>e_timers := (e_timers w)(fd \<mapsto> tm')\<rparr>)"
proof -
  let ?w = "w\<lparr>e_timers := (e_timers w)(fd \<mapsto> tm')\<rparr>"
  have "alive ?w = alive w" "data_of lib ?w = data_of lib w" by (intro ext, simp add: alive_def data_of_def)+
  then show ?thesis
    using edbus_invD(1,2) [OF assms(1)] assms(2) by (intro inv_same [OF assms(1)]) auto
qed

lemma edbus_step_spec:
  assumes "dbus_laws lib" "edbus_inv lib w" "edbus_step lib w w'"
  shows "edbus_inv lib w' \<and> dom (e_heap w) \<subseteq> dom (e_heap w')"
  using assms(3)
proof cases
  case (step_add_watch x sys b)
  from add_watch_spec [OF assms(1,2) this] show ?thesis by (cases b) (auto simp: adds_source_def)
next
  case (step_remove_watch x)
  from remove_watch_spec [OF assms(2) this(1)] step_remove_watch(2) show ?thesis by (auto simp: kills_source_def)
next
  case (step_toggle_watch x)
  from toggle_watch_spec [OF assms(2) this(1)] step_toggle_watch(2) show ?thesis by auto
next
  case (step_add_timeout x sys b)
  from add_timeout_spec [OF assms(1,2) this] show ?thesis by (cases b) (auto simp: adds_source_def)
next
  case (step_remove_timeout x)
  from remove_timeout_spec [OF assms(2) this(1)] step_remove_timeout(2) show ?thesis by (auto simp: kills_source_def)
next
  case (step_toggle_timeout x fails)
  from toggle_timeout_spec [OF assms(2) this(1), of fails] step_toggle_timeout(2) show ?thesis by auto
next
  case (step_internal d)
  then show ?thesis using inv_internal [OF assms(2)] by simp
next
  case (step_expire fd tm)
  then show ?thesis using inv_expire [OF assms(2)] by simp
qed

lemma edbus_run_spec:
  assumes "dbus_laws lib" "(edbus_step lib)\<^sup>*\<^sup>* w w'" "edbus_inv lib w"
  shows "edbus_inv lib w' \<and> dom (e_heap w) \<subseteq> dom (e_heap w')"
  using assms(2)
proof (induction rule: rtranclp_induct)
  case (step w1 w2)
  then show ?case using edbus_step_spec [OF assms(1), of w1 w2] by blast
qed (simp add: assms(3))

text \<open>No step touches the epoll descriptor or the ownership of the connection.\<close>

lemma edbus_step_frame:
  assumes "edbus_step lib w w'"
  shows "e_efd w' = e_efd w \<and> e_owns_bus w' = e_owns_bus w"
  using assms
  by cases
    (auto simp: shl_edbus_add_watch_def shl_edbus_add_timeout_def shl_edbus_remove_watch_def shl_edbus_remove_timeout_def
      shl_edbus_toggle_watch_def shl_edbus_toggle_timeout_def edbus_ops Let_def
      split: option.splits sum.splits if_splits prod.splits Option.bind_splits)

lemma edbus_run_frame:
  assumes "(edbus_step lib)\<^sup>*\<^sup>* w w'"
  shows "e_efd w' = e_efd w \<and> e_owns_bus w' = e_owns_bus w"
  using assms by (induction rule: rtranclp_induct) (auto dest: edbus_step_frame)

end
