(* ===== verification/Shl_Edbus_Life.thy ===== *)
theory Shl_Edbus_Life
  imports Shl_Edbus_Inv
begin

text \<open>
  The life of a D-Bus context: dispatching is safe whatever the handlers do, adding is all or nothing, and from
  \<^verbatim>\<open>shl_edbus_new\<close> over any sequence of steps and dispatches to \<^verbatim>\<open>shl_edbus_free\<close> nothing is leaked.
\<close>

subsection \<open>Dispatching is safe\<close>

text \<open>The handlers of libdbus and of the user return, and act on the context through the callbacks only.\<close>

definition acts_by_callbacks :: "'d dbus_lib \<Rightarrow> ('d edbus \<Rightarrow> 'd edbus option) \<Rightarrow> bool" where
  "acts_by_callbacks lib f \<longleftrightarrow> (\<forall>w. edbus_inv lib w \<longrightarrow> (\<exists>w'. f w = Some w' \<and> (edbus_step lib)\<^sup>*\<^sup>* w w'))"

lemma dispatch_events_spec:
  assumes "dbus_laws lib" "\<And>x flags. acts_by_callbacks lib (watch_handle lib x flags)" "\<And>x. acts_by_callbacks lib (timeout_handle lib x)"
    and "edbus_inv lib w" "snd ` set events \<subseteq> dom (e_heap w)"
  shows "\<exists>w'. foldM (dispatch_event lib) events w = Some w' \<and> (edbus_step lib)\<^sup>*\<^sup>* w w' \<and> edbus_inv lib w'"
  using assms(4,5)
proof (induction events arbitrary: w)
  case (Cons e events)
  then obtain s where s: "e_heap w (snd e) = Some s" by auto
  have "\<exists>w1. dispatch_event lib e w = Some w1 \<and> (edbus_step lib)\<^sup>*\<^sup>* w w1"
    using assms(2,3) Cons.prems(1) s by (auto simp: dispatch_event_def acts_by_callbacks_def)
  then obtain w1 where w1: "dispatch_event lib e w = Some w1" "(edbus_step lib)\<^sup>*\<^sup>* w w1" by blast
  from edbus_run_spec [OF assms(1) w1(2) Cons.prems(1)] have inv: "edbus_inv lib w1" "dom (e_heap w) \<subseteq> dom (e_heap w1)" by blast+
  have "snd ` set events \<subseteq> dom (e_heap w)" using Cons.prems(2) by simp
  then have "snd ` set events \<subseteq> dom (e_heap w1)" using inv(2) by (rule subset_trans)
  from Cons.IH [OF inv(1) this] obtain w' where
    "foldM (dispatch_event lib) events w1 = Some w'" "(edbus_step lib)\<^sup>*\<^sup>* w1 w'" "edbus_inv lib w'" by blast
  then show ?case using w1 rtranclp_trans [OF w1(2)] by auto
qed simp

lemma free_sources_chain:
  assumes "free_chain (e_heap w) (e_free w) fl" "distinct fl"
  shows "free_sources w = Some (w\<lparr>e_heap := (\<lambda>a. if a \<in> set fl then None else e_heap w a), e_free := 0\<rparr>)"
  using assms
proof (induction fl arbitrary: w)
  case Nil
  then show ?case by (subst free_sources.simps) simp
next
  case (Cons a fl)
  then obtain s where s: "e_free w = a" "a \<noteq> 0" "e_heap w a = Some s" "free_chain (e_heap w) (s_next s) fl" "a \<notin> set fl"
    by (auto split: option.splits)
  let ?w = "w\<lparr>e_heap := (e_heap w)(a := None), e_free := s_next s\<rparr>"
  have "free_chain h p l \<Longrightarrow> a \<notin> set l \<Longrightarrow> free_chain (h(a := None)) p l" for h p l
    by (induction l arbitrary: p) (auto split: option.splits)
  then have "free_chain (e_heap ?w) (e_free ?w) fl" using s(4,5) by simp
  from Cons.IH [OF this] Cons.prems(2) have
    "free_sources ?w = Some (w\<lparr>e_heap := (\<lambda>b. if b \<in> set (a # fl) then None else e_heap w b), e_free := 0\<rparr>)"
    by (simp add: fun_eq_iff fun_upd_def cong: if_cong)
  then show ?case using s(1-3) by (subst free_sources.simps) simp
qed

definition without_dead :: "(nat \<rightharpoonup> esource) \<Rightarrow> (nat \<rightharpoonup> esource)" where
  "without_dead h = (\<lambda>a. case h a of None \<Rightarrow> None | Some s \<Rightarrow> if s_dead s then None else Some s)"

lemma free_sources_spec:
  assumes "edbus_inv lib w"
  shows "free_sources w = Some (w\<lparr>e_heap := without_dead (e_heap w), e_free := 0\<rparr>)"
    and "edbus_inv lib (w\<lparr>e_heap := without_dead (e_heap w), e_free := 0\<rparr>)"
proof -
  from inv_chain [OF assms] obtain fl where
    fl: "free_chain (e_heap w) (e_free w) fl" "distinct fl" "\<forall>a s. e_heap w a = Some s \<and> s_dead s \<longrightarrow> a \<in> set fl" .
  have dead: "free_chain h p l \<Longrightarrow> a \<in> set l \<Longrightarrow> \<exists>s. h a = Some s \<and> s_dead s" for h p l a
    by (induction l arbitrary: p) (auto split: option.splits)
  have "(\<lambda>a. if a \<in> set fl then None else e_heap w a) = without_dead (e_heap w)"
    using dead [OF fl(1)] fl(3) by (fastforce simp: fun_eq_iff without_dead_def split: option.splits)
  with free_sources_chain [OF fl(1,2)] show "free_sources w = Some (w\<lparr>e_heap := without_dead (e_heap w), e_free := 0\<rparr>)" by simp
  let ?w = "w\<lparr>e_heap := without_dead (e_heap w), e_free := 0\<rparr>"
  have live: "alive ?w = alive w" by (intro ext) (auto simp: alive_def without_dead_def split: option.splits if_splits)
  have data: "data_of lib ?w = data_of lib w" by (intro ext) (simp add: data_of_def)
  have "\<exists>fl. free_chain (e_heap ?w) (e_free ?w) fl \<and> distinct fl \<and> (\<forall>a s. e_heap ?w a = Some s \<and> s_dead s \<longrightarrow> a \<in> set fl)"
    by (intro exI [of _ "[]"]) (auto simp: without_dead_def split: option.splits if_splits)
  moreover have "e_heap ?w 0 = None" using edbus_invD(2) [OF assms] by (simp add: without_dead_def)
  ultimately show "edbus_inv lib ?w"
    using live data by (intro inv_same [OF assms]) simp_all
qed

primrec bus_result :: "dispatch_status list \<Rightarrow> unit res" where
  "bus_result [] = ok"
| "bus_result (st # sts) =
     (case st of
        DBUS_DISPATCH_COMPLETE \<Rightarrow> ok
      | DBUS_DISPATCH_DATA_REMAINS \<Rightarrow> bus_result sts
      | DBUS_DISPATCH_NEED_MEMORY \<Rightarrow> Inl ENOMEM
      | DBUS_DISPATCH_OTHER \<Rightarrow> Inl EIO)"

lemma bus_dispatch_spec:
  assumes "dbus_laws lib" "\<forall>c \<in> set bus. acts_by_callbacks lib (fst c)" "\<exists>c \<in> set bus. snd c \<noteq> DBUS_DISPATCH_DATA_REMAINS"
    and "edbus_inv lib w"
  shows "\<exists>w'. bus_dispatch bus w = Some (w', bus_result (map snd bus)) \<and> (edbus_step lib)\<^sup>*\<^sup>* w w'"
  using assms(2-4)
proof (induction bus arbitrary: w)
  case (Cons c bus)
  then obtain w1 where w1: "fst c w = Some w1" "(edbus_step lib)\<^sup>*\<^sup>* w w1" by (auto simp: acts_by_callbacks_def)
  from edbus_run_spec [OF assms(1) w1(2) Cons.prems(3)] have inv: "edbus_inv lib w1" by blast
  show ?case
  proof (cases "snd c = DBUS_DISPATCH_DATA_REMAINS")
    case True
    then have "\<exists>w'. bus_dispatch bus w1 = Some (w', bus_result (map snd bus)) \<and> (edbus_step lib)\<^sup>*\<^sup>* w1 w'"
      using Cons.prems by (intro Cons.IH inv) auto
    then show ?thesis using w1 True rtranclp_trans [OF w1(2)] by auto
  next
    case False
    then show ?thesis using w1 by (cases "snd c") auto
  qed
qed simp

text \<open>What \<^verbatim>\<open>epoll_wait\<close> documents: at most as many events as there is room for, all of members of the set.\<close>

definition epoll_reports :: "'d epoll_wait \<Rightarrow> bool" where
  "epoll_reports wait \<longleftrightarrow>
     (\<forall>n ms w events. wait n ms w = Inr events \<longrightarrow>
        length events \<le> n \<and> (\<forall>e \<in> set events. \<exists>fd ev. e_epoll w fd = Some (ev, snd e)))"

definition bus_acts :: "'d dbus_lib \<Rightarrow> 'd bus_calls \<Rightarrow> bool" where
  "bus_acts lib bus \<longleftrightarrow>
     (\<forall>c \<in> set bus. acts_by_callbacks lib (fst c)) \<and> (\<exists>c \<in> set bus. snd c \<noteq> DBUS_DISPATCH_DATA_REMAINS)"

definition handlers_act :: "'d dbus_lib \<Rightarrow> bool" where
  "handlers_act lib \<longleftrightarrow>
     (\<forall>x flags. acts_by_callbacks lib (watch_handle lib x flags)) \<and> (\<forall>x. acts_by_callbacks lib (timeout_handle lib x))"

definition free_dead :: "'d edbus \<Rightarrow> 'd edbus" where
  "free_dead w = w\<lparr>e_heap := without_dead (e_heap w), e_free := 0\<rparr>"

lemma free_dead_spec:
  assumes "edbus_inv lib w"
  shows "free_sources w = Some (free_dead w)" "edbus_inv lib (free_dead w)"
  using free_sources_spec [OF assms] by (simp_all add: free_dead_def)

lemma dispatch_spec:
  assumes "dbus_laws lib" "handlers_act lib" "bus_acts lib bus" "epoll_reports wait" "edbus_inv lib w"
    and "wait 64 ms w = Inr events"
  shows "\<exists>w1 w'. shl_edbus_dispatch lib wait bus ms w = Some (w', bus_result (map snd bus)) \<and>
    foldM (dispatch_event lib) events w = Some w1 \<and> bus_dispatch bus (free_dead w1) = Some (w', bus_result (map snd bus)) \<and>
    (edbus_step lib)\<^sup>*\<^sup>* w w1 \<and> (edbus_step lib)\<^sup>*\<^sup>* (free_dead w1) w' \<and> edbus_inv lib w1 \<and> edbus_inv lib w'"
proof -
  have "\<forall>e \<in> set events. \<exists>fd ev. e_epoll w fd = Some (ev, snd e)" using assms(4,6) by (auto simp: epoll_reports_def)
  then have "snd ` set events \<subseteq> dom (e_heap w)"
    using inv_epoll [OF assms(5)] by (fastforce simp: alive_def)
  from dispatch_events_spec [OF assms(1) _ _ assms(5) this] assms(2) obtain w1 where
    w1: "foldM (dispatch_event lib) events w = Some w1" "(edbus_step lib)\<^sup>*\<^sup>* w w1" "edbus_inv lib w1"
    by (auto simp: handlers_act_def)
  note freed = free_dead_spec [OF w1(3)]
  from bus_dispatch_spec [OF assms(1) _ _ freed(2)] assms(3) obtain w' where
    w': "bus_dispatch bus (free_dead w1) = Some (w', bus_result (map snd bus))" "(edbus_step lib)\<^sup>*\<^sup>* (free_dead w1) w'"
    by (auto simp: bus_acts_def)
  from edbus_run_spec [OF assms(1) w'(2) freed(2)] have "edbus_inv lib w'" by blast
  moreover have "shl_edbus_dispatch lib wait bus ms w = Some (w', bus_result (map snd bus))"
    using w1(1) freed(1) w'(1) assms(6) by (simp add: shl_edbus_dispatch_def)
  ultimately show ?thesis using w1 w' by blast
qed


text \<open>
  A library that keeps the data pointers of its watches and of its timeouts in two lists, and whose watch handler
  removes the watch it handles. \<open>has_source\<close> tells from the list whether an object is registered.
\<close>

type_synonym demo_state = "(nat \<times> nat) list \<times> (nat \<times> nat) list"

definition data_in :: "(nat \<times> nat) list \<Rightarrow> nat \<Rightarrow> nat" where
  "data_in l x = (case map_of l x of None \<Rightarrow> 0 | Some a \<Rightarrow> a)"

definition demo_base :: "demo_state dbus_lib" where
  "demo_base = \<lparr>watch_enabled = (\<lambda>_ _. True), watch_flags = (\<lambda>_ _. 1), watch_fd = (\<lambda>_ x. int x),
     watch_get_data = (\<lambda>d. data_in (fst d)), watch_set_data = (\<lambda>x a d. ((x, a) # fst d, snd d)),
     timeout_enabled = (\<lambda>_ _. True), timeout_interval = (\<lambda>_ _. 25),
     timeout_get_data = (\<lambda>d. data_in (snd d)), timeout_set_data = (\<lambda>x a d. (fst d, (x, a) # snd d)),
     watch_handle = (\<lambda>_ _. Some), timeout_handle = (\<lambda>_. Some)\<rparr>"

definition has_source :: "demo_state edbus \<Rightarrow> bool \<Rightarrow> nat \<Rightarrow> bool" where
  "has_source w timeout x =
     (case e_heap w (data_in ((if timeout then snd else fst) (e_dbus w)) x) of
        None \<Rightarrow> False
      | Some s \<Rightarrow> \<not> s_dead s \<and> s_timeout s = timeout \<and> s_object s = x)"

definition demo_remove :: "bool \<Rightarrow> nat \<Rightarrow> demo_state edbus \<Rightarrow> demo_state edbus option" where
  "demo_remove timeout x w =
     (if \<not> has_source w timeout x then Some w
      else if timeout then shl_edbus_remove_timeout demo_base x w
      else shl_edbus_remove_watch demo_base x w)"

definition bus0 :: "demo_state dbus_lib" where
  "bus0 = demo_base\<lparr>watch_handle := (\<lambda>x _. demo_remove False x)\<rparr>"

lemma bus0_sel [simp]:
  "watch_get_data bus0 d x = data_in (fst d) x" "timeout_get_data bus0 d x = data_in (snd d) x"
  "watch_handle bus0 x flags = demo_remove False x" "timeout_handle bus0 x = Some" "watch_fd bus0 d x = int x"
  by (simp_all add: bus0_def demo_base_def)

lemma bus0_laws: "dbus_laws bus0"
  by (simp add: dbus_laws_def bus0_def demo_base_def data_in_def)

lemma bus0_remove:
  "shl_edbus_remove_watch demo_base = shl_edbus_remove_watch bus0"
  "shl_edbus_remove_timeout demo_base = shl_edbus_remove_timeout bus0"
  by (intro ext, simp add: shl_edbus_remove_watch_def shl_edbus_remove_timeout_def bus0_def)+

lemma has_source_registered:
  assumes "edbus_inv bus0 w"
  shows "has_source w timeout x \<longleftrightarrow> registered w timeout x"
proof
  show "has_source w timeout x \<Longrightarrow> registered w timeout x"
    by (auto simp: has_source_def registered_def alive_def split: option.splits)
  assume "registered w timeout x"
  then obtain a s where s: "alive w a s" "s_timeout s = timeout" "s_object s = x" by (auto simp: registered_def)
  from inv_alive [OF assms s(1)] have "data_of bus0 w s = a" by blast
  then show "has_source w timeout x" using s by (auto simp: has_source_def data_of_def alive_def)
qed


lemma demo_remove_spec:
  assumes "edbus_inv bus0 w"
  shows "\<exists>w'. demo_remove timeout x w = Some w' \<and> (edbus_step bus0)\<^sup>*\<^sup>* w w' \<and> e_dbus w' = e_dbus w \<and>
    (\<forall>t y. registered w' t y \<longleftrightarrow> registered w t y \<and> (t, y) \<noteq> (timeout, x))"
proof (cases "registered w timeout x")
  case False
  then have "demo_remove timeout x w = Some w" by (simp add: demo_remove_def has_source_registered [OF assms])
  then show ?thesis using False by blast
next
  case True
  note has = True [folded has_source_registered [OF assms]]
  obtain w' where w': "demo_remove timeout x w = Some w'" "edbus_step bus0 w w'" "kills_source w w' timeout x"
  proof (cases timeout)
    case t: True
    then have r: "registered w True x" using True by simp
    from remove_timeout_spec [OF assms r] obtain w' where "shl_edbus_remove_timeout bus0 x w = Some w'" "kills_source w w' True x"
      by blast
    with that has t step_remove_timeout [OF r this(1)] show ?thesis by (simp add: demo_remove_def bus0_remove)
  next
    case t: False
    then have r: "registered w False x" using True by simp
    from remove_watch_spec [OF assms r] obtain w' where "shl_edbus_remove_watch bus0 x w = Some w'" "kills_source w w' False x"
      by blast
    with that has t step_remove_watch [OF r this(1)] show ?thesis by (simp add: demo_remove_def bus0_remove)
  qed
  moreover have "e_dbus w' = e_dbus w"
    using w'(1) by (auto simp: demo_remove_def shl_edbus_remove_timeout_def shl_edbus_remove_watch_def edbus_ops Let_def
        split: if_splits Option.bind_splits)
  ultimately show ?thesis using kills_registered [OF assms w'(3)] by blast
qed

lemma bus0_acts: "handlers_act bus0"
  using demo_remove_spec by (fastforce simp: handlers_act_def acts_by_callbacks_def)

definition sys0 :: "nat \<Rightarrow> errno option \<Rightarrow> esys" where
  "sys0 a fails = \<lparr>y_calloc = Some a, y_add1 = fails, y_add2 = None, y_dup = Inr 9, y_timerfd = Inr 10, y_settime = None\<rparr>"

definition world0 :: "demo_state edbus" where
  "world0 = fst (shl_edbus_add_watch bus0 (sys0 4096 None) 5 (edbus_empty ([], [])))"

lemma edbus_empty_inv: "edbus_inv lib (edbus_empty d)"
  by (simp add: edbus_inv_def edbus_empty_def alive_def) (rule exI [of _ "[]"], simp)

lemma edbus_empty_not_registered [simp]: "\<not> registered (edbus_empty d) timeout x"
  by (simp add: registered_def edbus_empty_def alive_def)

lemma world0_eq:
  "world0 = (edbus_empty ([(5, 4096)], []))\<lparr>
     e_heap := [4096 \<mapsto> \<lparr>s_next = 0, s_object = 5, s_fd = 5, s_timeout = False, s_dupped = False, s_dead = False\<rparr>],
     e_epoll := [5 \<mapsto> (25, 4096)]\<rparr>"
  by (simp add: world0_def sys0_def shl_edbus_add_watch_def shl_edbus_watch_def shl_edbus_get_watch_events_def edbus_empty_def
      bus0_def demo_base_def event_bits Let_def)

lemma world0_inv: "edbus_inv bus0 world0"
proof -
  have "fresh_sys (edbus_empty ([], [])) (sys0 4096 None)" by (simp add: fresh_sys_def edbus_empty_def sys0_def)
  from add_watch_spec [OF bus0_laws edbus_empty_inv edbus_empty_not_registered this surjective_pairing]
  show "edbus_inv bus0 world0" by (simp add: world0_def)
qed

text \<open>The descriptor 5 is readable while it is watched.\<close>

definition wait0 :: "demo_state epoll_wait" where
  "wait0 n ms w = (case e_epoll w 5 of None \<Rightarrow> Inl EINTR | Some (ev, a) \<Rightarrow> Inr (take n [(EPOLLIN, a)]))"

lemma wait0_reports: "epoll_reports wait0"
  by (auto simp: epoll_reports_def wait0_def take_Cons' split: option.splits if_splits)


text \<open>
  C31. Adding is all or nothing: a watch or timeout that libdbus adds gets exactly one new live source, or the
  callback reports failure and the context is as before, whichever call failed (the allocation, the
  timer, the duplicate of a descriptor that is already watched, either attempt to watch). The invariant
  holds afterwards: the context owns exactly the duplicated descriptors of its live sources.
\<close>

theorem edbus_add_all_or_nothing:
  assumes "dbus_laws lib" "edbus_inv lib w" "\<not> registered w timeout x" "fresh_sys w sys"
  shows "case (if timeout then shl_edbus_add_timeout lib sys x w else shl_edbus_add_watch lib sys x w) of (w', b) \<Rightarrow>
    edbus_inv lib w' \<and> (if b then adds_source w w' timeout x \<and> registered w' timeout x else w' = w)"
proof -
  obtain w' b where add: "(if timeout then shl_edbus_add_timeout lib sys x w else shl_edbus_add_watch lib sys x w) = (w', b)"
    by (metis surj_pair)
  have "edbus_inv lib w' \<and> (if b then adds_source w w' timeout x else w' = w)"
    using add add_watch_spec [OF assms(1,2), of x sys w' b] add_timeout_spec [OF assms(1,2), of x sys w' b] assms(3,4)
    by (cases timeout) simp_all
  moreover have "adds_source w w' timeout x \<Longrightarrow> registered w' timeout x"
    by (auto simp: adds_source_def registered_def alive_def)
  ultimately show ?thesis using add by auto
qed

theorem edbus_add_all_or_nothing_witness:
  "case shl_edbus_add_timeout bus0 (sys0 8192 (Some ENOMEM)) 3 world0 of (w', b) \<Rightarrow>
     edbus_inv bus0 w' \<and> (if b then adds_source world0 w' True 3 \<and> registered w' True 3 else w' = world0)"
proof -
  have "\<not> registered world0 True 3" "fresh_sys world0 (sys0 8192 (Some ENOMEM))"
    by (auto simp: registered_def fresh_sys_def alive_def world0_eq sys0_def edbus_empty_def split: if_splits)
  from edbus_add_all_or_nothing [OF bus0_laws world0_inv this] show ?thesis by simp
qed

subsection \<open>From creation to release\<close>

text \<open>
  What libdbus documents of its setters: setting the callbacks adds watches or timeouts through them and may fail, unsetting
  removes all watches or all timeouts through them.
\<close>

definition bus_setup_ok :: "'d dbus_lib \<Rightarrow> 'd bus_setup \<Rightarrow> bool" where
  "bus_setup_ok lib setup \<longleftrightarrow>
     (\<forall>w. edbus_inv lib w \<longrightarrow>
        (\<exists>w' b. set_watch_functions setup w = Some (w', b) \<and> (edbus_step lib)\<^sup>*\<^sup>* w w') \<and>
        (\<exists>w' b. set_timeout_functions setup w = Some (w', b) \<and> (edbus_step lib)\<^sup>*\<^sup>* w w') \<and>
        (\<exists>w'. unset_timeout_functions setup w = Some w' \<and> (edbus_step lib)\<^sup>*\<^sup>* w w' \<and> (\<forall>x. \<not> registered w' True x)) \<and>
        (\<exists>w'. unset_watch_functions setup w = Some w' \<and> (edbus_step lib)\<^sup>*\<^sup>* w w' \<and> (\<forall>x. \<not> registered w' False x) \<and>
           (\<forall>x. registered w' True x \<longrightarrow> registered w True x)))"

text \<open>No descriptor is left open and no timer armed.\<close>

definition edbus_released :: "'d edbus \<Rightarrow> bool" where
  "edbus_released w \<longleftrightarrow> e_owned w = [] \<and> e_timers w = (\<lambda>_. None) \<and> e_epoll w = (\<lambda>_. None) \<and> e_efd w = None"

text \<open>What happens to a context between its creation and its release: steps and calls of \<^verbatim>\<open>shl_edbus_dispatch\<close>.\<close>

inductive edbus_session :: "'d dbus_lib \<Rightarrow> 'd epoll_wait \<Rightarrow> 'd edbus \<Rightarrow> 'd edbus \<Rightarrow> bool" for lib wait w0 where
  session_start: "edbus_session lib wait w0 w0"
| session_step: "edbus_session lib wait w0 w \<Longrightarrow> edbus_step lib w w' \<Longrightarrow> edbus_session lib wait w0 w'"
| session_dispatch: "edbus_session lib wait w0 w \<Longrightarrow> bus_acts lib bus \<Longrightarrow> shl_edbus_dispatch lib wait bus ms w = Some (w', r) \<Longrightarrow>
    edbus_session lib wait w0 w'"

lemma edbus_inv_ctx [simp]:
  "edbus_inv lib (w\<lparr>e_efd := efd\<rparr>) = edbus_inv lib w" "edbus_inv lib (w\<lparr>e_owns_bus := b\<rparr>) = edbus_inv lib w"
  by (simp_all add: edbus_inv_def alive_def data_of_def)

lemma no_registered:
  assumes inv: "edbus_inv lib w" and none: "\<forall>timeout x. \<not> registered w timeout x"
  shows "e_owned w = []" "e_timers w = (\<lambda>_. None)" "e_epoll w = (\<lambda>_. None)" "without_dead (e_heap w) = (\<lambda>_. None)"
    "\<forall>s \<in> ran (e_heap w). s_dead s"
proof -
  have dead: "\<not> alive w a s" for a s using none by (auto simp: registered_def)
  then show owned: "e_owned w = []" using inv_owned [OF inv] by simp
  then show "e_timers w = (\<lambda>_. None)" using edbus_invD(5) [OF inv] by simp
  have "e_epoll w fd = None" for fd using inv_epoll [OF inv, of fd] dead by (cases "e_epoll w fd") auto
  then show "e_epoll w = (\<lambda>_. None)" by auto
  show "without_dead (e_heap w) = (\<lambda>_. None)" "\<forall>s \<in> ran (e_heap w). s_dead s"
    using dead by (auto simp: without_dead_def alive_def ran_def fun_eq_iff split: option.splits)
qed

lemma unset_spec:
  assumes "dbus_laws lib" "bus_setup_ok lib setup" "edbus_inv lib w"
  shows "\<exists>w1 w2. unset_timeout_functions setup w = Some w1 \<and> unset_watch_functions setup w1 = Some w2 \<and>
    (edbus_step lib)\<^sup>*\<^sup>* w w2 \<and> edbus_inv lib w2 \<and> (\<forall>timeout x. \<not> registered w2 timeout x)"
proof -
  from assms(2,3) obtain w1 where w1: "unset_timeout_functions setup w = Some w1" "(edbus_step lib)\<^sup>*\<^sup>* w w1" "\<forall>x. \<not> registered w1 True x"
    by (auto simp: bus_setup_ok_def)
  from edbus_run_spec [OF assms(1) w1(2) assms(3)] have inv: "edbus_inv lib w1" by blast
  with assms(2) obtain w2 where w2: "unset_watch_functions setup w1 = Some w2" "(edbus_step lib)\<^sup>*\<^sup>* w1 w2"
    "\<forall>x. \<not> registered w2 False x" "\<forall>x. registered w2 True x \<longrightarrow> registered w1 True x" unfolding bus_setup_ok_def by blast
  from edbus_run_spec [OF assms(1) w2(2) inv] have "edbus_inv lib w2" by blast
  moreover have "\<forall>timeout x. \<not> registered w2 timeout x" using w1(3) w2(3,4) by (metis (full_types))
  ultimately show ?thesis using w1(1,2) w2(1,2) rtranclp_trans [OF w1(2) w2(2)] by blast
qed

lemma new_error_spec:
  assumes "dbus_laws lib" "bus_setup_ok lib setup" "edbus_inv lib w"
  shows "\<exists>w'. new_error setup w = Some w' \<and> edbus_released w' \<and> (\<forall>s \<in> ran (e_heap w'). s_dead s) \<and>
    dom (e_heap w) \<subseteq> dom (e_heap w')"
proof -
  from unset_spec [OF assms] obtain w1 w2 where w: "unset_timeout_functions setup w = Some w1"
    "unset_watch_functions setup w1 = Some w2" "(edbus_step lib)\<^sup>*\<^sup>* w w2" "edbus_inv lib w2" "\<forall>timeout x. \<not> registered w2 timeout x"
    by blast
  from edbus_run_spec [OF assms(1) w(3) assms(3)] have "dom (e_heap w) \<subseteq> dom (e_heap w2)" by blast
  with w no_registered [OF w(4,5)] show ?thesis
    by (auto simp: new_error_def close_efd_def edbus_released_def)
qed

lemma shl_edbus_free_spec:
  assumes "dbus_laws lib" "bus_setup_ok lib setup" "edbus_inv lib w"
  shows "\<exists>w'. shl_edbus_free setup w c = Some (w', \<lparr>c_refs = c_refs c - 1, c_open = (c_open c \<and> \<not> e_owns_bus w)\<rparr>) \<and>
    e_heap w' = (\<lambda>_. None) \<and> edbus_released w'"
proof -
  from unset_spec [OF assms] obtain w1 w2 where w: "unset_timeout_functions setup w = Some w1"
    "unset_watch_functions setup w1 = Some w2" "(edbus_step lib)\<^sup>*\<^sup>* w w2" "edbus_inv lib w2" "\<forall>timeout x. \<not> registered w2 timeout x"
    by blast
  with no_registered [OF w(4,5)] free_dead_spec(1) [OF w(4)] edbus_run_frame [OF w(3)] show ?thesis
    by (cases c) (auto simp: shl_edbus_free_def free_dead_def close_efd_def edbus_released_def)
qed

lemma session_inv:
  assumes "dbus_laws lib" "handlers_act lib" "epoll_reports wait" "edbus_inv lib w0" "edbus_session lib wait w0 w"
  shows "edbus_inv lib w \<and> e_efd w = e_efd w0 \<and> e_owns_bus w = e_owns_bus w0"
  using assms(5)
proof induction
  case session_start
  then show ?case using assms(4) by simp
next
  case (session_step w w')
  then show ?case using edbus_step_spec [OF assms(1)] edbus_step_frame by metis
next
  case (session_dispatch w bus ms w' r)
  then have inv: "edbus_inv lib w" by simp
  show ?case
  proof (cases "wait 64 ms w")
    case (Inl e)
    then show ?thesis using session_dispatch by (auto simp: shl_edbus_dispatch_def split: if_splits)
  next
    case (Inr events)
    from dispatch_spec [OF assms(1,2) session_dispatch.hyps(2) assms(3) inv Inr] session_dispatch.hyps(3) obtain w1 where
      "(edbus_step lib)\<^sup>*\<^sup>* w w1" "(edbus_step lib)\<^sup>*\<^sup>* (free_dead w1) w'" "edbus_inv lib w'" by auto
    then show ?thesis using edbus_run_frame [of lib w w1] edbus_run_frame [of lib "free_dead w1" w'] session_dispatch.IH
      by (simp add: free_dead_def)
  qed
qed

lemma shl_edbus_new_spec:
  assumes "dbus_laws lib" "bus_setup_ok lib setup"
  shows "\<exists>w r. shl_edbus_new calloc epoll_create setup d c = Some (w, c\<lparr>c_refs := c_refs c + (case r of Inl _ \<Rightarrow> 0 | Inr _ \<Rightarrow> 1)\<rparr>, r) \<and>
    (case r of Inl e \<Rightarrow> edbus_released w \<and> (\<forall>s \<in> ran (e_heap w). s_dead s)
     | Inr efd \<Rightarrow> epoll_create = Inr efd \<and> edbus_inv lib w \<and> e_efd w = Some efd \<and> \<not> e_owns_bus w)"
proof -
  have inv0: "edbus_inv lib (edbus_empty d)" by (rule edbus_empty_inv)
  have fail: "\<exists>w'. new_error setup w = Some w' \<and> edbus_released w' \<and> (\<forall>s \<in> ran (e_heap w'). s_dead s)" if "edbus_inv lib w" for w
    using new_error_spec [OF assms that] by blast
  show ?thesis
  proof (cases "calloc \<and> \<not> isl epoll_create")
    case False
    then show ?thesis
      using fail [OF inv0] by (cases epoll_create; cases calloc)
        (auto simp: shl_edbus_new_def edbus_released_def edbus_empty_def Let_def intro!: exI [of _ "Inl _"])
  next
    case True
    then obtain efd where efd: "calloc" "epoll_create = Inr efd" by (cases epoll_create) auto
    let ?w = "edbus_empty d\<lparr>e_efd := Some efd\<rparr>"
    have "edbus_inv lib ?w" using inv0 by simp
    with assms(2) obtain w1 b1 where w1: "set_watch_functions setup ?w = Some (w1, b1)" "(edbus_step lib)\<^sup>*\<^sup>* ?w w1"
      unfolding bus_setup_ok_def by blast
    from edbus_run_spec [OF assms(1) w1(2) \<open>edbus_inv lib ?w\<close>] have inv1: "edbus_inv lib w1" by blast
    with assms(2) obtain w2 b2 where w2: "set_timeout_functions setup w1 = Some (w2, b2)" "(edbus_step lib)\<^sup>*\<^sup>* w1 w2"
      unfolding bus_setup_ok_def by blast
    from edbus_run_spec [OF assms(1) w2(2) inv1] have inv2: "edbus_inv lib w2" by blast
    have frame: "e_efd w2 = Some efd" "\<not> e_owns_bus w2"
      using edbus_run_frame [OF w1(2)] edbus_run_frame [OF w2(2)] by (simp_all add: edbus_empty_def)
    consider "\<not> b1" | "b1" "\<not> b2" | "b1" "b2" by blast
    then show ?thesis
    proof cases
      case 1
      then show ?thesis using efd w1(1) fail [OF inv1] by (auto simp: shl_edbus_new_def intro!: exI [of _ "Inl ENOMEM"])
    next
      case 2
      then show ?thesis using efd w1(1) w2(1) fail [OF inv2] by (auto simp: shl_edbus_new_def intro!: exI [of _ "Inl ENOMEM"])
    next
      case 3
      then show ?thesis using efd w1(1) w2(1) inv2 frame by (auto simp: shl_edbus_new_def intro!: exI [of _ "Inr efd"])
    qed
  qed
qed

text \<open>
  A context that is used correctly from \<open>w0\<close> on, with the connection in state \<open>c1\<close>: after any session dispatching is
  defined, and releasing the context frees all memory, closes all descriptors and leaves the connection as \<open>c2\<close>.
\<close>

definition edbus_clean :: "'d dbus_lib \<Rightarrow> 'd epoll_wait \<Rightarrow> 'd bus_setup \<Rightarrow> 'd edbus \<Rightarrow> bus_conn \<Rightarrow> bus_conn \<Rightarrow> bool" where
  "edbus_clean lib wait setup w0 c1 c2 \<longleftrightarrow>
     (\<forall>w. edbus_session lib wait w0 w \<longrightarrow>
        (\<forall>bus ms. bus_acts lib bus \<longrightarrow> shl_edbus_dispatch lib wait bus ms w \<noteq> None) \<and>
        (\<exists>w'. shl_edbus_free setup w c1 = Some (w', c2) \<and> e_heap w' = (\<lambda>_. None) \<and> edbus_released w'))"

lemma edbus_cleanI:
  assumes "dbus_laws lib" "handlers_act lib" "epoll_reports wait" "bus_setup_ok lib setup" "edbus_inv lib w0"
  shows "edbus_clean lib wait setup w0 c1 \<lparr>c_refs = c_refs c1 - 1, c_open = (c_open c1 \<and> \<not> e_owns_bus w0)\<rparr>"
  unfolding edbus_clean_def
proof (intro allI impI conjI)
  fix w assume "edbus_session lib wait w0 w"
  note inv = session_inv [OF assms(1,2,3,5) this]
  show "shl_edbus_dispatch lib wait bus ms w \<noteq> None" if "bus_acts lib bus" for bus ms
  proof (cases "wait 64 ms w")
    case (Inl e)
    then show ?thesis by (simp add: shl_edbus_dispatch_def)
  next
    case (Inr events)
    from dispatch_spec [OF assms(1,2) that assms(3) conjunct1 [OF inv] this] show ?thesis by auto
  qed
  from shl_edbus_free_spec [OF assms(1,4) conjunct1 [OF inv], of c1] inv
  show "\<exists>w'. shl_edbus_free setup w c1 = Some (w', \<lparr>c_refs = c_refs c1 - 1, c_open = (c_open c1 \<and> \<not> e_owns_bus w0)\<rparr>) \<and>
      e_heap w' = (\<lambda>_. None) \<and> edbus_released w'" by simp
qed

text \<open>
  C32. From creation to release nothing is leaked. Creating a context returns: on failure the connection keeps its
  references and no descriptor or timer is left; on success the caller gets the epoll descriptor, and after any sequence of
  things libdbus, the user and the kernel may do and of dispatches, a further dispatch is defined and releasing the
  context frees every source, closes every descriptor and gives the connection back as it was. A context created with a connection of
  its own closes the connection and drops its reference, on failure and on release.
\<close>

theorem edbus_lifecycle:
  assumes "dbus_laws lib" "handlers_act lib" "epoll_reports wait" "bus_setup_ok lib setup"
  shows "(\<exists>w c1 r. shl_edbus_new calloc epoll_create setup d c = Some (w, c1, r) \<and>
      (case r of
         Inl _ \<Rightarrow> c1 = c \<and> edbus_released w
       | Inr efd \<Rightarrow> e_efd w = Some efd \<and> edbus_clean lib wait setup w c1 c)) \<and>
    (\<exists>w c1 r. shl_edbus_new_bus (Some c) calloc epoll_create setup d = Some (w, Some c1, r) \<and>
      (case r of
         Inl _ \<Rightarrow> c1 = \<lparr>c_refs = c_refs c - 1, c_open = False\<rparr> \<and> edbus_released w
       | Inr efd \<Rightarrow> e_efd w = Some efd \<and> edbus_clean lib wait setup w c1 \<lparr>c_refs = c_refs c - 1, c_open = False\<rparr>))"
proof -
  from shl_edbus_new_spec [OF assms(1,4)] obtain w r where
    new: "shl_edbus_new calloc epoll_create setup d c = Some (w, c\<lparr>c_refs := c_refs c + (case r of Inl _ \<Rightarrow> 0 | Inr _ \<Rightarrow> 1)\<rparr>, r)"
      "case r of Inl e \<Rightarrow> edbus_released w \<and> (\<forall>s \<in> ran (e_heap w). s_dead s)
       | Inr efd \<Rightarrow> epoll_create = Inr efd \<and> edbus_inv lib w \<and> e_efd w = Some efd \<and> \<not> e_owns_bus w" by blast
  obtain refs opn where c: "c = \<lparr>c_refs = refs, c_open = opn\<rparr>" by (cases c) simp
  show ?thesis
  proof (cases r)
    case (Inl e)
    then show ?thesis using new c by (simp add: shl_edbus_new_bus_def)
  next
    case (Inr efd)
    then have w: "edbus_inv lib w" "e_efd w = Some efd" "\<not> e_owns_bus w" using new(2) by simp_all
    then have own: "edbus_inv lib (w\<lparr>e_owns_bus := True\<rparr>)" by simp
    show ?thesis
      using new(1) Inr w(2,3) c edbus_cleanI [OF assms w(1), of "\<lparr>c_refs = refs + 1, c_open = opn\<rparr>"]
        edbus_cleanI [OF assms own, of c]
      by (simp add: shl_edbus_new_bus_def)
  qed
qed

text \<open>
  An example set-up: creation adds the watch 5, and unsetting goes over the objects the library knows.
\<close>

definition setup0 :: "demo_state bus_setup" where
  "setup0 = \<lparr>set_watch_functions = (\<lambda>w. if e_heap w 4096 = None \<and> \<not> has_source w False 5 \<and> e_epoll w 9 = None \<and> e_epoll w 10 = None \<and>
         9 \<notin> set (e_owned w) \<and> 10 \<notin> set (e_owned w)
       then Some (shl_edbus_add_watch bus0 (sys0 4096 None) 5 w) else Some (w, True)),
     set_timeout_functions = (\<lambda>w. Some (w, True)),
     unset_watch_functions = (\<lambda>w. foldM (demo_remove False) (map fst (fst (e_dbus w))) w),
     unset_timeout_functions = (\<lambda>w. foldM (demo_remove True) (map fst (snd (e_dbus w))) w)\<rparr>"

lemma demo_remove_all:
  assumes "edbus_inv bus0 w"
  shows "\<exists>w'. foldM (demo_remove timeout) xs w = Some w' \<and> (edbus_step bus0)\<^sup>*\<^sup>* w w' \<and>
    (\<forall>t y. registered w' t y \<longleftrightarrow> registered w t y \<and> \<not> (t = timeout \<and> y \<in> set xs))"
  using assms
proof (induction xs arbitrary: w)
  case (Cons x xs)
  from demo_remove_spec [OF Cons.prems, of timeout x] obtain w1 where
    w1: "demo_remove timeout x w = Some w1" "(edbus_step bus0)\<^sup>*\<^sup>* w w1"
      "\<forall>t y. registered w1 t y \<longleftrightarrow> registered w t y \<and> (t, y) \<noteq> (timeout, x)" by blast
  from edbus_run_spec [OF bus0_laws w1(2) Cons.prems] have "edbus_inv bus0 w1" by blast
  from Cons.IH [OF this] obtain w' where
    w': "foldM (demo_remove timeout) xs w1 = Some w'" "(edbus_step bus0)\<^sup>*\<^sup>* w1 w'"
      "\<forall>t y. registered w' t y \<longleftrightarrow> registered w1 t y \<and> \<not> (t = timeout \<and> y \<in> set xs)" by blast
  have "\<forall>t y. registered w' t y \<longleftrightarrow> registered w t y \<and> \<not> (t = timeout \<and> y \<in> set (x # xs))"
    using w1(3) w'(3) by auto
  moreover have "foldM (demo_remove timeout) (x # xs) w = Some w'" using w1(1) w'(1) by simp
  ultimately show ?case using rtranclp_trans [OF w1(2) w'(2)] by blast
qed simp

lemma registered_known:
  assumes "edbus_inv bus0 w" "registered w timeout x"
  shows "x \<in> set (map fst ((if timeout then snd else fst) (e_dbus w)))"
proof -
  from assms(2) obtain a s where s: "alive w a s" "s_timeout s = timeout" "s_object s = x" by (auto simp: registered_def)
  from inv_alive [OF assms(1) s(1)] have "data_of bus0 w s = a" "a \<noteq> 0" by blast+
  then have "data_in ((if timeout then snd else fst) (e_dbus w)) x \<noteq> 0" using s by (auto simp: data_of_def)
  then show ?thesis by (auto simp: data_in_def map_of_eq_None_iff split: option.splits dest: map_of_SomeD intro!: image_eqI)
qed

lemma setup0_ok: "bus_setup_ok bus0 setup0"
proof -
  have unset: "\<exists>w'. foldM (demo_remove timeout) (map fst ((if timeout then snd else fst) (e_dbus w))) w = Some w' \<and>
      (edbus_step bus0)\<^sup>*\<^sup>* w w' \<and> (\<forall>x. \<not> registered w' timeout x) \<and> (\<forall>t x. registered w' t x \<longrightarrow> registered w t x)"
    if "edbus_inv bus0 w" for w timeout
    using demo_remove_all [OF that, of timeout "map fst ((if timeout then snd else fst) (e_dbus w))"]
      registered_known [OF that, of timeout] by metis
  have set: "\<exists>w' b. set_watch_functions setup0 w = Some (w', b) \<and> (edbus_step bus0)\<^sup>*\<^sup>* w w'" if "edbus_inv bus0 w" for w
  proof (cases "e_heap w 4096 = None \<and> \<not> has_source w False 5 \<and> e_epoll w 9 = None \<and> e_epoll w 10 = None \<and>
         9 \<notin> set (e_owned w) \<and> 10 \<notin> set (e_owned w)")
    case True
    then have "\<not> registered w False 5" "fresh_sys w (sys0 4096 None)"
      using has_source_registered [OF that] by (auto simp: fresh_sys_def sys0_def)
    then have "edbus_step bus0 w (fst (shl_edbus_add_watch bus0 (sys0 4096 None) 5 w))"
      using surjective_pairing by (rule step_add_watch)
    then show ?thesis using True by (cases "shl_edbus_add_watch bus0 (sys0 4096 None) 5 w") (auto simp: setup0_def)
  qed (auto simp: setup0_def)
  have timeouts: "\<exists>w'. unset_timeout_functions setup0 w = Some w' \<and> (edbus_step bus0)\<^sup>*\<^sup>* w w' \<and> (\<forall>x. \<not> registered w' True x)"
    if "edbus_inv bus0 w" for w
    using unset [OF that, of True] unfolding setup0_def by fastforce
  have watches: "\<exists>w'. unset_watch_functions setup0 w = Some w' \<and> (edbus_step bus0)\<^sup>*\<^sup>* w w' \<and>
      (\<forall>x. \<not> registered w' False x) \<and> (\<forall>x. registered w' True x \<longrightarrow> registered w True x)" if "edbus_inv bus0 w" for w
    using unset [OF that, of False] unfolding setup0_def by fastforce
  have "\<exists>w' b. set_timeout_functions setup0 w = Some (w', b) \<and> (edbus_step bus0)\<^sup>*\<^sup>* w w'" for w
    by (auto simp: setup0_def)
  then show ?thesis
    unfolding bus_setup_ok_def using set timeouts watches by (intro allI impI conjI)
qed

theorem edbus_lifecycle_witness:
  "\<exists>w c1. shl_edbus_new_bus (Some \<lparr>c_refs = 1, c_open = True\<rparr>) True (Inr 7) setup0 ([], []) = Some (w, Some c1, Inr 7) \<and>
     edbus_clean bus0 wait0 setup0 w c1 \<lparr>c_refs = 0, c_open = False\<rparr> \<and> registered w False 5"
proof -
  let ?new = "shl_edbus_new_bus (Some \<lparr>c_refs = 1, c_open = True\<rparr>) True (Inr 7) setup0 ([], [])"
  have "?new = Some (world0\<lparr>e_efd := Some 7, e_owns_bus := True\<rparr>, Some \<lparr>c_refs = 1, c_open = True\<rparr>, Inr 7)"
    by (simp add: shl_edbus_new_bus_def shl_edbus_new_def setup0_def has_source_def world0_eq sys0_def data_in_def
        shl_edbus_add_watch_def shl_edbus_watch_def shl_edbus_get_watch_events_def edbus_empty_def bus0_def demo_base_def event_bits Let_def)
  moreover have "registered (world0\<lparr>e_efd := Some 7, e_owns_bus := True\<rparr>) False 5"
    by (simp add: registered_def alive_def world0_eq)
  ultimately show ?thesis
    using edbus_lifecycle [OF bus0_laws bus0_acts wait0_reports setup0_ok, of True "Inr 7" "([], [])" "\<lparr>c_refs = 1, c_open = True\<rparr>"]
    by auto
qed

text \<open>
  The failure path of \<^verbatim>\<open>shl_edbus_new\<close> does not walk the free list: the sources libdbus had added before it
  failed are killed but never freed.
\<close>

lemma edbus_new_leaks:
  assumes "dbus_laws lib" "bus_setup_ok lib setup"
    and "set_watch_functions setup (edbus_empty d\<lparr>e_efd := Some efd\<rparr>) = Some (w1, True)"
    and "set_timeout_functions setup w1 = Some (w2, False)" "edbus_inv lib w2"
  shows "\<exists>w'. shl_edbus_new True (Inr efd) setup d c = Some (w', c, Inl ENOMEM) \<and> dom (e_heap w2) \<subseteq> dom (e_heap w')"
  using new_error_spec [OF assms(1,2,5)] assms(3,4) by (auto simp: shl_edbus_new_def)

subsection \<open>Timers are not consumed\<close>

text \<open>
  Dispatching itself never resets a timer: if the handlers leave the timers alone, an expired timer is still expired
  afterwards, so its descriptor is still readable and the timeout is handled again by the next dispatch.
\<close>

definition keeps_timers :: "('d edbus \<Rightarrow> 'd edbus option) \<Rightarrow> bool" where
  "keeps_timers f \<longleftrightarrow> (\<forall>w w'. f w = Some w' \<longrightarrow> e_timers w' = e_timers w)"

lemma foldM_keeps_timers:
  assumes "\<And>e. keeps_timers (f e)"
  shows "keeps_timers (foldM f es)"
  unfolding keeps_timers_def
proof (intro allI)
  fix w w' show "foldM f es w = Some w' \<longrightarrow> e_timers w' = e_timers w"
    using assms by (induction es arbitrary: w) (auto simp: keeps_timers_def split: Option.bind_splits)
qed

lemma dispatch_event_keeps_timers:
  assumes "\<And>x flags. keeps_timers (watch_handle lib x flags)" "\<And>x. keeps_timers (timeout_handle lib x)"
  shows "keeps_timers (dispatch_event lib e)"
  using assms by (auto simp: keeps_timers_def dispatch_event_def split: Option.bind_splits if_splits)

lemma bus_dispatch_keeps_timers:
  assumes "\<forall>c \<in> set bus. keeps_timers (fst c)" "bus_dispatch bus w = Some (w', r)"
  shows "e_timers w' = e_timers w"
  using assms
  by (induction bus arbitrary: w)
    (auto simp: keeps_timers_def split: Option.bind_splits dispatch_status.splits)

lemma edbus_timer_not_consumed:
  assumes "dbus_laws lib" "handlers_act lib" "epoll_reports wait" "edbus_inv lib w" "bus_acts lib bus"
    and keep: "\<And>x flags. keeps_timers (watch_handle lib x flags)" "\<And>x. keeps_timers (timeout_handle lib x)"
      "\<forall>c \<in> set bus. keeps_timers (fst c)"
    and "shl_edbus_dispatch lib wait bus ms w = Some (w', r)"
  shows "e_timers w' = e_timers w"
proof (cases "wait 64 ms w")
  case (Inl e)
  then show ?thesis using assms(9) by (auto simp: shl_edbus_dispatch_def split: if_splits)
next
  case (Inr events)
  then obtain w1 w2 where w: "foldM (dispatch_event lib) events w = Some w1" "free_sources w1 = Some w2" "bus_dispatch bus w2 = Some (w', r)"
    using assms(9) by (auto simp: shl_edbus_dispatch_def split: Option.bind_splits)
  have "\<forall>e \<in> set events. \<exists>fd ev. e_epoll w fd = Some (ev, snd e)" using assms(3) Inr by (auto simp: epoll_reports_def)
  then have "snd ` set events \<subseteq> dom (e_heap w)" using inv_epoll [OF assms(4)] by (fastforce simp: alive_def)
  from dispatch_events_spec [OF assms(1) _ _ assms(4) this] assms(2) w(1) have "edbus_inv lib w1" by (auto simp: handlers_act_def)
  then have "e_timers w2 = e_timers w1" using free_dead_spec(1) w(2) by (fastforce simp: free_dead_def)
  moreover have "e_timers w1 = e_timers w"
    using foldM_keeps_timers [of "dispatch_event lib" events, OF dispatch_event_keeps_timers] keep(1,2) w(1)
    unfolding keeps_timers_def by blast
  ultimately show ?thesis using bus_dispatch_keeps_timers [OF keep(3) w(3)] by simp
qed

end
