(* ===== verification/Spec2Isabelle.thy ===== *)
theory Spec2Isabelle
  imports Shl_Ring Shl_Buf Shl_Containers Shl_Atoi Shl_Qstr Shl_Path Shl_Ratelimit Shl_Dlist
    Shl_Pty_Bridge_Life Shl_Log Shl_Edbus_Life
begin

text \<open>
  \<^bold>\<open>Verification of libshl\<close>, a C library of small helpers for system programs: byte queues, a trie, a hash
  table, linked lists, string and path helpers, rate limits, loggers, pseudo terminals and a D-Bus event
  loop. The source files are those under \<^verbatim>\<open>src/\<close> of the repository.

  \<^bold>\<open>How C is modelled.\<close> The platform is LP64: \<^verbatim>\<open>size_t\<close>, \<^verbatim>\<open>uintptr_t\<close> and \<^verbatim>\<open>long\<close> have 64 bits and are words,
  whose arithmetic wraps. A memory block is the list of its bytes and a null pointer is \<^const>\<open>None\<close>; reads, writes and
  copies are checked (\<^verbatim>\<open>mem_read\<close>, \<^verbatim>\<open>memcpy_at\<close>). Undefined behaviour (an access out of bounds or after a
  free, a second free, an undefined shift, \<^verbatim>\<open>memmove\<close> with a null pointer, negating \<^verbatim>\<open>INT_MIN\<close>, leaving a function without \<^verbatim>\<open>va_end\<close>) and a loop that does not end are \<^const>\<open>None\<close> of the outer option, so a theorem that a
  call gives \<^const>\<open>Some\<close> says that it is safe and that it returns. A negative error code is \<^const>\<open>Inl\<close> of the type
  \<^verbatim>\<open>errno\<close>, success is \<^const>\<open>Inr\<close>. Memory allocation is an argument (\<^verbatim>\<open>alloc_env\<close>): which requests fail, and
  what fresh memory holds. System calls, the clock, the file system, libdbus and user callbacks are arguments as well; what is
  relied on of them is a named hypothesis with a concrete instance in the witness.

  \<^bold>\<open>The parts.\<close>
  \<^item> \<^verbatim>\<open>Shl_Prelude\<close>: types, blocks, allocation, words, monadic folds. \<^verbatim>\<open>Shl_Trace\<close>: sequences of calls, the traces of a
    specification, and the locale \<open>simulation\<close>. \<^verbatim>\<open>Shl_Macro\<close>: \<^verbatim>\<open>shl_macro.h\<close> (clean-up at the end of a scope, minimum and
    maximum, alignment, zeroing, pointer casts, checked multiplication). \<^verbatim>\<open>Shl_Alloc\<close>: the growing reallocators of \<^verbatim>\<open>shl_util.c\<close>:
    they keep the old bytes, zero the new ones and grow geometrically, for sizes that fit 64 bits.
  \<^item> \<^verbatim>\<open>Shl_Fifo\<close>: windows of circular buffers and the locale \<open>byte_fifo\<close>, the contract of a byte queue, with runs of
    arbitrary operations. It is interpreted by the ring of \<^verbatim>\<open>shl_ring.c\<close> (\<^verbatim>\<open>Shl_Ring\<close>), the buffer of \<^verbatim>\<open>shl_buf.h\<close>
    (\<^verbatim>\<open>Shl_Buf\<close>) and the output ring of \<^verbatim>\<open>shl_pty.c\<close> (\<^verbatim>\<open>Shl_Pty_Ring\<close>): no access leaves the buffer, no byte is lost or reordered,
    and a failed allocation changes nothing (the buffer of \<^verbatim>\<open>shl_buf.h\<close> once it has memory). \<^verbatim>\<open>Shl_Ring\<close> also has the states a client can reach, all well-formed.
  \<^item> \<^verbatim>\<open>Shl_Trie\<close>, \<^verbatim>\<open>Shl_Trie_Tree\<close>, \<^verbatim>\<open>Shl_Trie_Ops\<close>, \<^verbatim>\<open>Shl_Trie_Traverse\<close>: the critical-bit trie of \<^verbatim>\<open>shl_trie.c\<close> with its tagged
    pointers on a heap; the tree it represents; insertion, lookup and removal as operations of a map; the
    traversal that marks visited nodes in the pointers, prefix visits and clearing. \<^verbatim>\<open>Shl_Trie_Order\<close>: entries are visited
    in lexicographic order of their keys, so a visit depends only on the dictionary the trie stands for.
  \<^item> \<^verbatim>\<open>Shl_Dict\<close>: the locales of dictionaries (one object per key, and bags of objects) that the trie and the
    hash table are interpretations of. \<^verbatim>\<open>Shl_Containers\<close> and the theorem at the end of this theory compare the two.
  \<^item> \<^verbatim>\<open>Shl_Htable\<close>, \<^verbatim>\<open>Shl_Htable_Inv\<close>, \<^verbatim>\<open>Shl_Htable_Find\<close>, \<^verbatim>\<open>Shl_Htable_Grow\<close>, \<^verbatim>\<open>Shl_Htable_Keys\<close>: the open-addressing table of
    \<^verbatim>\<open>shl_htable.c\<close>, which hides hash bits in the common bits of the pointers: its invariant, searching, doubling and
    rehashing, the typed wrappers and initialisers of \<^verbatim>\<open>shl_htable.h\<close>, and the iteration macros.
  \<^item> \<^verbatim>\<open>Shl_Dlist\<close>: the lists of \<^verbatim>\<open>shl_dlist.h\<close> and all their iterators, as sequences on a heap.
  \<^item> From \<^verbatim>\<open>shl_util.c\<close>: \<^verbatim>\<open>Shl_Atoi\<close> (numbers), \<^verbatim>\<open>Shl_Strv\<close> (string vectors and the locale \<open>tokenizer\<close> that the splitter and the
    quoted tokenizer are interpretations of), \<^verbatim>\<open>Shl_Str\<close> (concatenation and splitting), \<^verbatim>\<open>Shl_Qstr\<close> (quoted strings, with
    the round trip of joining and tokenizing), \<^verbatim>\<open>Shl_Path\<close> (paths and recursive \<^verbatim>\<open>mkdir\<close>), \<^verbatim>\<open>Shl_Ratelimit\<close>.
  \<^item> \<^verbatim>\<open>Shl_Pty_Open\<close>, \<^verbatim>\<open>Shl_Pty\<close>: opening a pseudo terminal with both sides of the fork and their handshake; references,
    dispatching and writing, on top of the queue lemmas of the ring. \<^verbatim>\<open>Shl_Pty_Session\<close>: an abstract machine of what a caller sees of a
    PTY, and the simulation that every sequence of calls on an object from \<^verbatim>\<open>shl_pty_open\<close> takes its steps.
    \<^verbatim>\<open>Shl_Pty_Bridge\<close>: the bridge over an epoll set with edge-triggered events. \<^verbatim>\<open>Shl_Pty_Bridge_Life\<close>: the states a bridge and the PTYs around
    it can get into; in all of them a dispatch is defined and reaches the right PTY.
  \<^item> \<^verbatim>\<open>Shl_Log\<close>: the loggers and error macros of \<^verbatim>\<open>shl_log.c\<close>, \<^verbatim>\<open>shl_log.h\<close> and \<^verbatim>\<open>shl_llog.h\<close>, with \<^verbatim>\<open>errno\<close> as state.
  \<^item> \<^verbatim>\<open>Shl_Edbus\<close>: the event sources, timers and epoll set of \<^verbatim>\<open>shl_edbus.c\<close>. \<^verbatim>\<open>Shl_Edbus_Inv\<close>: the invariant of a context and, as a
    step relation, what libdbus, its user and the kernel may do. \<^verbatim>\<open>Shl_Edbus_Life\<close>: dispatching is safe under every interleaving of
    handlers and callbacks, and sessions from creation to release leak nothing.

  \<^bold>\<open>Loops and bounds.\<close> Loops are structural recursion, functions with a measure, or partial functions into the
  option type that are proved to return. Lists of system-call answers that run out stand for a call that has
  not returned yet. The queue theorems assume less than \<open>2^62\<close> bytes in all, so that sizes and their
  doubling do not wrap; the hash table theorems are for fewer than \<open>3 * 2^28\<close> objects, so that the
  number of buckets stays within an \<^verbatim>\<open>int\<close> shift, and for pointers with the same highest set bit (\<^verbatim>\<open>good_ptr\<close>).
  The splitter and the tokenizer are correct where the small allocations they do not check succeed (\<^verbatim>\<open>mallocs_ok\<close>),
  recursive \<^verbatim>\<open>mkdir\<close> creates the path where the file system refuses none of its directories (\<^verbatim>\<open>not_refused\<close>), and the
  bridge is safe where no other process holds the open file of a master (\<open>held = {}\<close>).

  \<^bold>\<open>Where the code deviates\<close> from its comments or intentions, or a theorem needs its condition, this is stated as lemmas next to
  the definitions:
  \<^verbatim>\<open>htable_loses_object\<close>, \<^verbatim>\<open>trie_visit_no_prefix\<close>, \<^verbatim>\<open>atoi_decimal_overflow_missed\<close>, \<^verbatim>\<open>tokenize_ignores_quotes\<close>,
  \<^verbatim>\<open>ratelimit_define_never_limits\<close>, \<^verbatim>\<open>align_power2_undefined\<close>, \<^verbatim>\<open>greedy_realloc_t_overflow\<close>, \<^verbatim>\<open>bridge_not_rearmed\<close>,
  \<^verbatim>\<open>bridge_dangling\<close>, \<^verbatim>\<open>buf_pull_null_undefined\<close>, \<^verbatim>\<open>strjoin_overflow\<close>, \<^verbatim>\<open>mkdir_p_mode_refused\<close>,
  \<^verbatim>\<open>log_time_negative\<close>, \<^verbatim>\<open>llog_errno_lost\<close>, \<^verbatim>\<open>strsplit_malloc_unchecked\<close>,
  \<^verbatim>\<open>tokenize_malloc_unchecked\<close>, \<^verbatim>\<open>join_loses_quote_and_empty\<close>, \<^verbatim>\<open>ring_grow_wraps\<close>, \<^verbatim>\<open>edbus_new_leaks\<close>, \<^verbatim>\<open>edbus_timer_not_consumed\<close>.

  \<^bold>\<open>Not modelled.\<close> The macros of \<^verbatim>\<open>shl_macro.h\<close> that are compiler attributes, stringification, unique names or static
  assertions (no behaviour at run time), the
  rendering of user-supplied \<^verbatim>\<open>printf\<close> formats (a message is a function from \<^verbatim>\<open>errno\<close> to its text), the passing of time (timers expire at any moment), the generated
  \<^verbatim>\<open>shl_githead.h\<close>, and the tests.
\<close>

subsection \<open>Across the containers\<close>

text \<open>
  C14. A client that keeps objects with string keys sees the same results from a trie and from a hash
  table of strings, under these conditions: no allocation of a trie node or of a table fails, the
  addresses of all objects have the same highest set bit (the table loses objects otherwise) and are
  multiples of four (the trie needs the two lowest bits), there are fewer than \<open>3 * 2^28\<close> operations, and no key is inserted
  while it is present (which the trie refuses with \<^verbatim>\<open>-EALREADY\<close> and the table accepts). Then every
  lookup and removal returns the same object in both, and at the end visiting the table and clearing
  the trie go over the same objects.
\<close>

theorem trie_htable_equivalent:
  assumes "\<And>i h root n. alloc i (h, root) = Some n \<Longrightarrow> h n = None \<and> aligned n"
    and "\<And>i h root T. trie_ok K h root T \<Longrightarrow> alloc i (h, root) \<noteq> None" "\<And>i s n. \<not> alloc_fails (env i s) n"
    and "list_all (dict_op_ok cstring (\<lambda>e. entry_ok K e \<and> good_ptr B e)) ops" "length ops < 3 * 2 ^ 28"
  shows "\<exists>h root rs t rs'.
    dict_run (trie_lookup_op K) (trie_insert_op K) (trie_remove_op K) alloc ops (Map.empty, shl_trie_zero)
      = Some ((h, root), rs) \<and>
    dict_run str_lookup (str_insert K) str_remove env (map (map_dict_op Some id) ops) (shl_htable_init_str K)
      = Some (t, rs') \<and>
    (Status (Inl EALREADY) \<notin> set rs \<longrightarrow> rs' = rs \<and>
       (\<exists>es out. shl_trie_clear_str h root True = Some (Map.empty, shl_trie_zero, es) \<and>
          shl_htable_visit t True = Some out \<and> mset out = mset es))"
proof -
  note ops = ops_for_table [OF assms(4)]
  have rel: "trie_rel K (Map.empty, shl_trie_zero) Map.empty"
    unfolding trie_rel_def by (intro exI [of _ None]) (simp add: shl_trie_zero_def)
  have fresh: "trie_fresh (alloc i s) s" for i s
    using assms(1) [of i "fst s" "snd s"] by (auto simp: trie_fresh_def split: option.splits)
  have enough: "\<forall>i s m. trie_rel K s m \<longrightarrow> alloc i s \<noteq> None" using assms(2) by (auto simp: trie_rel_def)
  have "0 + 0 * length ops < (1 :: nat)" by simp
  from trie_dict.run_refines [where alloc = alloc, OF rel conjunct1 [OF ops] fresh this] enough
  obtain h root rs T where 1:
    "dict_run (trie_lookup_op K) (trie_insert_op K) (trie_remove_op K) alloc ops (Map.empty, shl_trie_zero) = Some ((h, root), rs)"
    "trie_ok K h root T" "trace (dict_step (kof K)) Map.empty ops rs (trie_map K T)" "Status (Inl ENOMEM) \<notin> set rs"
    by (auto simp: trie_rel_def)
  have init: "keyed B K shl_htable_rehash_str (shl_htable_init_str K) {#}"
    unfolding shl_htable_init_str_def by (rule keyed_init) (simp_all add: shl_htable_compare_str_eq)
  have "size ({#} :: ptr multiset) + 1 * length (map (map_dict_op Some id) ops) < 3 * 2 ^ 28" using assms(5) by simp
  from str_table.run_refines [where alloc = env, OF init conjunct2 [OF ops] _ this] assms(3)
  obtain t rs' S where 2:
    "dict_run str_lookup (str_insert K) str_remove env (map (map_dict_op Some id) ops) (shl_htable_init_str K) = Some (t, rs')"
    "keyed B K shl_htable_rehash_str t S" "trace (bag_step K) {#} (map (map_dict_op Some id) ops) rs' S"
    "Status (Inl ENOMEM) \<notin> set rs'" by blast
  have "rs' = rs \<and> (\<exists>es out. shl_trie_clear_str h root True = Some (Map.empty, shl_trie_zero, es) \<and>
      shl_htable_visit t True = Some out \<and> mset out = mset es)" if fresh: "Status (Inl EALREADY) \<notin> set rs"
  proof -
    have "same_entries K Map.empty {#}" by (simp add: same_entries_def)
    moreover have "K e = Some (kof K e)" if "Insert e \<in> set ops" for e
      using assms(4) that by (fastforce simp: list_all_iff entry_ok_def kof_def)
    ultimately have agree: "rs' = rs" "same_entries K (trie_map K T) S"
      using trace_agrees [OF 1(3) 2(3)] 1(4) 2(4) fresh by auto
    from 2(2) have "ht_ok B (htable t) S" by (simp add: keyed_def)
    from htable_visit_correct [OF this] obtain out where out: "shl_htable_visit t True = Some out" "mset out = S"
      by (auto simp: shl_htable_visit_def)
    have "mset (oleaves T) = S"
      using agree(2) oleaves_entries [OF 1(2)] by (intro multiset_eqI) (auto simp: same_entries_def distinct_count_atmost_1)
    with out agree(1) trie_clear_correct [OF 1(2), of True] show ?thesis
      by (simp add: shl_trie_clear_str_def shl_trie_zero_def)
  qed
  with 1(1) 2(1) show ?thesis by blast
qed

theorem trie_htable_equivalent_witness:
  "\<exists>h root rs t rs'.
    dict_run (trie_lookup_op two_objs) (trie_insert_op two_objs) (trie_remove_op two_objs) two_nodes
      [Insert 0x1000, Insert 0x1010, Lookup [97], Remove [97]] (Map.empty, shl_trie_zero) = Some ((h, root), rs) \<and>
    dict_run str_lookup (str_insert two_objs) str_remove (\<lambda>_ _. no_fail)
      [Insert 0x1000, Insert 0x1010, Lookup (Some [97]), Remove (Some [97])] (shl_htable_init_str two_objs) = Some (t, rs') \<and>
    (Status (Inl EALREADY) \<notin> set rs \<longrightarrow> rs' = rs)"
proof -
  let ?ops = "[Insert 0x1000, Insert 0x1010, Lookup [97], Remove [97]] :: (u8 list, ptr) dict_op list"
  have a1: "h n = None \<and> aligned n" if "two_nodes i (h, root) = Some n" for i h root n
    using that by (auto simp: two_nodes_def aligned_def split: if_splits)
  have a2: "\<not> alloc_fails no_fail n" for n by (simp add: no_fail_def)
  have a3: "list_all (dict_op_ok cstring (\<lambda>e. entry_ok two_objs e \<and> good_ptr 12 e)) ?ops"
    using good_ptr_examples by (simp add: cstring_def entry_ok_def two_objs_def aligned_def)
  have a4: "length ?ops < 3 * 2 ^ 28" by simp
  have "map (map_dict_op Some id) ?ops = [Insert 0x1000, Insert 0x1010, Lookup (Some [97]), Remove (Some [97])]"
    by simp
  moreover have "\<exists>h root rs t rs'.
      dict_run (trie_lookup_op two_objs) (trie_insert_op two_objs) (trie_remove_op two_objs) two_nodes ?ops
        (Map.empty, shl_trie_zero) = Some ((h, root), rs) \<and>
      dict_run str_lookup (str_insert two_objs) str_remove (\<lambda>_ _. no_fail) (map (map_dict_op Some id) ?ops)
        (shl_htable_init_str two_objs) = Some (t, rs') \<and>
      (Status (Inl EALREADY) \<notin> set rs \<longrightarrow> rs' = rs \<and>
         (\<exists>es out. shl_trie_clear_str h root True = Some (Map.empty, shl_trie_zero, es) \<and>
            shl_htable_visit t True = Some out \<and> mset out = mset es))"
    by (rule trie_htable_equivalent) (use a1 a2 a3 a4 two_nodes_enough in auto)
  ultimately show ?thesis by metis
qed

end
